(* ===== verification/Prelude.thy ===== *)
theory Prelude
  imports Main "HOL-Library.Word" "HOL-Library.List_Lexorder"
begin

text \<open>
  What every component shares: Go byte strings and slices, Go errors as values (an error
  return, a wrapped error, a panic), the fixed-width integer encodings of
  \<open>encoding/binary\<close>, and the reads of \<open>bytes.Reader\<close> and \<open>io.ReadFull\<close>.
\<close>

unbundle bit_operations_syntax

section \<open>Types\<close>

text \<open>
  A Go string is a sequence of bytes; \<open>string(data)\<close> and \<open>[]byte(s)\<close> keep the bytes.
  Go compares strings bytewise, which is the lexicographic order on byte lists.
  A \<open>[]byte\<close> whose nil-ness the code tests is a \<open>slice\<close>: \<open>None\<close> is the nil slice.
\<close>

type_synonym byte = "8 word"
type_synonym bytes = "byte list"
type_synonym slice = "bytes option"
type_synonym u32 = "32 word"
type_synonym u64 = "64 word"

definition lit :: "string \<Rightarrow> bytes" where
  "lit s = map of_char s"

definition slice_bytes :: "slice \<Rightarrow> bytes" where
  "slice_bytes v = (case v of None \<Rightarrow> [] | Some b \<Rightarrow> b)"

lemma slice_bytes_simps [simp]: "slice_bytes None = []" "slice_bytes (Some b) = b"
  by (simp_all add: slice_bytes_def)

section \<open>Errors as values\<close>

text \<open>
  \<open>EOF\<close> and \<open>UnexpectedEOF\<close> are the sentinels the code compares against; \<open>Err\<close> is an
  error built by \<open>fmt.Errorf\<close>, \<open>Wrap\<close> one built with \<open>%w\<close>, \<open>Panic\<close> a run-time panic
  (failed type assertion, slice bounds, write to a nil map).  A panic is never wrapped: it
  unwinds through the callers.
\<close>

datatype go_error = EOF | UnexpectedEOF | Err string | Wrap string go_error | Panic string

type_synonym 'a res = "go_error + 'a"

definition bindE :: "'a res \<Rightarrow> ('a \<Rightarrow> 'b res) \<Rightarrow> 'b res" where
  "bindE m f = (case m of Inl e \<Rightarrow> Inl e | Inr x \<Rightarrow> f x)"

definition wrapE :: "string \<Rightarrow> 'a res \<Rightarrow> 'a res" where
  "wrapE msg m = (case m of Inl (Panic p) \<Rightarrow> Inl (Panic p) | Inl e \<Rightarrow> Inl (Wrap msg e) | Inr x \<Rightarrow> Inr x)"

named_theorems bindE_iff \<open>rules that read a successful or failed sequence of calls\<close>

lemma bindE_simps [simp]:
  "bindE (Inr x) f = f x"
  "bindE (Inl e) f = Inl e"
  by (simp_all add: bindE_def)

lemma bindE_Inr_iff [bindE_iff]: "bindE m f = Inr y \<longleftrightarrow> (\<exists>x. m = Inr x \<and> f x = Inr y)"
  by (cases m) auto

lemma bindE_Inl_iff [bindE_iff]:
  "bindE m f = Inl e \<longleftrightarrow> m = Inl e \<or> (\<exists>x. m = Inr x \<and> f x = Inl e)"
  by (cases m) auto

lemma bindE_assoc: "bindE (bindE m f) g = bindE m (\<lambda>x. bindE (f x) g)"
  by (cases m) auto

lemma wrapE_Inr [simp]: "wrapE msg (Inr x) = Inr x"
  by (simp add: wrapE_def)

lemma wrapE_Inr_iff [bindE_iff]: "wrapE msg m = Inr y \<longleftrightarrow> m = Inr y"
  by (auto simp: wrapE_def split: sum.splits go_error.splits)

lemma wrapE_not_EOF [simp]: "wrapE msg m \<noteq> Inl EOF"
  by (auto simp: wrapE_def split: sum.splits go_error.splits)

fun is_panic :: "go_error \<Rightarrow> bool" where
  "is_panic (Panic _) = True"
| "is_panic _ = False"

definition succeeds :: "'a res \<Rightarrow> bool" where
  "succeeds r = (case r of Inl _ \<Rightarrow> False | Inr _ \<Rightarrow> True)"

lemma succeeds_simps [simp]: "succeeds (Inr x)" "\<not> succeeds (Inl e)"
  by (simp_all add: succeeds_def)

lemma succeeds_iff: "succeeds r \<longleftrightarrow> (\<exists>x. r = Inr x)"
  by (cases r) auto

text \<open>
  The same for a step on a state: the rest runs unless the step failed, and a failed step
  keeps the state it had reached.
\<close>

definition bindS :: "'a res \<times> 's \<Rightarrow> ('a \<Rightarrow> 's \<Rightarrow> 'b res \<times> 's) \<Rightarrow> 'b res \<times> 's" where
  "bindS m f = (case m of (Inl e, s) \<Rightarrow> (Inl e, s) | (Inr x, s) \<Rightarrow> f x s)"

definition wrapS :: "string \<Rightarrow> 'a res \<times> 's \<Rightarrow> 'a res \<times> 's" where
  "wrapS msg m = (wrapE msg (fst m), snd m)"

lemma bindS_simps [simp]:
  "bindS (Inl e, s) f = (Inl e, s)"
  "bindS (Inr x, s) f = f x s"
  by (simp_all add: bindS_def)

lemma bindS_Inr_iff [bindE_iff]:
  "bindS m f = (Inr y, s') \<longleftrightarrow> (\<exists>x s. m = (Inr x, s) \<and> f x s = (Inr y, s'))"
  by (cases m; cases "fst m") auto

lemma wrapS_Inr_iff [bindE_iff]: "wrapS msg m = (Inr y, s) \<longleftrightarrow> m = (Inr y, s)"
  by (cases m) (auto simp: wrapS_def wrapE_Inr_iff)

section \<open>Fixed-width integers on the wire\<close>

text \<open>
  \<open>binary.LittleEndian.PutUint32\<close> and its kin: the \<open>n\<close> low bytes of a word, least
  significant first; \<open>le_dec\<close> reads them back.  The big-endian forms are the reverse.
\<close>

primrec le_enc :: "nat \<Rightarrow> 'a::len word \<Rightarrow> bytes" where
  "le_enc 0 w = []"
| "le_enc (Suc n) w = ucast w # le_enc n (drop_bit 8 w)"

fun le_dec :: "bytes \<Rightarrow> 'a::len word" where
  "le_dec [] = 0"
| "le_dec (b # bs) = ucast b OR push_bit 8 (le_dec bs)"

definition be_enc :: "nat \<Rightarrow> 'a::len word \<Rightarrow> bytes" where
  "be_enc n w = rev (le_enc n w)"

definition be_dec :: "bytes \<Rightarrow> 'a::len word" where
  "be_dec bs = le_dec (rev bs)"

lemma length_le_enc [simp]: "length (le_enc n w) = n"
  by (induction n arbitrary: w) auto

lemma length_be_enc [simp]: "length (be_enc n w) = n"
  by (simp add: be_enc_def)

lemma le_dec_enc_take: "le_dec (le_enc n w) = take_bit (8 * n) w"
proof (induction n arbitrary: w)
  case 0
  then show ?case by simp
next
  case (Suc n)
  have "bit (ucast (ucast w :: byte) OR push_bit 8 (take_bit (8 * n) (drop_bit 8 w))) i
      = bit (take_bit (8 * Suc n) w) i" for i
    by (cases "i < 8") (auto simp: bit_simps dest: bit_imp_le_length)
  then have "ucast (ucast w :: byte) OR push_bit 8 (take_bit (8 * n) (drop_bit 8 w))
      = take_bit (8 * Suc n) w"
    by (simp add: bit_eq_iff)
  with Suc show ?case by simp
qed

lemma le_dec_enc: "8 * n = LENGTH('a) \<Longrightarrow> le_dec (le_enc n w) = (w :: 'a::len word)"
  by (simp add: le_dec_enc_take take_bit_word_eq_self)

lemma le_dec_enc32 [simp]: "le_dec (le_enc 4 w) = (w :: u32)"
  by (rule le_dec_enc) simp

lemma le_dec_enc64 [simp]: "le_dec (le_enc 8 w) = (w :: u64)"
  by (rule le_dec_enc) simp

lemma be_dec_enc32 [simp]: "be_dec (be_enc 4 w) = (w :: u32)"
  by (simp add: be_enc_def be_dec_def)

lemma be_dec_enc64 [simp]: "be_dec (be_enc 8 w) = (w :: u64)"
  by (simp add: be_enc_def be_dec_def)

lemma le_enc_dec: "8 * length bs = LENGTH('a) \<Longrightarrow> le_enc (length bs) (le_dec bs :: 'a::len word) = bs"
proof -
  have gen: "8 * length bs \<le> LENGTH('a) \<Longrightarrow> le_enc (length bs) (le_dec bs :: 'a::len word) = bs"
  proof (induction bs)
    case Nil
    then show ?case by simp
  next
    case (Cons b bs)
    let ?w = "ucast b OR push_bit 8 (le_dec bs) :: 'a word"
    have fits: "bit (le_dec bs :: 'a word) i \<Longrightarrow> i < 8 * length bs" for i
    proof (induction bs arbitrary: i)
      case Nil
      then show ?case by simp
    next
      case (Cons c cs)
      then show ?case
        using bit_imp_le_length [of c i] by (cases "i < 8") (auto simp: bit_simps dest: Cons.IH)
    qed
    have "ucast ?w = b"
      by (rule bit_eqI) (use Cons.prems in \<open>auto simp: bit_simps\<close>)
    moreover have "bit (drop_bit 8 ?w) i = bit (le_dec bs :: 'a word) i" for i
      using fits [of i] Cons.prems bit_imp_le_length [of b "8 + i"]
      by (auto simp: bit_simps bit_imp_le_length)
    then have "drop_bit 8 ?w = (le_dec bs :: 'a word)"
      by (simp add: bit_eq_iff)
    ultimately show ?case
      using Cons by simp
  qed
  show "8 * length bs = LENGTH('a) \<Longrightarrow> le_enc (length bs) (le_dec bs :: 'a::len word) = bs"
    by (rule gen) simp
qed

lemma le_enc_inject: "8 * n = LENGTH('a) \<Longrightarrow> le_enc n v = le_enc n w \<longleftrightarrow> v = (w :: 'a::len word)"
  by (metis le_dec_enc)

definition len32 :: "'a list \<Rightarrow> u32" where
  \<comment> \<open>the conversion \<open>uint32(len(x))\<close>, which keeps the low 32 bits\<close>
  "len32 xs = word_of_nat (length xs)"

lemma unat_len32: "unat (len32 xs) = length xs mod 2 ^ 32"
  by (simp add: len32_def unat_of_nat)

lemma unat_len32_small [simp]: "length xs < 2 ^ 32 \<Longrightarrow> unat (len32 xs) = length xs"
  by (simp add: unat_len32)

text \<open>The lengths a 32-bit length field can express.\<close>

definition str_ok :: "'a list \<Rightarrow> bool" where
  "str_ok s \<longleftrightarrow> length s < 2 ^ 32"

lemma unat_len32_ok [simp]: "str_ok xs \<Longrightarrow> unat (len32 xs) = length xs"
  by (simp add: str_ok_def)

section \<open>Readers\<close>

text \<open>
  A reader is the list of bytes it has not consumed yet.  \<open>read_full\<close> is \<open>io.ReadFull\<close>
  into a buffer of \<open>n\<close> bytes (and so \<open>binary.Read\<close> of a fixed-size value): nothing to
  read is \<open>EOF\<close>, a partial read \<open>UnexpectedEOF\<close>.  \<open>buf_read\<close> is
  \<open>bytes.Reader.Read\<close>: at the end of the data \<open>EOF\<close>, otherwise it copies what there is
  and reports no error for a short read, so the rest of the caller's buffer stays zero.
\<close>

definition read_full :: "nat \<Rightarrow> bytes \<Rightarrow> (bytes \<times> bytes) res" where
  "read_full n buf =
     (if n = 0 then Inr ([], buf)
      else if buf = [] then Inl EOF
      else if length buf < n then Inl UnexpectedEOF
      else Inr (take n buf, drop n buf))"

definition buf_read :: "nat \<Rightarrow> bytes \<Rightarrow> (bytes \<times> bytes) res" where
  "buf_read n buf =
     (if buf = [] then Inl EOF
      else Inr (take n buf @ replicate (n - length buf) 0, drop n buf))"

definition read_byte :: "bytes \<Rightarrow> (byte \<times> bytes) res" where
  "read_byte buf = (case buf of [] \<Rightarrow> Inl EOF | b # rest \<Rightarrow> Inr (b, rest))"

lemma read_full_append [simp]: "length xs = n \<Longrightarrow> read_full n (xs @ rest) = Inr (xs, rest)"
  by (auto simp: read_full_def)

lemma read_full_le_enc [simp]: "read_full n (le_enc n w @ rest) = Inr (le_enc n w, rest)"
  "read_full n (be_enc n w @ rest) = Inr (be_enc n w, rest)"
  by simp_all

lemma read_full_Inr_iff: "read_full n buf = Inr (xs, rest) \<longleftrightarrow> buf = xs @ rest \<and> length xs = n"
  by (auto simp: read_full_def)

lemma read_full_short: "length buf < n \<Longrightarrow> read_full n buf = Inl (if buf = [] then EOF else UnexpectedEOF)"
  by (auto simp: read_full_def)

lemma read_full_Nil: "0 < n \<Longrightarrow> read_full n [] = Inl EOF"
  by (simp add: read_full_def)

lemma read_byte_simps [simp]: "read_byte [] = Inl EOF" "read_byte (b # rest) = Inr (b, rest)"
  by (simp_all add: read_byte_def)

lemma buf_read_Nil [simp]: "buf_read n [] = Inl EOF"
  by (simp add: buf_read_def)

lemma buf_read_append: "xs @ rest \<noteq> [] \<Longrightarrow> length xs = n \<Longrightarrow> buf_read n (xs @ rest) = Inr (xs, rest)"
  by (auto simp: buf_read_def)

lemma read_full_take:
  "length xs = n \<Longrightarrow> read_full n (take k (xs @ ys)) =
     (if n \<le> k then Inr (xs, take (k - n) ys)
      else Inl (if k = 0 then EOF else UnexpectedEOF))"
  by (auto simp: read_full_def)

lemma take_append_le: "k \<le> length xs \<Longrightarrow> take k (xs @ ys) = take k xs"
  by simp

end
