(* ===== verification/Graph_Types.thy ===== *)
theory Graph_Types
  imports Prelude "HOL-Library.AList"
begin

text \<open>
  \<open>pkg/graph/types.go\<close>: property values, nodes, edges, directions and paths.

  A Go map is a list of key/value pairs with distinct keys; the order of the list is the
  order in which a \<open>range\<close> over the map visits the keys in the run at hand.  Go leaves that
  order open, so a theorem about every such list covers every order.  \<open>None\<close> is the nil map,
  from which one can read but to which a write panics.
\<close>

section \<open>Data\<close>

text \<open>
  The dynamic types the code distinguishes: \<open>int\<close> (64 bits here), \<open>int64\<close>, \<open>float64\<close> (its
  IEEE bits), and any other type, with its name as \<open>%T\<close> prints it.
\<close>

datatype pval =
    PString bytes
  | PInt u64
  | PInt64 u64
  | PFloat64 u64
  | PBool bool
  | PBytes bytes
  | POther string

type_synonym props = "(bytes \<times> pval) list"

text \<open>\<open>time.Time\<close>: the Unix second as \<open>int64\<close>, and the nanoseconds within it.\<close>

record gotime =
  unix_sec :: u64
  nanos :: nat

record node =
  n_ID :: bytes
  n_Labels :: "bytes list"
  n_Properties :: "props option"
  n_Version :: u64
  n_CreatedAt :: gotime
  n_UpdatedAt :: gotime

record edge =
  e_ID :: bytes
  e_FromNodeID :: bytes
  e_ToNodeID :: bytes
  e_Type :: bytes
  e_Properties :: "props option"
  e_Version :: u64
  e_CreatedAt :: gotime
  e_UpdatedAt :: gotime

definition props_of :: "props option \<Rightarrow> props" where
  \<comment> \<open>what \<open>range\<close> and \<open>len\<close> see: a nil map is empty\<close>
  "props_of m = (case m of None \<Rightarrow> [] | Some ps \<Rightarrow> ps)"

definition map_read :: "props option \<Rightarrow> bytes \<Rightarrow> pval option" where
  "map_read m k = map_of (props_of m) k"

definition map_write :: "props option \<Rightarrow> bytes \<Rightarrow> pval \<Rightarrow> props option res" where
  "map_write m k v =
     (case m of None \<Rightarrow> Inl (Panic ''assignment to entry in nil map'')
      | Some ps \<Rightarrow> Inr (Some (AList.update k v ps)))"

definition props_ok :: "props option \<Rightarrow> bool" where
  \<comment> \<open>the representation invariant of a Go map\<close>
  "props_ok m \<longleftrightarrow> distinct (map fst (props_of m))"

lemma props_of_simps [simp]: "props_of None = []" "props_of (Some ps) = ps"
  by (simp_all add: props_of_def)

lemma map_read_write:
  "map_write m k v = Inr m' \<Longrightarrow> map_read m' = (map_read m)(k \<mapsto> v)"
  by (auto simp: map_write_def map_read_def update_conv' split: option.splits)

lemma map_write_props_ok: "map_write m k v = Inr m' \<Longrightarrow> props_ok m \<Longrightarrow> props_ok m'"
  by (auto simp: map_write_def props_ok_def distinct_update split: option.splits)

section \<open>Nodes\<close>

definition new_node :: "gotime \<Rightarrow> bytes \<Rightarrow> bytes list \<Rightarrow> node" where
  "new_node now nid labels =
     \<lparr>n_ID = nid, n_Labels = labels, n_Properties = Some [], n_Version = 1,
      n_CreatedAt = now, n_UpdatedAt = now\<rparr>"

fun label_loop :: "bytes list \<Rightarrow> bytes \<Rightarrow> bool" where
  "label_loop [] label = False"
| "label_loop (l # ls) label = (if l = label then True else label_loop ls label)"

definition has_label :: "node \<Rightarrow> bytes \<Rightarrow> bool" where
  "has_label n label = label_loop (n_Labels n) label"

definition get_property :: "node \<Rightarrow> bytes \<Rightarrow> pval option" where
  "get_property n k = map_read (n_Properties n) k"

definition set_property :: "gotime \<Rightarrow> bytes \<Rightarrow> pval \<Rightarrow> node \<Rightarrow> node res" where
  "set_property now k v n =
     bindE (map_write (n_Properties n) k v) (\<lambda>ps.
       Inr (n\<lparr>n_Properties := ps, n_Version := n_Version n + 1, n_UpdatedAt := now\<rparr>))"

text \<open>
  \<open>cloneProperties\<close> builds a new map entry by entry (copying byte slices, which are values
  here); a nil map stays nil.
\<close>

fun clone_loop :: "props \<Rightarrow> props \<Rightarrow> props" where
  "clone_loop cloned [] = cloned"
| "clone_loop cloned ((k, v) # ps) =
     clone_loop (AList.update k (case v of PBytes b \<Rightarrow> PBytes (take (length b) b) | _ \<Rightarrow> v) cloned) ps"

definition clone_properties :: "props option \<Rightarrow> props option" where
  "clone_properties m = (case m of None \<Rightarrow> None | Some ps \<Rightarrow> Some (clone_loop [] ps))"

definition clone_node :: "node \<Rightarrow> node" where
  "clone_node n =
     \<lparr>n_ID = n_ID n, n_Labels = n_Labels n, n_Properties = clone_properties (n_Properties n),
      n_Version = n_Version n, n_CreatedAt = n_CreatedAt n, n_UpdatedAt = n_UpdatedAt n\<rparr>"

section \<open>Edges\<close>

definition new_edge :: "gotime \<Rightarrow> bytes \<Rightarrow> bytes \<Rightarrow> bytes \<Rightarrow> bytes \<Rightarrow> edge" where
  "new_edge now eid from_id to_id etype =
     \<lparr>e_ID = eid, e_FromNodeID = from_id, e_ToNodeID = to_id, e_Type = etype,
      e_Properties = Some [], e_Version = 1, e_CreatedAt = now, e_UpdatedAt = now\<rparr>"

definition edge_set_property :: "gotime \<Rightarrow> bytes \<Rightarrow> pval \<Rightarrow> edge \<Rightarrow> edge res" where
  "edge_set_property now k v e =
     bindE (map_write (e_Properties e) k v) (\<lambda>ps.
       Inr (e\<lparr>e_Properties := ps, e_Version := e_Version e + 1, e_UpdatedAt := now\<rparr>))"

definition clone_edge :: "edge \<Rightarrow> edge" where
  "clone_edge e =
     \<lparr>e_ID = e_ID e, e_FromNodeID = e_FromNodeID e, e_ToNodeID = e_ToNodeID e,
      e_Type = e_Type e, e_Properties = clone_properties (e_Properties e),
      e_Version = e_Version e, e_CreatedAt = e_CreatedAt e, e_UpdatedAt = e_UpdatedAt e\<rparr>"

section \<open>Directions and paths\<close>

text \<open>\<open>Direction\<close> is an \<open>int\<close>; the three constants are 0, 1 and 2.\<close>

datatype direction = DirectionOut | DirectionIn | DirectionBoth | DirectionOther int

fun decimal_nat :: "nat \<Rightarrow> bytes" where
  "decimal_nat n =
     (if n < 10 then [48 + word_of_nat n] else decimal_nat (n div 10) @ [48 + word_of_nat (n mod 10)])"

definition decimal :: "int \<Rightarrow> bytes" where
  \<comment> \<open>\<open>%d\<close>\<close>
  "decimal i = (if i < 0 then 45 # decimal_nat (nat (- i)) else decimal_nat (nat i))"

fun direction_string :: "direction \<Rightarrow> bytes" where
  "direction_string DirectionOut = lit ''OUT''"
| "direction_string DirectionIn = lit ''IN''"
| "direction_string DirectionBoth = lit ''BOTH''"
| "direction_string (DirectionOther d) = lit ''Unknown('' @ decimal d @ lit '')''"

text \<open>A path holds pointers, so a hop may carry no edge (\<open>nil\<close>).\<close>

record path =
  p_Nodes :: "node option list"
  p_Edges :: "edge list"
  p_Cost :: u64

definition path_length :: "path \<Rightarrow> nat" where
  "path_length p = length (p_Edges p)"

definition add_hop :: "node option \<Rightarrow> edge option \<Rightarrow> path \<Rightarrow> path" where
  "add_hop n e p =
     (let p = p\<lparr>p_Nodes := p_Nodes p @ [n]\<rparr>
      in case e of None \<Rightarrow> p | Some e \<Rightarrow> p\<lparr>p_Edges := p_Edges p @ [e]\<rparr>)"

section \<open>Properties\<close>

lemma label_loop_iff: "label_loop ls label \<longleftrightarrow> label \<in> set ls"
  by (induction ls) auto

lemma has_label_iff: "has_label n label \<longleftrightarrow> label \<in> set (n_Labels n)"
  by (simp add: has_label_def label_loop_iff)

lemma clone_loop_append:
  "distinct (map fst (cloned @ ps)) \<Longrightarrow> clone_loop cloned ps = cloned @ ps"
proof (induction ps arbitrary: cloned)
  case Nil
  then show ?case by simp
next
  case (Cons p ps)
  obtain k v where p: "p = (k, v)" by force
  have copy: "(case v of PBytes b \<Rightarrow> PBytes (take (length b) b) | _ \<Rightarrow> v) = v"
    by (cases v) simp_all
  from Cons.prems p have "k \<notin> fst ` set cloned" by auto
  then have "AList.update k v cloned = cloned @ [(k, v)]"
    by (induction cloned) auto
  with Cons p copy show ?case by simp
qed

lemma clone_properties_id: "props_ok m \<Longrightarrow> clone_properties m = m"
  by (cases m) (simp_all add: clone_properties_def props_ok_def clone_loop_append)

lemma clone_node_id: "props_ok (n_Properties n) \<Longrightarrow> clone_node n = n"
  by (simp add: clone_node_def clone_properties_id)

lemma clone_edge_id: "props_ok (e_Properties e) \<Longrightarrow> clone_edge e = e"
  by (simp add: clone_edge_def clone_properties_id)

text \<open>
  Setting several properties in turn, as \<open>UpdateNode\<close> does.  Each call of \<open>SetProperty\<close> stores
  the time it reads itself (\<open>set_each\<close>); the next call overwrites it, so only the last time
  is seen and \<open>set_properties\<close> takes that one (\<open>set_each_last\<close>).
\<close>

fun set_each :: "(gotime \<times> bytes \<times> pval) list \<Rightarrow> node \<Rightarrow> node res" where
  "set_each [] n = Inr n"
| "set_each ((now, k, v) # ps) n = bindE (set_property now k v n) (set_each ps)"

fun set_properties :: "gotime \<Rightarrow> props \<Rightarrow> node \<Rightarrow> node res" where
  "set_properties now [] n = Inr n"
| "set_properties now ((k, v) # ps) n = bindE (set_property now k v n) (set_properties now ps)"

lemma set_property_stamp:
  "set_property now k v (n\<lparr>n_UpdatedAt := u\<rparr>) = set_property now k v n"
  by (simp add: set_property_def)

lemma set_properties_stamp:
  "bindE (set_property u k v n) (set_properties now (p # ps)) = bindE (set_property now k v n) (set_properties now (p # ps))"
proof (cases "map_write (n_Properties n) k v")
  case (Inr m)
  obtain k' v' where p: "p = (k', v')" by force
  let ?n = "\<lambda>t. n\<lparr>n_Properties := m, n_Version := n_Version n + 1, n_UpdatedAt := t\<rparr>"
  have "set_property now k' v' (?n u) = set_property now k' v' (?n now)"
    using set_property_stamp [of now k' v' u "?n now"] by simp
  with Inr show ?thesis by (simp add: p set_property_def bindE_def)
qed (simp add: set_property_def bindE_def)

lemma set_each_last: "set_each ps n = set_properties (fst (last ps)) (map snd ps) n"
proof (induction ps arbitrary: n)
  case (Cons p ps)
  obtain now k v where p: "p = (now, k, v)" by (cases p) auto
  from Cons.IH have IH: "set_each ps = set_properties (fst (last ps)) (map snd ps)" by blast
  show ?case
  proof (cases ps)
    case (Cons q qs)
    then have ps: "map snd ps = snd q # map snd qs" "last ((now, k, v) # ps) = last ps" by simp_all
    show ?thesis
      using set_properties_stamp [of now k v n "fst (last ps)" "snd q" "map snd qs"]
      by (simp only: ps p set_each.simps IH set_properties.simps(2) list.map snd_conv)
  qed (simp add: p bindE_def split: sum.split)
qed simp

lemma set_property_Inr:
  assumes "set_property now k v n = Inr n'"
  shows "get_property n' = (get_property n)(k \<mapsto> v)" "n_Version n' = n_Version n + 1"
    "n_ID n' = n_ID n" "n_Labels n' = n_Labels n" "n_CreatedAt n' = n_CreatedAt n"
    "props_ok (n_Properties n) \<Longrightarrow> props_ok (n_Properties n')"
  using assms
  by (auto simp: set_property_def get_property_def bindE_iff fun_eq_iff map_read_write
      intro: map_write_props_ok)

lemma set_properties_ok:
  "n_Properties n \<noteq> None \<Longrightarrow>
   \<exists>n'. set_properties now ps n = Inr n' \<and> n_Properties n' \<noteq> None
      \<and> get_property n' = get_property n ++ map_of (rev ps)
      \<and> n_Version n' = n_Version n + word_of_nat (length ps) \<and> n_ID n' = n_ID n
      \<and> (props_ok (n_Properties n) \<longrightarrow> props_ok (n_Properties n'))"
proof (induction ps arbitrary: n)
  case Nil
  then show ?case by simp
next
  case (Cons p ps)
  obtain k v where p: "p = (k, v)" by force
  from Cons.prems obtain n1 where n1: "set_property now k v n = Inr n1" "n_Properties n1 \<noteq> None"
    by (auto simp: set_property_def map_write_def)
  from Cons.IH [OF n1(2)] obtain n' where IH: "set_properties now ps n1 = Inr n'"
    "n_Properties n' \<noteq> None" "get_property n' = get_property n1 ++ map_of (rev ps)"
    "n_Version n' = n_Version n1 + word_of_nat (length ps)" "n_ID n' = n_ID n1"
    "props_ok (n_Properties n1) \<longrightarrow> props_ok (n_Properties n')"
    by blast
  note one = set_property_Inr [OF n1(1)]
  have "get_property n' = get_property n ++ map_of (rev (p # ps))"
    by (simp add: IH(3) one(1) p)
  with p n1 IH one show ?case by auto
qed

lemma path_length_add_hop [simp]:
  "path_length (add_hop n e p) = path_length p + (if e = None then 0 else 1)"
  by (auto simp: path_length_def add_hop_def Let_def split: option.splits)

lemma direction_string_no_colon:
  "d \<in> {DirectionOut, DirectionIn, DirectionBoth} \<Longrightarrow> 58 \<notin> set (direction_string d)"
  by (auto simp: lit_def)

lemma direction_string_inject:
  assumes "d \<in> {DirectionOut, DirectionIn, DirectionBoth}"
    and "d' \<in> {DirectionOut, DirectionIn, DirectionBoth}"
  shows "direction_string d = direction_string d' \<longleftrightarrow> d = d'"
  using assms by (auto simp: lit_def)

end
