(* ===== verification/Codec.thy ===== *)
theory Codec
  imports Prelude
begin

text \<open>
  The interfaces between the data formats and their users.  \<open>stream_codec\<close> is a
  self-delimiting encoding: a decoder that, given an encoded item and anything after it,
  returns the item and exactly what follows.  The length-prefixed strings, the entries of a
  data block, of the index block and of the write-ahead log are instances; what their
  readers do on a whole sequence is proved here once.  \<open>record_codec\<close> is an encoding of
  whole values (nodes and edges) which the tables and the lanes store.
\<close>

text \<open>\<open>for i := 0; i < n; i++ { item, err := dec(buf) ... }\<close>\<close>

fun dec_times :: "nat \<Rightarrow> (bytes \<Rightarrow> ('b \<times> bytes) res) \<Rightarrow> bytes \<Rightarrow> ('b list \<times> bytes) res" where
  "dec_times 0 dec buf = Inr ([], buf)"
| "dec_times (Suc n) dec buf =
     bindE (dec buf) (\<lambda>(x, buf). bindE (dec_times n dec buf) (\<lambda>(xs, buf). Inr (x # xs, buf)))"

text \<open>
  \<open>tail_ok\<close> says what may follow an item: nothing is asked of it in most formats, but a
  string read with \<open>bytes.Reader.Read\<close> must not be the last thing in the data when it is
  empty, since a read at the end of the data is an error.
\<close>

locale stream_codec =
  fixes enc :: "'a \<Rightarrow> bytes"
    and dec :: "bytes \<Rightarrow> ('b \<times> bytes) res"
    and view :: "'a \<Rightarrow> 'b"
    and good :: "'a \<Rightarrow> bool"
    and tail_ok :: "bytes \<Rightarrow> bool"
  assumes dec_enc: "good x \<Longrightarrow> tail_ok rest \<Longrightarrow> dec (enc x @ rest) = Inr (view x, rest)"
    and tail_enc: "tail_ok rest \<Longrightarrow> tail_ok (enc x @ rest)"
begin

lemma tail_concat: "tail_ok rest \<Longrightarrow> tail_ok (concat (map enc xs) @ rest)"
  by (induction xs) (auto intro: tail_enc)

lemma dec_times_enc:
  "list_all good xs \<Longrightarrow> tail_ok rest \<Longrightarrow>
   dec_times (length xs) dec (concat (map enc xs) @ rest) = Inr (map view xs, rest)"
  by (induction xs) (auto simp: dec_enc tail_concat)

lemma unique_parse:
  assumes "good x" and "good y" and "tail_ok rest" and "tail_ok rest'"
    and "enc x @ rest = enc y @ rest'"
  shows "view x = view y \<and> rest = rest'"
  using dec_enc [OF assms(1,3)] dec_enc [OF assms(2,4)] assms(5) by simp

lemma unique_parse_list:
  assumes "list_all good xs" and "list_all good ys" and "length xs = length ys"
    and "tail_ok rest" and "tail_ok rest'"
    and "concat (map enc xs) @ rest = concat (map enc ys) @ rest'"
  shows "map view xs = map view ys \<and> rest = rest'"
  using dec_times_enc [OF assms(1,4)] dec_times_enc [OF assms(2,5)] assms(3,6) by simp

lemma prefix_free:
  assumes "good x" and "good y" and "tail_ok rest" and "tail_ok []" and "enc y = enc x @ rest"
  shows "rest = []"
  using unique_parse [OF assms(1,2,3,4)] assms(5) by simp

end

section \<open>Truncated input\<close>

text \<open>
  \<open>starves p e\<close>: on \<open>e\<close> or any prefix of it, the reader \<open>p\<close> fails or uses the data up.
  \<open>strict q e\<close>: the whole-input reader \<open>q\<close> fails on every proper prefix of \<open>e\<close>.  A
  sequence of reads is strict when its last read is: the readers before it either fail on a
  truncated input or leave nothing for it.
\<close>

definition starves :: "(bytes \<Rightarrow> ('b \<times> bytes) res) \<Rightarrow> bytes \<Rightarrow> bool" where
  "starves p e \<longleftrightarrow> (\<forall>k\<le>length e. \<forall>x r. p (take k e) = Inr (x, r) \<longrightarrow> r = [])"

definition strict :: "(bytes \<Rightarrow> 'b res) \<Rightarrow> bytes \<Rightarrow> bool" where
  "strict q e \<longleftrightarrow> (\<forall>k<length e. \<not> succeeds (q (take k e)))"

named_theorems starving \<open>readers that use up a truncated input\<close>

lemma starves_Nil: "starves p e \<Longrightarrow> p [] = Inr (x, r) \<Longrightarrow> r = []"
  unfolding starves_def by (metis le0 take0)

lemma read_full_starves [starving]: "length e = n \<Longrightarrow> starves (read_full n) e"
  by (auto simp: starves_def read_full_def)

lemma buf_read_starves [starving]: "length e \<le> n \<Longrightarrow> starves (buf_read n) e"
  by (auto simp: starves_def buf_read_def split: if_splits)

lemma read_byte_starves [starving]: "starves read_byte [b]"
  by (auto simp: starves_def read_byte_def le_Suc_eq split: list.splits)

lemma starves_return: "starves (\<lambda>buf. Inr (x, buf)) []"
  by (simp add: starves_def)

lemma starves_bind:
  assumes p: "\<And>rest. rest \<noteq> [] \<Longrightarrow> p (e @ rest) = Inr (x, rest)"
    and sp: "starves p e" and sq: "starves (q x) e'" and nil: "\<And>y. starves (q y) []"
  shows "starves (\<lambda>buf. bindE (p buf) (\<lambda>(x, buf). q x buf)) (e @ e')"
  unfolding starves_def
proof (intro allI impI)
  fix k y r
  assume "k \<le> length (e @ e')"
    and run: "bindE (p (take k (e @ e'))) (\<lambda>(x, buf). q x buf) = Inr (y, r)"
  from run obtain z b where pz: "p (take k (e @ e')) = Inr (z, b)" and qz: "q z b = Inr (y, r)"
    by (auto simp: bindE_iff)
  show "r = []"
  proof (cases "k \<le> length e")
    case True
    with pz sp have "b = []" unfolding starves_def by (auto simp del: take_append simp add: take_append_le)
    with qz nil [of z] show ?thesis by (auto dest: starves_Nil)
  next
    case False
    let ?t = "take (k - length e) e'"
    show ?thesis
    proof (cases "?t = []")
      case True
      with False \<open>k \<le> _\<close> have "e' = []" by auto
      with False \<open>k \<le> _\<close> show ?thesis by simp
    next
      case nonempty: False
      with False pz p [of ?t] have "z = x" "b = ?t" by auto
      with qz have "q x (take (k - length e) e') = Inr (y, r)" by simp
      moreover from \<open>k \<le> _\<close> have "k - length e \<le> length e'" by simp
      ultimately show ?thesis using sq unfolding starves_def by blast
    qed
  qed
qed

lemma strict_bind:
  assumes p: "\<And>rest. rest \<noteq> [] \<Longrightarrow> p (e @ rest) = Inr (x, rest)"
    and sp: "starves p e" and sq: "strict (q x) e'" and nil: "\<And>y. \<not> succeeds (q y [])"
  shows "strict (\<lambda>buf. bindE (p buf) (\<lambda>(x, buf). q x buf)) (e @ e')"
  unfolding strict_def
proof (intro allI impI)
  fix k assume k: "k < length (e @ e')"
  show "\<not> succeeds (bindE (p (take k (e @ e'))) (\<lambda>(x, buf). q x buf))"
  proof (cases "k \<le> length e")
    case True
    then have "take k (e @ e') = take k e" by simp
    moreover have "b = []" if "p (take k e) = Inr (z, b)" for z b
      using that sp True unfolding starves_def by blast
    ultimately show ?thesis
      using nil by (cases "p (take k e)") (auto split: prod.splits)
  next
    case False
    let ?t = "take (k - length e) e'"
    from False k have "?t \<noteq> []" by auto
    with False p [of ?t] have "p (take k (e @ e')) = Inr (x, ?t)" by simp
    moreover from sq k False have "\<not> succeeds (q x ?t)" by (auto simp: strict_def)
    ultimately show ?thesis by simp
  qed
qed

lemma strict_wrap: "strict q e \<Longrightarrow> strict (\<lambda>buf. wrapE msg (q buf)) e"
  by (simp add: strict_def succeeds_iff wrapE_Inr_iff)

lemma starves_wrap [starving]: "starves p e \<Longrightarrow> starves (\<lambda>buf. wrapE msg (p buf)) e"
  by (simp add: starves_def wrapE_Inr_iff)

lemma dec_times_starves:
  assumes p: "\<And>x rest. x \<in> set xs \<Longrightarrow> rest \<noteq> [] \<Longrightarrow> dec (enc x @ rest) = Inr (view x, rest)"
    and sp: "\<And>x. x \<in> set xs \<Longrightarrow> starves dec (enc x)" and nil: "starves dec []"
  shows "starves (dec_times (length xs) dec) (concat (map enc xs))"
  using p sp
proof (induction xs)
  case Nil
  then show ?case by (simp add: starves_def)
next
  case (Cons a xs)
  have Nil_loop: "starves (dec_times n dec) []" for n
  proof (induction n)
    case 0
    then show ?case by (simp add: starves_def)
  next
    case (Suc n)
    then show ?case using nil by (fastforce simp: starves_def bindE_iff)
  qed
  have "starves (\<lambda>buf. bindE (dec buf) (\<lambda>(x, buf).
      bindE (dec_times (length xs) dec buf) (\<lambda>(xs, buf). Inr (x # xs, buf))))
      (enc a @ concat (map enc xs))"
  proof (rule starves_bind)
    show "starves (\<lambda>buf. bindE (dec_times (length xs) dec buf) (\<lambda>(xs, buf). Inr (y # xs, buf)))
        []" for y
      using Nil_loop [of "length xs"] by (fastforce simp: starves_def bindE_iff)
    show "starves (\<lambda>buf. bindE (dec_times (length xs) dec buf)
        (\<lambda>(xs, buf). Inr (view a # xs, buf))) (concat (map enc xs))"
      using Cons by (fastforce simp: starves_def bindE_iff)
  qed (use Cons.prems in auto)
  then show ?case by simp
qed

locale record_codec =
  fixes ser :: "'a \<Rightarrow> bytes res"
    and deser :: "bytes \<Rightarrow> 'a res"
    and wire :: "'a \<Rightarrow> 'a"
    and good :: "'a \<Rightarrow> bool"
  assumes roundtrip: "good x \<Longrightarrow> ser x = Inr bs \<Longrightarrow> deser bs = Inr (wire x)"
    and ser_nonempty: "ser x = Inr bs \<Longrightarrow> bs \<noteq> []"
    and wire_wire: "wire (wire x) = wire x"
    and wire_good: "good x \<Longrightarrow> good (wire x)"
begin

text \<open>Storing what was read changes nothing more: the stored form is a fixed point.\<close>

lemma roundtrip_stable:
  assumes "good x" and "ser x = Inr bs" and "deser bs = Inr y" and "ser y = Inr bs'"
  shows "deser bs' = Inr y"
proof -
  from roundtrip [OF assms(1,2)] assms(3) have y: "y = wire x" by simp
  with wire_good [OF assms(1)] have "good y" by simp
  from roundtrip [OF this assms(4)] y show ?thesis by (simp add: wire_wire)
qed

end

end
