(* ===== verification/Serialization.thy ===== *)
theory Serialization
  imports Graph_Types Codec "HOL-Library.Multiset"
begin

text \<open>
  \<open>pkg/graph/serialization.go\<close>: the binary form of nodes and edges.  Writes go to a
  \<open>bytes.Buffer\<close>, which never fails, so the only error of a serialisation is a property of
  an unsupported type.  Reads go through \<open>bytes.Reader\<close>; see \<open>buf_read\<close> for its short
  reads.
\<close>

section \<open>Strings and property values\<close>

definition write_string :: "bytes \<Rightarrow> bytes" where
  "write_string str = be_enc 4 (len32 str) @ str"

definition read_string :: "bytes \<Rightarrow> (bytes \<times> bytes) res" where
  "read_string buf =
     bindE (read_full 4 buf) (\<lambda>(b, buf). buf_read (unat (be_dec b :: u32)) buf)"

fun write_value :: "pval \<Rightarrow> bytes res" where
  "write_value (PString v) = Inr (1 # write_string v)"
| "write_value (PInt v) = Inr (2 # be_enc 8 v)"
| "write_value (PInt64 v) = Inr (2 # be_enc 8 v)"
| "write_value (PFloat64 v) = Inr (3 # be_enc 8 v)"
| "write_value (PBool v) = Inr [4, if v then 1 else 0]"
| "write_value (PBytes v) = Inr (5 # be_enc 4 (len32 v) @ v)"
| "write_value (POther ty) = Inl (Err ''unsupported type'')"

definition read_value :: "bytes \<Rightarrow> (pval \<times> bytes) res" where
  "read_value buf =
     bindE (read_byte buf) (\<lambda>(typeByte, buf).
       if typeByte = 1 then bindE (read_string buf) (\<lambda>(v, buf). Inr (PString v, buf))
       else if typeByte = 2 then bindE (read_full 8 buf) (\<lambda>(b, buf). Inr (PInt64 (be_dec b), buf))
       else if typeByte = 3 then bindE (read_full 8 buf) (\<lambda>(b, buf). Inr (PFloat64 (be_dec b), buf))
       else if typeByte = 4 then bindE (read_byte buf) (\<lambda>(b, buf). Inr (PBool (b = 1), buf))
       else if typeByte = 5 then
         bindE (read_full 4 buf) (\<lambda>(b, buf).
           bindE (buf_read (unat (be_dec b :: u32)) buf) (\<lambda>(v, buf). Inr (PBytes v, buf)))
       else Inl (Err ''unknown type byte''))"

fun write_props :: "props \<Rightarrow> bytes res" where
  "write_props [] = Inr []"
| "write_props ((key, value) # ps) =
     bindE (wrapE ''failed to write property'' (write_value value)) (\<lambda>vb.
       bindE (write_props ps) (\<lambda>rest. Inr (write_string key @ vb @ rest)))"

text \<open>\<open>for i := 0; i < propCount; i++\<close>, assigning into the new map.\<close>

fun read_props :: "nat \<Rightarrow> props \<Rightarrow> bytes \<Rightarrow> (props \<times> bytes) res" where
  "read_props 0 acc buf = Inr (acc, buf)"
| "read_props (Suc n) acc buf =
     bindE (read_string buf) (\<lambda>(key, buf).
       bindE (wrapE ''failed to read property'' (read_value buf)) (\<lambda>(value, buf).
         read_props n (AList.update key value acc) buf))"

section \<open>Nodes\<close>

definition serialize_node :: "node \<Rightarrow> bytes res" where
  "serialize_node n =
     bindE (write_props (props_of (n_Properties n))) (\<lambda>pb.
       Inr (write_string (n_ID n)
          @ be_enc 4 (len32 (n_Labels n)) @ concat (map write_string (n_Labels n))
          @ be_enc 4 (len32 (props_of (n_Properties n))) @ pb
          @ be_enc 8 (n_Version n)
          @ be_enc 8 (unix_sec (n_CreatedAt n)) @ be_enc 8 (unix_sec (n_UpdatedAt n))))"

text \<open>The fields both formats end with: version and the two timestamps.\<close>

definition time_unix :: "u64 \<Rightarrow> gotime" where
  \<comment> \<open>\<open>time.Unix(sec, 0)\<close>\<close>
  "time_unix s = \<lparr>unix_sec = s, nanos = 0\<rparr>"

definition read_tail :: "bytes \<Rightarrow> (u64 \<times> gotime \<times> gotime) res" where
  "read_tail buf =
     bindE (read_full 8 buf) (\<lambda>(v, buf).
       bindE (read_full 8 buf) (\<lambda>(c, buf).
         bindE (read_full 8 buf) (\<lambda>(u, buf).
           Inr (be_dec v, time_unix (be_dec c), time_unix (be_dec u)))))"

definition read_count :: "bytes \<Rightarrow> (nat \<times> bytes) res" where
  \<comment> \<open>\<open>var count uint32; binary.Read(buf, binary.BigEndian, &count)\<close>\<close>
  "read_count buf = bindE (read_full 4 buf) (\<lambda>(b, buf). Inr (unat (be_dec b :: u32), buf))"

definition deserialize_node :: "bytes \<Rightarrow> node res" where
  "deserialize_node data =
     bindE (wrapE ''failed to read ID'' (read_string data)) (\<lambda>(nid, buf).
       bindE (read_count buf) (\<lambda>(labelCount, buf).
         bindE (dec_times labelCount read_string buf) (\<lambda>(labels, buf).
           bindE (read_count buf) (\<lambda>(propCount, buf).
             bindE (read_props propCount [] buf) (\<lambda>(ps, buf).
               bindE (read_tail buf) (\<lambda>(version, createdAt, updatedAt).
                 Inr \<lparr>n_ID = nid, n_Labels = labels, n_Properties = Some ps,
                      n_Version = version, n_CreatedAt = createdAt, n_UpdatedAt = updatedAt\<rparr>))))))"

section \<open>Edges\<close>

definition serialize_edge :: "edge \<Rightarrow> bytes res" where
  "serialize_edge e =
     bindE (write_props (props_of (e_Properties e))) (\<lambda>pb.
       Inr (write_string (e_ID e)
          @ write_string (e_FromNodeID e) @ write_string (e_ToNodeID e) @ write_string (e_Type e)
          @ be_enc 4 (len32 (props_of (e_Properties e))) @ pb
          @ be_enc 8 (e_Version e)
          @ be_enc 8 (unix_sec (e_CreatedAt e)) @ be_enc 8 (unix_sec (e_UpdatedAt e))))"

definition deserialize_edge :: "bytes \<Rightarrow> edge res" where
  "deserialize_edge data =
     bindE (read_string data) (\<lambda>(eid, buf).
       bindE (read_string buf) (\<lambda>(from_id, buf).
         bindE (read_string buf) (\<lambda>(to_id, buf).
           bindE (read_string buf) (\<lambda>(etype, buf).
             bindE (read_count buf) (\<lambda>(propCount, buf).
               bindE (read_props propCount [] buf) (\<lambda>(ps, buf).
                 bindE (read_tail buf) (\<lambda>(version, createdAt, updatedAt).
                   Inr \<lparr>e_ID = eid, e_FromNodeID = from_id, e_ToNodeID = to_id,
                        e_Type = etype, e_Properties = Some ps, e_Version = version,
                        e_CreatedAt = createdAt, e_UpdatedAt = updatedAt\<rparr>)))))))"

section \<open>What survives the wire\<close>

text \<open>
  An \<open>int\<close> comes back as an \<open>int64\<close>, a time loses its nanoseconds, a nil map comes back
  empty; everything else is unchanged.
\<close>

fun wire_value :: "pval \<Rightarrow> pval" where
  "wire_value (PInt v) = PInt64 v"
| "wire_value v = v"

definition wire_props :: "props option \<Rightarrow> props option" where
  "wire_props m = Some (map (\<lambda>(k, v). (k, wire_value v)) (props_of m))"

definition wire_time :: "gotime \<Rightarrow> gotime" where
  "wire_time t = time_unix (unix_sec t)"

definition wire_node :: "node \<Rightarrow> node" where
  "wire_node n = n\<lparr>n_Properties := wire_props (n_Properties n),
     n_CreatedAt := wire_time (n_CreatedAt n), n_UpdatedAt := wire_time (n_UpdatedAt n)\<rparr>"

definition wire_edge :: "edge \<Rightarrow> edge" where
  "wire_edge e = e\<lparr>e_Properties := wire_props (e_Properties e),
     e_CreatedAt := wire_time (e_CreatedAt e), e_UpdatedAt := wire_time (e_UpdatedAt e)\<rparr>"

text \<open>
  The lengths the format can express (\<open>str_ok\<close>): every string, label list and map shorter
  than \<open>2 ^ 32\<close>, and a map with distinct keys.
\<close>

fun value_ok :: "pval \<Rightarrow> bool" where
  "value_ok (PString v) = str_ok v"
| "value_ok (PBytes v) = str_ok v"
| "value_ok _ = True"

definition wire_props_ok :: "props option \<Rightarrow> bool" where
  "wire_props_ok m \<longleftrightarrow> props_ok m \<and> str_ok (props_of m)
     \<and> list_all (\<lambda>(k, v). str_ok k \<and> value_ok v) (props_of m)"

definition node_ok :: "node \<Rightarrow> bool" where
  "node_ok n \<longleftrightarrow> str_ok (n_ID n) \<and> str_ok (n_Labels n) \<and> list_all str_ok (n_Labels n)
     \<and> wire_props_ok (n_Properties n)"

definition edge_ok :: "edge \<Rightarrow> bool" where
  "edge_ok e \<longleftrightarrow> str_ok (e_ID e) \<and> str_ok (e_FromNodeID e) \<and> str_ok (e_ToNodeID e)
     \<and> str_ok (e_Type e) \<and> wire_props_ok (e_Properties e)"

section \<open>Round trips\<close>

named_theorems wire_simps \<open>reading back what was just written\<close>

lemma write_string_nonempty [simp]: "write_string s \<noteq> []"
  by (auto simp: write_string_def dest: arg_cong [where f = length])

lemma length_write_string [simp]: "length (write_string s) = 4 + length s"
  by (simp add: write_string_def)

lemma read_string_write [wire_simps]:
  "str_ok s \<Longrightarrow> rest \<noteq> [] \<Longrightarrow> read_string (write_string s @ rest) = Inr (s, rest)"
  by (simp add: read_string_def write_string_def str_ok_def buf_read_append)

interpretation str_codec: stream_codec write_string read_string "\<lambda>s. s" str_ok "\<lambda>r. r \<noteq> []"
  by unfold_locales (auto simp: read_string_write)

lemma read_count_write [wire_simps]:
  "str_ok xs \<Longrightarrow> read_count (be_enc 4 (len32 xs) @ rest) = Inr (length xs, rest)"
  by (simp add: read_count_def str_ok_def)

lemma write_value_nonempty: "write_value v = Inr bs \<Longrightarrow> bs \<noteq> []"
  by (cases v) auto

lemma read_value_write [wire_simps]:
  assumes "write_value v = Inr bs" and "value_ok v" and "rest \<noteq> []"
  shows "read_value (bs @ rest) = Inr (wire_value v, rest)"
proof -
  have read: "buf_read (length s) (s @ rest) = Inr (s, rest)" for s
    using assms(3) by (simp add: buf_read_append)
  from assms read show ?thesis
    by (cases v) (auto simp: read_value_def wire_simps str_ok_def)
qed

text \<open>A decoder of a map entry, to see the property loop as an instance of the codec.\<close>

lemma read_props_write [wire_simps]:
  "write_props ps = Inr bs \<Longrightarrow> list_all (\<lambda>(k, v). str_ok k \<and> value_ok v) ps \<Longrightarrow>
   distinct (map fst (acc @ ps)) \<Longrightarrow> rest \<noteq> [] \<Longrightarrow>
   read_props (length ps) acc (bs @ rest) = Inr (acc @ map (\<lambda>(k, v). (k, wire_value v)) ps, rest)"
proof (induction ps arbitrary: acc bs)
  case Nil
  then show ?case by simp
next
  case (Cons p ps)
  obtain k v where p: "p = (k, v)" by force
  from Cons.prems(1) p obtain vb pb where vb: "write_value v = Inr vb"
    and pb: "write_props ps = Inr pb" and bs: "bs = write_string k @ vb @ pb"
    by (auto simp: bindE_iff)
  from Cons.prems(3) p have upd: "AList.update k (wire_value v) acc = acc @ [(k, wire_value v)]"
    by (induction acc) auto
  from Cons.prems(3) p have "distinct (map fst ((acc @ [(k, wire_value v)]) @ ps))" by simp
  from Cons.IH [OF pb _ this Cons.prems(4)] Cons.prems p vb upd show ?case
    by (simp add: bs wire_simps write_value_nonempty)
qed

lemma read_tail_write [wire_simps]:
  "read_tail (be_enc 8 v @ be_enc 8 c @ be_enc 8 u) = Inr (v, time_unix c, time_unix u)"
  using read_full_append [of "be_enc 8 u" 8 "[]"] by (simp add: read_tail_def)

lemma wire_value_idem [simp]: "wire_value (wire_value v) = wire_value v"
  by (cases v) auto

lemma wire_value_ok: "value_ok v \<Longrightarrow> value_ok (wire_value v)"
  by (cases v) auto

lemma wire_props_idem [simp]: "wire_props (wire_props m) = wire_props m"
  by (auto simp: wire_props_def)

lemma wire_time_idem [simp]: "wire_time (wire_time t) = wire_time t"
  by (simp add: wire_time_def time_unix_def)

lemma wire_node_idem: "wire_node (wire_node n) = wire_node n"
  by (simp add: wire_node_def)

lemma wire_edge_idem: "wire_edge (wire_edge e) = wire_edge e"
  by (simp add: wire_edge_def)

lemma wire_props_keys: "map fst (props_of (wire_props m)) = map fst (props_of m)"
  by (simp add: wire_props_def comp_def split_beta)

lemma wire_props_ok_wire: "wire_props_ok m \<Longrightarrow> wire_props_ok (wire_props m)"
  unfolding wire_props_ok_def props_ok_def wire_props_keys
  by (auto simp: wire_props_def list_all_iff str_ok_def wire_value_ok)

lemma wire_node_ok: "node_ok n \<Longrightarrow> node_ok (wire_node n)"
  by (simp add: node_ok_def wire_node_def wire_props_ok_wire)

lemma wire_edge_ok: "edge_ok e \<Longrightarrow> edge_ok (wire_edge e)"
  by (simp add: edge_ok_def wire_edge_def wire_props_ok_wire)

lemma props_block_write [wire_simps]:
  assumes "write_props (props_of m) = Inr pb" and "wire_props_ok m" and "rest \<noteq> []"
  shows "bindE (read_count (be_enc 4 (len32 (props_of m)) @ pb @ rest)) (\<lambda>(propCount, buf).
           bindE (read_props propCount [] buf) f) = f (the (wire_props m), rest)"
  using assms by (simp add: wire_props_ok_def props_ok_def wire_simps wire_props_def)

lemma be_enc_nonempty [simp]: "0 < n \<Longrightarrow> be_enc n w \<noteq> []"
  by (auto dest: arg_cong [where f = length])

lemma deserialize_serialize_node:
  assumes ser: "serialize_node n = Inr bs" and ok: "node_ok n"
  shows "deserialize_node bs = Inr (wire_node n)"
proof -
  let ?tail = "be_enc 8 (n_Version n) @ be_enc 8 (unix_sec (n_CreatedAt n))
    @ be_enc 8 (unix_sec (n_UpdatedAt n))"
  from ser obtain pb where pb: "write_props (props_of (n_Properties n)) = Inr pb"
    and bs: "bs = write_string (n_ID n) @ be_enc 4 (len32 (n_Labels n))
      @ concat (map write_string (n_Labels n))
      @ be_enc 4 (len32 (props_of (n_Properties n))) @ pb @ ?tail"
    by (auto simp: serialize_node_def bindE_iff)
  have labels: "dec_times (length (n_Labels n)) read_string
      (concat (map write_string (n_Labels n)) @ r) = Inr (n_Labels n, r)" if "r \<noteq> []" for r
    using str_codec.dec_times_enc [of "n_Labels n" r] ok that by (simp add: node_ok_def)
  from ok pb show ?thesis
    unfolding bs deserialize_node_def
    by (simp add: node_ok_def wire_simps labels wire_node_def wire_time_def)
       (simp add: wire_props_def)
qed

lemma deserialize_serialize_edge:
  assumes ser: "serialize_edge e = Inr bs" and ok: "edge_ok e"
  shows "deserialize_edge bs = Inr (wire_edge e)"
proof -
  let ?tail = "be_enc 8 (e_Version e) @ be_enc 8 (unix_sec (e_CreatedAt e))
    @ be_enc 8 (unix_sec (e_UpdatedAt e))"
  from ser obtain pb where pb: "write_props (props_of (e_Properties e)) = Inr pb"
    and bs: "bs = write_string (e_ID e) @ write_string (e_FromNodeID e)
      @ write_string (e_ToNodeID e) @ write_string (e_Type e)
      @ be_enc 4 (len32 (props_of (e_Properties e))) @ pb @ ?tail"
    by (auto simp: serialize_edge_def bindE_iff)
  from ok pb show ?thesis
    unfolding bs deserialize_edge_def
    by (simp add: edge_ok_def wire_simps wire_edge_def wire_time_def)
       (simp add: wire_props_def)
qed

lemma serialize_node_nonempty: "serialize_node n = Inr bs \<Longrightarrow> bs \<noteq> []"
  by (auto simp: serialize_node_def bindE_iff)

lemma serialize_edge_nonempty: "serialize_edge e = Inr bs \<Longrightarrow> bs \<noteq> []"
  by (auto simp: serialize_edge_def bindE_iff)

interpretation node_codec: record_codec serialize_node deserialize_node wire_node node_ok
  by unfold_locales
    (auto intro: deserialize_serialize_node wire_node_idem wire_node_ok dest: serialize_node_nonempty)

interpretation edge_codec: record_codec serialize_edge deserialize_edge wire_edge edge_ok
  by unfold_locales
    (auto intro: deserialize_serialize_edge wire_edge_idem wire_edge_ok dest: serialize_edge_nonempty)

text \<open>The stored form is serialized as the original was, when both are visited in one order.\<close>

lemma write_wire_value [simp]: "write_value (wire_value v) = write_value v"
  by (cases v) auto

lemma write_wire_props [simp]: "write_props (map (\<lambda>(k, v). (k, wire_value v)) ps) = write_props ps"
  by (induction ps) auto

lemma props_of_wire [simp]: "props_of (wire_props m) = map (\<lambda>(k, v). (k, wire_value v)) (props_of m)"
  by (simp add: wire_props_def)

lemma len32_map [simp]: "len32 (map f xs) = len32 xs"
  by (simp add: len32_def)

lemma unix_sec_wire [simp]: "unix_sec (wire_time t) = unix_sec t"
  by (simp add: wire_time_def time_unix_def)

lemma serialize_wire_node [simp]: "serialize_node (wire_node n) = serialize_node n"
  by (simp add: serialize_node_def wire_node_def)

lemma serialize_wire_edge [simp]: "serialize_edge (wire_edge e) = serialize_edge e"
  by (simp add: serialize_edge_def wire_edge_def)

section \<open>Failures\<close>

text \<open>A serialisation fails exactly when a property value has a type the format lacks.\<close>

lemma write_value_fails: "write_value v = Inl e \<longleftrightarrow> e = Err ''unsupported type'' \<and> (\<exists>ty. v = POther ty)"
  by (cases v) auto

lemma write_props_fails:
  "write_props ps = Inl e \<longleftrightarrow>
   e = Wrap ''failed to write property'' (Err ''unsupported type'') \<and> (\<exists>k ty. (k, POther ty) \<in> set ps)"
proof (induction ps)
  case Nil
  then show ?case by simp
next
  case (Cons p ps)
  obtain k v where p: "p = (k, v)" by force
  show ?case
  proof (cases "write_value v")
    case (Inl e')
    with p show ?thesis
      by (auto simp: wrapE_def write_value_fails)
  next
    case (Inr vb)
    then have "\<nexists>ty. v = POther ty" by auto
    with Inr p Cons show ?thesis by (auto simp: bindE_iff)
  qed
qed

lemma serialize_node_fails:
  "serialize_node n = Inl e \<longleftrightarrow>
   e = Wrap ''failed to write property'' (Err ''unsupported type'')
   \<and> (\<exists>k ty. (k, POther ty) \<in> set (props_of (n_Properties n)))"
  by (simp add: serialize_node_def bindE_iff write_props_fails)

lemma serialize_edge_fails:
  "serialize_edge e = Inl er \<longleftrightarrow>
   er = Wrap ''failed to write property'' (Err ''unsupported type'')
   \<and> (\<exists>k ty. (k, POther ty) \<in> set (props_of (e_Properties e)))"
  by (simp add: serialize_edge_def bindE_iff write_props_fails)

section \<open>Truncated input\<close>

lemma read_string_Nil [simp]: "read_string [] = Inl EOF"
  by (simp add: read_string_def read_full_def)

lemma read_count_Nil [simp]: "read_count [] = Inl EOF"
  by (simp add: read_count_def read_full_def)

lemma read_value_Nil [simp]: "read_value [] = Inl EOF"
  by (simp add: read_value_def)

lemma read_tail_Nil [simp]: "read_tail [] = Inl EOF"
  by (simp add: read_tail_def read_full_def)

lemma starves_Nil_iff: "starves p [] \<longleftrightarrow> (\<forall>x r. p [] = Inr (x, r) \<longrightarrow> r = [])"
  by (simp add: starves_def)

lemma starves_map:
  "starves p e \<Longrightarrow> starves (\<lambda>buf. bindE (p buf) (\<lambda>(x, buf). Inr (f x, buf))) e"
  by (fastforce simp: starves_def bindE_iff)

lemma starves_Cons_byte:
  assumes "starves (q b) e" and "\<And>y. starves (q y) []"
  shows "starves (\<lambda>buf. bindE (read_byte buf) (\<lambda>(x, buf). q x buf)) (b # e)"
  using starves_bind [of read_byte "[b]" b q e] assms by (simp add: starving)

lemma read_string_starves [starving]: "str_ok s \<Longrightarrow> starves read_string (write_string s)"
  unfolding write_string_def read_string_def [abs_def]
  by (rule starves_bind) (auto simp: starving str_ok_def starves_Nil_iff)

lemma read_bytes_starves:
  "str_ok s \<Longrightarrow> starves (\<lambda>buf. bindE (read_full 4 buf) (\<lambda>(b, buf).
     bindE (buf_read (unat (be_dec b :: u32)) buf) (\<lambda>(v, buf). Inr (PBytes v, buf))))
     (be_enc 4 (len32 s) @ s)"
  by (rule starves_bind) (auto simp: starving str_ok_def starves_Nil_iff intro!: starves_map)

lemma read_count_starves [starving]: "starves read_count (be_enc 4 w)"
  unfolding read_count_def [abs_def] by (rule starves_map) (simp add: starving)

lemma read_value_starves [starving]:
  assumes "write_value v = Inr bs" and "value_ok v"
  shows "starves read_value bs"
proof -
  have "\<exists>b e. bs = b # e \<and> starves (\<lambda>buf. bindE (read_byte buf) (\<lambda>(x, buf). 
       if x = 1 then bindE (read_string buf) (\<lambda>(v, buf). Inr (PString v, buf))
       else if x = 2 then bindE (read_full 8 buf) (\<lambda>(b, buf). Inr (PInt64 (be_dec b), buf))
       else if x = 3 then bindE (read_full 8 buf) (\<lambda>(b, buf). Inr (PFloat64 (be_dec b), buf))
       else if x = 4 then bindE (read_byte buf) (\<lambda>(b, buf). Inr (PBool (b = 1), buf))
       else if x = 5 then
         bindE (read_full 4 buf) (\<lambda>(b, buf).
           bindE (buf_read (unat (be_dec b :: u32)) buf) (\<lambda>(v, buf). Inr (PBytes v, buf)))
       else Inl (Err ''unknown type byte''))) (b # e)"
    using assms
    by (cases v)
      (auto intro!: exI starves_Cons_byte starves_map read_bytes_starves
         simp: starving starves_Nil_iff read_full_Nil)
  then show ?thesis unfolding read_value_def [abs_def] by auto
qed

lemma read_props_starves_Nil: "starves (read_props n acc) []"
  by (cases n) (auto simp: starves_Nil_iff)

lemma read_props_starves [starving]:
  "write_props ps = Inr bs \<Longrightarrow> list_all (\<lambda>(k, v). str_ok k \<and> value_ok v) ps \<Longrightarrow>
   starves (read_props (length ps) acc) bs"
proof (induction ps arbitrary: acc bs)
  case Nil
  then show ?case by (simp add: starves_Nil_iff)
next
  case (Cons p ps)
  obtain k v where p: "p = (k, v)" by force
  from Cons.prems(1) p obtain vb pb where vb: "write_value v = Inr vb"
    and pb: "write_props ps = Inr pb" and bs: "bs = write_string k @ vb @ pb"
    by (auto simp: bindE_iff)
  from Cons.prems(2) p have ok: "str_ok k" "value_ok v"
    "list_all (\<lambda>(k, v). str_ok k \<and> value_ok v) ps" by auto
  have inner: "starves (\<lambda>buf. bindE (wrapE ''failed to read property'' (read_value buf))
      (\<lambda>(value, buf). read_props (length ps) (AList.update k value acc) buf)) (vb @ pb)"
    by (rule starves_bind [where x = "wire_value v"])
      (use vb ok Cons.IH [OF pb ok(3)] in \<open>auto simp: wire_simps starving read_props_starves_Nil\<close>)
  have "starves (\<lambda>buf. bindE (read_string buf) (\<lambda>(key, buf).
      bindE (wrapE ''failed to read property'' (read_value buf)) (\<lambda>(value, buf).
        read_props (length ps) (AList.update key value acc) buf))) (write_string k @ vb @ pb)"
    by (rule starves_bind [where x = k])
      (use ok inner in \<open>auto simp: wire_simps starving starves_Nil_iff wrapE_def\<close>)
  then show ?case by (simp add: p bs)
qed

lemma read_tail_strict:
  "strict (\<lambda>buf. bindE (read_tail buf) f) (be_enc 8 v @ be_enc 8 c @ be_enc 8 u)"
  by (auto simp: strict_def read_tail_def read_full_def)

lemma read_tail_fails_Nil: "\<not> succeeds (bindE (read_tail []) f)"
  by simp

text \<open>The part both formats share: the property map and the fields after it.\<close>

lemma props_tail_strict:
  assumes pb: "write_props (props_of m) = Inr pb" and ok: "wire_props_ok m"
  shows "strict (\<lambda>buf. bindE (read_count buf) (\<lambda>(propCount, buf).
      bindE (read_props propCount [] buf) (\<lambda>(ps, buf).
        bindE (read_tail buf) (g ps))))
     (be_enc 4 (len32 (props_of m)) @ pb @ be_enc 8 v @ be_enc 8 c @ be_enc 8 u)"
proof (rule strict_bind [where x = "length (props_of m)"])
  show "read_count (be_enc 4 (len32 (props_of m)) @ rest) = Inr (length (props_of m), rest)" for rest
    using ok by (simp add: wire_props_ok_def wire_simps)
  show "strict (\<lambda>buf. bindE (read_props (length (props_of m)) [] buf) (\<lambda>(ps, buf).
      bindE (read_tail buf) (g ps))) (pb @ be_enc 8 v @ be_enc 8 c @ be_enc 8 u)"
    by (rule strict_bind [where x = "the (wire_props m)"])
      (use pb ok in \<open>auto simp: wire_props_ok_def props_ok_def wire_simps wire_props_def starving
        read_tail_strict\<close>)
  show "\<not> succeeds (bindE (read_props y [] []) (\<lambda>(ps, buf). bindE (read_tail buf) (g ps)))" for y
    by (cases y) simp_all
qed (simp add: starving)

lemma deserialize_node_strict:
  assumes ser: "serialize_node n = Inr bs" and ok: "node_ok n"
  shows "strict deserialize_node bs"
proof -
  from ser obtain pb where pb: "write_props (props_of (n_Properties n)) = Inr pb"
    and bs: "bs = write_string (n_ID n) @ be_enc 4 (len32 (n_Labels n))
      @ concat (map write_string (n_Labels n))
      @ be_enc 4 (len32 (props_of (n_Properties n))) @ pb @ be_enc 8 (n_Version n)
      @ be_enc 8 (unix_sec (n_CreatedAt n)) @ be_enc 8 (unix_sec (n_UpdatedAt n))"
    by (auto simp: serialize_node_def bindE_iff)
  let ?n = "length (n_Labels n)"
  have ok': "str_ok (n_ID n)" "str_ok (n_Labels n)" "list_all str_ok (n_Labels n)"
    "wire_props_ok (n_Properties n)" using ok by (simp_all add: node_ok_def)
  have labels: "starves (dec_times ?n read_string) (concat (map write_string (n_Labels n)))"
    by (rule dec_times_starves [where view = "\<lambda>s. s"])
      (use ok'(3) in \<open>auto simp: list_all_iff wire_simps starving starves_Nil_iff\<close>)
  have more: "\<not> succeeds (bindE (dec_times y read_string []) (\<lambda>(labels, buf).
      bindE (read_count buf) (f labels)))" for y and f :: "bytes list \<Rightarrow> nat \<times> bytes \<Rightarrow> node res"
    by (cases y) simp_all
  show ?thesis
    unfolding bs deserialize_node_def [abs_def]
    apply (rule strict_bind [where x = "n_ID n"])
       apply (simp add: wire_simps ok')
      apply (simp add: starving ok')
     apply (rule strict_bind [where x = ?n])
        apply (simp add: wire_simps ok')
       apply (simp add: starving)
      apply (rule strict_bind [where x = "n_Labels n"])
         apply (simp add: str_codec.dec_times_enc ok')
        apply (rule labels)
       apply (rule props_tail_strict [OF pb ok'(4)])
      apply simp
     apply (rule more)
    apply simp
    done
qed

lemma deserialize_edge_strict:
  assumes ser: "serialize_edge e = Inr bs" and ok: "edge_ok e"
  shows "strict deserialize_edge bs"
proof -
  from ser obtain pb where pb: "write_props (props_of (e_Properties e)) = Inr pb"
    and bs: "bs = write_string (e_ID e) @ write_string (e_FromNodeID e)
      @ write_string (e_ToNodeID e) @ write_string (e_Type e)
      @ be_enc 4 (len32 (props_of (e_Properties e))) @ pb @ be_enc 8 (e_Version e)
      @ be_enc 8 (unix_sec (e_CreatedAt e)) @ be_enc 8 (unix_sec (e_UpdatedAt e))"
    by (auto simp: serialize_edge_def bindE_iff)
  have str: "strict (\<lambda>buf. bindE (read_string buf) (\<lambda>(s, buf). q s buf)) (write_string s @ e')"
    if "str_ok s" "strict (q s) e'" "\<And>y. \<not> succeeds (q y [])" for s q and e' :: bytes
    by (rule strict_bind [where x = s]) (use that in \<open>auto simp: wire_simps starving\<close>)
  show ?thesis
    unfolding bs deserialize_edge_def [abs_def]
    using ok by (auto simp: edge_ok_def intro!: str props_tail_strict [OF pb])
qed

section \<open>The order in which a map is visited\<close>

text \<open>
  A \<open>range\<close> over a Go map visits its entries in any order, a new one each time: the same node can
  be encoded to different bytes.  The list of a map stands for one such visit, so two nodes are
  the same value when they differ in the order of that list only.
\<close>

definition same_node :: "node \<Rightarrow> node \<Rightarrow> bool" where
  "same_node n n' \<longleftrightarrow> n' = n\<lparr>n_Properties := n_Properties n'\<rparr>
     \<and> (n_Properties n' = None \<longleftrightarrow> n_Properties n = None)
     \<and> mset (props_of (n_Properties n')) = mset (props_of (n_Properties n))"

definition same_edge :: "edge \<Rightarrow> edge \<Rightarrow> bool" where
  "same_edge e e' \<longleftrightarrow> e' = e\<lparr>e_Properties := e_Properties e'\<rparr>
     \<and> (e_Properties e' = None \<longleftrightarrow> e_Properties e = None)
     \<and> mset (props_of (e_Properties e')) = mset (props_of (e_Properties e))"

lemma serialize_listing [simp]:
  "serialize_node (n\<lparr>n_Properties := Some (props_of (n_Properties n))\<rparr>) = serialize_node n"
  "serialize_edge (e\<lparr>e_Properties := Some (props_of (e_Properties e))\<rparr>) = serialize_edge e"
  by (simp_all add: serialize_node_def serialize_edge_def)

lemma same_map_read:
  assumes "props_ok m" and "mset (props_of m') = mset (props_of m)"
  shows "map_read m' = map_read m"
proof -
  have "distinct (map fst (props_of m')) = distinct (map fst (props_of m))"
    by (rule mset_eq_imp_distinct_iff) (simp add: assms(2))
  with assms(1) map_of_inject_set [of "props_of m'" "props_of m"] mset_eq_setD [OF assms(2)] show ?thesis
    by (simp add: map_read_def [abs_def] props_ok_def)
qed

lemma same_node_reads:
  assumes "same_node (wire_node n) n'" and "props_ok (n_Properties n)"
  shows "map_read (n_Properties n') k = map_option wire_value (map_read (n_Properties n) k)"
proof -
  have "props_ok (n_Properties (wire_node n))"
    using assms(2) by (simp add: wire_node_def props_ok_def wire_props_keys del: props_of_wire)
  from same_map_read [OF this, of "n_Properties n'"] assms(1) show ?thesis
    by (simp add: same_node_def map_read_def [of "wire_props m" for m] map_read_def [of "n_Properties n"]
        wire_node_def map_of_map)
qed

lemma same_edge_reads:
  assumes "same_edge (wire_edge e) e'" and "props_ok (e_Properties e)"
  shows "map_read (e_Properties e') k = map_option wire_value (map_read (e_Properties e) k)"
proof -
  have "props_ok (e_Properties (wire_edge e))"
    using assms(2) by (simp add: wire_edge_def props_ok_def wire_props_keys del: props_of_wire)
  from same_map_read [OF this, of "e_Properties e'"] assms(1) show ?thesis
    by (simp add: same_edge_def map_read_def [of "wire_props m" for m] map_read_def [of "e_Properties e"]
        wire_edge_def map_of_map)
qed

lemma wire_props_ok_perm:
  assumes "wire_props_ok m" and "mset ps = mset (props_of m)"
  shows "wire_props_ok (Some ps)"
proof -
  from assms(2) have "length ps = length (props_of m)" "set ps = set (props_of m)"
    by (auto dest: mset_eq_length mset_eq_setD)
  moreover have "distinct (map fst ps) = distinct (map fst (props_of m))"
    by (rule mset_eq_imp_distinct_iff) (simp add: assms(2))
  ultimately show ?thesis using assms(1) by (simp add: wire_props_ok_def props_ok_def str_ok_def list_all_iff)
qed

text \<open>How many bytes an entry takes does not depend on when it is visited.\<close>

definition entry_length :: "bytes \<times> pval \<Rightarrow> nat" where
  "entry_length kv = (case write_value (snd kv) of Inl _ \<Rightarrow> 0 | Inr vb \<Rightarrow> 4 + length (fst kv) + length vb)"

lemma length_write_props: "write_props ps = Inr pb \<Longrightarrow> length pb = (\<Sum>kv\<leftarrow>ps. entry_length kv)"
proof (induction ps arbitrary: pb)
  case (Cons p ps)
  obtain k v where p: "p = (k, v)" by force
  with Cons.prems obtain vb pb' where "write_value v = Inr vb" "write_props ps = Inr pb'" "pb = write_string k @ vb @ pb'"
    by (auto simp: bindE_iff)
  with Cons.IH p show ?case by (simp add: entry_length_def)
qed simp

lemma write_props_perm:
  assumes "write_props ps = Inr pb" and "mset ps' = mset ps"
  shows "\<exists>pb'. write_props ps' = Inr pb' \<and> length pb' = length pb"
proof (cases "write_props ps'")
  case (Inl e)
  with mset_eq_setD [OF assms(2)] have "\<exists>e. write_props ps = Inl e" by (auto simp: write_props_fails)
  with assms(1) show ?thesis by simp
next
  case (Inr pb')
  have "(\<Sum>kv\<leftarrow>ps'. entry_length kv) = (\<Sum>kv\<leftarrow>ps. entry_length kv)"
    using assms(2) by (metis mset_map sum_mset_sum_list)
  with length_write_props [OF Inr] length_write_props [OF assms(1)] Inr show ?thesis by simp
qed

lemma serialize_node_perm:
  assumes "serialize_node n = Inr bs" and "mset ps = mset (props_of (n_Properties n))"
  shows "\<exists>bs'. serialize_node (n\<lparr>n_Properties := Some ps\<rparr>) = Inr bs' \<and> length bs' = length bs"
proof -
  from assms(1) obtain pb where pb: "write_props (props_of (n_Properties n)) = Inr pb" by (auto simp: serialize_node_def bindE_iff)
  from write_props_perm [OF this assms(2)] obtain pb' where "write_props ps = Inr pb'" "length pb' = length pb" by blast
  with pb assms(1) mset_eq_length [OF assms(2)] show ?thesis by (auto simp: serialize_node_def)
qed

lemma serialize_edge_perm:
  assumes "serialize_edge e = Inr bs" and "mset ps = mset (props_of (e_Properties e))"
  shows "\<exists>bs'. serialize_edge (e\<lparr>e_Properties := Some ps\<rparr>) = Inr bs' \<and> length bs' = length bs"
proof -
  from assms(1) obtain pb where pb: "write_props (props_of (e_Properties e)) = Inr pb" by (auto simp: serialize_edge_def bindE_iff)
  from write_props_perm [OF this assms(2)] obtain pb' where "write_props ps = Inr pb'" "length pb' = length pb" by blast
  with pb assms(1) mset_eq_length [OF assms(2)] show ?thesis by (auto simp: serialize_edge_def)
qed

lemma decodes_same_node:
  assumes ok: "node_ok n" and ps: "mset ps = mset (props_of (n_Properties n))"
    and ser: "serialize_node (n\<lparr>n_Properties := Some ps\<rparr>) = Inr bs"
  shows "\<exists>n'. deserialize_node bs = Inr n' \<and> same_node (wire_node n) n'"
    "k < length bs \<Longrightarrow> \<not> succeeds (deserialize_node (take k bs))"
proof -
  have ok': "node_ok (n\<lparr>n_Properties := Some ps\<rparr>)" using ok wire_props_ok_perm [OF _ ps] by (simp add: node_ok_def)
  have "same_node (wire_node n) (wire_node (n\<lparr>n_Properties := Some ps\<rparr>))"
    using ps by (simp add: same_node_def wire_node_def wire_props_def)
  with deserialize_serialize_node [OF ser ok'] show "\<exists>n'. deserialize_node bs = Inr n' \<and> same_node (wire_node n) n'" by blast
  show "k < length bs \<Longrightarrow> \<not> succeeds (deserialize_node (take k bs))"
    using deserialize_node_strict [OF ser ok'] by (simp add: strict_def)
qed

lemma decodes_same_edge:
  assumes ok: "edge_ok e" and ps: "mset ps = mset (props_of (e_Properties e))"
    and ser: "serialize_edge (e\<lparr>e_Properties := Some ps\<rparr>) = Inr bs"
  shows "\<exists>e'. deserialize_edge bs = Inr e' \<and> same_edge (wire_edge e) e'"
    "k < length bs \<Longrightarrow> \<not> succeeds (deserialize_edge (take k bs))"
proof -
  have ok': "edge_ok (e\<lparr>e_Properties := Some ps\<rparr>)" using ok wire_props_ok_perm [OF _ ps] by (simp add: edge_ok_def)
  have "same_edge (wire_edge e) (wire_edge (e\<lparr>e_Properties := Some ps\<rparr>))"
    using ps by (simp add: same_edge_def wire_edge_def wire_props_def)
  with deserialize_serialize_edge [OF ser ok'] show "\<exists>e'. deserialize_edge bs = Inr e' \<and> same_edge (wire_edge e) e'" by blast
  show "k < length bs \<Longrightarrow> \<not> succeeds (deserialize_edge (take k bs))"
    using deserialize_edge_strict [OF ser ok'] by (simp add: strict_def)
qed

lemma same_node_update: "same_node m n' \<Longrightarrow> n'\<lparr>n_Properties := x\<rparr> = m\<lparr>n_Properties := x\<rparr>"
  by (cases m; cases n') (simp add: same_node_def)

lemma reencodes_node:
  assumes ok: "node_ok n" and ps: "mset ps = mset (props_of (n_Properties n))"
    and ser: "serialize_node (n\<lparr>n_Properties := Some ps\<rparr>) = Inr bs"
    and n': "same_node (wire_node n) n'" and qs: "mset qs = mset (props_of (n_Properties n'))"
  shows "\<exists>bs' n''. serialize_node (n'\<lparr>n_Properties := Some qs\<rparr>) = Inr bs' \<and> length bs' = length bs
    \<and> deserialize_node bs' = Inr n'' \<and> same_node (wire_node n) n''"
proof -
  from n' qs have qs': "mset qs = mset (props_of (n_Properties (wire_node n)))" by (simp add: same_node_def)
  from serialize_node_perm [OF ser, of "props_of (n_Properties n)"] ps obtain bs0 where
    "serialize_node (n\<lparr>n_Properties := Some (props_of (n_Properties n))\<rparr>) = Inr bs0" "length bs0 = length bs" by auto
  then have bs0: "serialize_node (wire_node n) = Inr bs0" "length bs0 = length bs" by simp_all
  from serialize_node_perm [OF bs0(1) qs'] obtain bs' where
    bs': "serialize_node ((wire_node n)\<lparr>n_Properties := Some qs\<rparr>) = Inr bs'" "length bs' = length bs0" by blast
  from decodes_same_node(1) [OF wire_node_ok [OF ok] qs' bs'(1)] bs' bs0(2) show ?thesis
    by (auto simp: same_node_update [OF n'] wire_node_idem)
qed

lemma same_edge_update: "same_edge m e' \<Longrightarrow> e'\<lparr>e_Properties := x\<rparr> = m\<lparr>e_Properties := x\<rparr>"
  by (cases m; cases e') (simp add: same_edge_def)

lemma reencodes_edge:
  assumes ok: "edge_ok e" and ps: "mset ps = mset (props_of (e_Properties e))"
    and ser: "serialize_edge (e\<lparr>e_Properties := Some ps\<rparr>) = Inr bs"
    and e': "same_edge (wire_edge e) e'" and qs: "mset qs = mset (props_of (e_Properties e'))"
  shows "\<exists>bs' e''. serialize_edge (e'\<lparr>e_Properties := Some qs\<rparr>) = Inr bs' \<and> length bs' = length bs
    \<and> deserialize_edge bs' = Inr e'' \<and> same_edge (wire_edge e) e''"
proof -
  from e' qs have qs': "mset qs = mset (props_of (e_Properties (wire_edge e)))" by (simp add: same_edge_def)
  from serialize_edge_perm [OF ser, of "props_of (e_Properties e)"] ps obtain bs0 where
    "serialize_edge (e\<lparr>e_Properties := Some (props_of (e_Properties e))\<rparr>) = Inr bs0" "length bs0 = length bs" by auto
  then have bs0: "serialize_edge (wire_edge e) = Inr bs0" "length bs0 = length bs" by simp_all
  from serialize_edge_perm [OF bs0(1) qs'] obtain bs' where
    bs': "serialize_edge ((wire_edge e)\<lparr>e_Properties := Some qs\<rparr>) = Inr bs'" "length bs' = length bs0" by blast
  from decodes_same_edge(1) [OF wire_edge_ok [OF ok] qs' bs'(1)] bs' bs0(2) show ?thesis
    by (auto simp: same_edge_update [OF e'] wire_edge_idem)
qed

section \<open>Properties\<close>

text \<open>
  C21: The node encoding, for every order \<open>ps\<close> in which the property map is visited.  Serializing
  fails exactly when some property value has a type the format lacks, with that error.
  Otherwise no proper prefix of the bytes decodes, and the whole decodes to the node they came
  from, up to the order of the map and what the format drops (\<open>wire_node\<close>: \<open>int\<close> becomes \<open>int64\<close>,
  times lose their nanoseconds, a nil map becomes an empty one).  Encoding the decoded node
  again, visiting its map in whatever order, gives as many bytes, though not always the same
  ones, and decodes to the same node.
\<close>

theorem node_encoding:
  assumes ok: "node_ok n" and ps: "mset ps = mset (props_of (n_Properties n))"
  shows "case serialize_node (n\<lparr>n_Properties := Some ps\<rparr>) of
      Inl er \<Rightarrow> er = Wrap ''failed to write property'' (Err ''unsupported type'')
        \<and> (\<exists>k ty. (k, POther ty) \<in> set (props_of (n_Properties n)))
    | Inr bs \<Rightarrow> (\<nexists>k ty. (k, POther ty) \<in> set (props_of (n_Properties n)))
        \<and> (\<forall>k<length bs. \<not> succeeds (deserialize_node (take k bs)))
        \<and> (\<exists>n'. deserialize_node bs = Inr n' \<and> same_node (wire_node n) n'
             \<and> (\<forall>k. map_read (n_Properties n') k = map_option wire_value (map_read (n_Properties n) k))
             \<and> (\<forall>qs. mset qs = mset (props_of (n_Properties n')) \<longrightarrow>
                  (\<exists>bs' n''. serialize_node (n'\<lparr>n_Properties := Some qs\<rparr>) = Inr bs' \<and> length bs' = length bs
                     \<and> deserialize_node bs' = Inr n'' \<and> same_node (wire_node n) n'')))"
proof (cases "serialize_node (n\<lparr>n_Properties := Some ps\<rparr>)")
  case (Inl er)
  with serialize_node_fails [of "n\<lparr>n_Properties := Some ps\<rparr>" er] mset_eq_setD [OF ps] show ?thesis by auto
next
  case (Inr bs)
  then have types: "\<nexists>k ty. (k, POther ty) \<in> set (props_of (n_Properties n))"
    using serialize_node_fails [of "n\<lparr>n_Properties := Some ps\<rparr>" "Wrap ''failed to write property'' (Err ''unsupported type'')"]
      mset_eq_setD [OF ps] by simp
  note D = decodes_same_node [OF ok ps Inr]
  obtain n' where n': "deserialize_node bs = Inr n'" "same_node (wire_node n) n'" using D(1) by blast
  from ok have "props_ok (n_Properties n)" by (simp add: node_ok_def wire_props_ok_def)
  with n' D(2) types Inr same_node_reads [OF n'(2)] reencodes_node [OF ok ps Inr n'(2)] show ?thesis
    by simp
qed

theorem node_encoding_witness:
  "\<exists>bs n'. serialize_node \<lparr>n_ID = [1], n_Labels = [[2]], n_Properties = Some [([4], PBool True), ([3], PInt 4)], n_Version = 5,
       n_CreatedAt = time_unix 6, n_UpdatedAt = time_unix 7\<rparr> = Inr bs
     \<and> deserialize_node bs = Inr n' \<and> map_read (n_Properties n') [3] = Some (PInt64 4)
     \<and> (\<forall>k<length bs. \<not> succeeds (deserialize_node (take k bs)))"
proof -
  let ?n = "\<lparr>n_ID = [1], n_Labels = [[2]], n_Properties = Some [([3], PInt 4), ([4], PBool True)], n_Version = 5,
       n_CreatedAt = time_unix 6, n_UpdatedAt = time_unix 7\<rparr>"
  let ?ps = "[([4], PBool True), ([3], PInt 4)] :: props"
  have ok: "node_ok ?n" "mset ?ps = mset (props_of (n_Properties ?n))"
    by (simp_all add: node_ok_def str_ok_def wire_props_ok_def props_ok_def add_mset_commute)
  have "map_read (n_Properties ?n) [3] = Some (PInt 4)" by (simp add: map_read_def)
  with node_encoding [OF ok] show ?thesis
    by (cases "serialize_node (?n\<lparr>n_Properties := Some ?ps\<rparr>)") auto
qed

text \<open>
  C22: The edge encoding, with the same contract: for every order of the property map, failure
  exactly on a value of an unsupported type, decoding to the same edge up to that order and to
  what the format drops, no decoding of a proper prefix, and re-encoding to as many bytes that
  decode to the same edge.
\<close>

theorem edge_encoding:
  assumes ok: "edge_ok e" and ps: "mset ps = mset (props_of (e_Properties e))"
  shows "case serialize_edge (e\<lparr>e_Properties := Some ps\<rparr>) of
      Inl er \<Rightarrow> er = Wrap ''failed to write property'' (Err ''unsupported type'')
        \<and> (\<exists>k ty. (k, POther ty) \<in> set (props_of (e_Properties e)))
    | Inr bs \<Rightarrow> (\<nexists>k ty. (k, POther ty) \<in> set (props_of (e_Properties e)))
        \<and> (\<forall>k<length bs. \<not> succeeds (deserialize_edge (take k bs)))
        \<and> (\<exists>e'. deserialize_edge bs = Inr e' \<and> same_edge (wire_edge e) e'
             \<and> (\<forall>k. map_read (e_Properties e') k = map_option wire_value (map_read (e_Properties e) k))
             \<and> (\<forall>qs. mset qs = mset (props_of (e_Properties e')) \<longrightarrow>
                  (\<exists>bs' e''. serialize_edge (e'\<lparr>e_Properties := Some qs\<rparr>) = Inr bs' \<and> length bs' = length bs
                     \<and> deserialize_edge bs' = Inr e'' \<and> same_edge (wire_edge e) e'')))"
proof (cases "serialize_edge (e\<lparr>e_Properties := Some ps\<rparr>)")
  case (Inl er)
  with serialize_edge_fails [of "e\<lparr>e_Properties := Some ps\<rparr>" er] mset_eq_setD [OF ps] show ?thesis by auto
next
  case (Inr bs)
  then have types: "\<nexists>k ty. (k, POther ty) \<in> set (props_of (e_Properties e))"
    using serialize_edge_fails [of "e\<lparr>e_Properties := Some ps\<rparr>" "Wrap ''failed to write property'' (Err ''unsupported type'')"]
      mset_eq_setD [OF ps] by simp
  note D = decodes_same_edge [OF ok ps Inr]
  obtain e' where e': "deserialize_edge bs = Inr e'" "same_edge (wire_edge e) e'" using D(1) by blast
  from ok have "props_ok (e_Properties e)" by (simp add: edge_ok_def wire_props_ok_def)
  with e' D(2) types Inr same_edge_reads [OF e'(2)] reencodes_edge [OF ok ps Inr e'(2)] show ?thesis
    by simp
qed

theorem edge_encoding_witness:
  "\<exists>bs e'. serialize_edge \<lparr>e_ID = [1], e_FromNodeID = [2], e_ToNodeID = [3], e_Type = [4],
       e_Properties = Some [([6], PInt 7), ([5], PBool True)], e_Version = 5, e_CreatedAt = time_unix 6, e_UpdatedAt = time_unix 7\<rparr> = Inr bs
     \<and> deserialize_edge bs = Inr e' \<and> map_read (e_Properties e') [6] = Some (PInt64 7)
     \<and> (\<forall>k<length bs. \<not> succeeds (deserialize_edge (take k bs)))"
proof -
  let ?e = "\<lparr>e_ID = [1], e_FromNodeID = [2], e_ToNodeID = [3], e_Type = [4],
       e_Properties = Some [([5], PBool True), ([6], PInt 7)], e_Version = 5, e_CreatedAt = time_unix 6, e_UpdatedAt = time_unix 7\<rparr>"
  let ?ps = "[([6], PInt 7), ([5], PBool True)] :: props"
  have ok: "edge_ok ?e" "mset ?ps = mset (props_of (e_Properties ?e))"
    by (simp_all add: edge_ok_def str_ok_def wire_props_ok_def props_ok_def add_mset_commute)
  have "map_read (e_Properties ?e) [6] = Some (PInt 7)" by (simp add: map_read_def)
  with edge_encoding [OF ok] show ?thesis
    by (cases "serialize_edge (?e\<lparr>e_Properties := Some ?ps\<rparr>)") auto
qed

end
