(* ===== verification/Memtable.thy ===== *)
theory Memtable
  imports Serialization
begin

text \<open>
  \<open>pkg/memtable/memtable.go\<close>: the in-memory table and its node, edge and adjacency forms.

  The \<open>sync.Map\<close> of \<open>interface{}\<close> values is a map; a tombstone is the nil interface
  (\<open>SvNil\<close>), which is not the same as an interface that holds a nil \<open>[]byte\<close>.  The atomic
  counters are integers: every quantity is a sum of lengths of data in memory, far below
  the range of \<open>int64\<close>.  A table is used by one operation at a time (a lane is not shared),
  so an operation is a state transformer.
\<close>

section \<open>State and operations\<close>

datatype stored = SvNil | SvBytes slice

record memtable =
  mt_data :: "bytes \<rightharpoonup> stored"
  mt_size :: int
  mt_maxSize :: int
  mt_frozen :: bool
  mt_count :: int

definition mt_new :: "int \<Rightarrow> memtable" where
  "mt_new maxSize =
     \<lparr>mt_data = Map.empty, mt_size = 0, mt_maxSize = maxSize, mt_frozen = False, mt_count = 0\<rparr>"

definition slice_len :: "slice \<Rightarrow> int" where
  "slice_len v = int (length (slice_bytes v))"

definition mt_put :: "bytes \<Rightarrow> slice \<Rightarrow> memtable \<Rightarrow> unit res \<times> memtable" where
  "mt_put key value m =
     (if mt_frozen m then (Inl (Err ''cannot write to frozen memtable''), m)
      else if key = [] then (Inl (Err ''key cannot be empty''), m)
      else
        let entrySize = int (length key) + slice_len value;
            newSize = mt_size m + entrySize
        in if newSize > mt_maxSize m then (Inl (Err ''memtable size limit exceeded''), m)
        else
          let m' = m\<lparr>mt_data := (mt_data m)(key \<mapsto> SvBytes value)\<rparr>
          in case mt_data m key of
               Some (SvBytes oldValue) \<Rightarrow>
                 let oldSize = int (length key) + slice_len oldValue
                 in (Inr (), m'\<lparr>mt_size := mt_size m' + (entrySize - oldSize)\<rparr>)
             | Some SvNil \<Rightarrow>
                 \<comment> \<open>\<open>oldValue.([]byte)\<close> on a nil interface\<close>
                 (Inl (Panic ''interface conversion: interface is nil, not []uint8''), m')
             | None \<Rightarrow>
                 (Inr (), m'\<lparr>mt_size := mt_size m' + entrySize, mt_count := mt_count m' + 1\<rparr>))"

definition mt_get :: "memtable \<Rightarrow> bytes \<Rightarrow> slice \<times> bool" where
  "mt_get m key =
     (case mt_data m key of
        None \<Rightarrow> (None, False)
      | Some SvNil \<Rightarrow> (None, True)
      | Some (SvBytes value) \<Rightarrow> (value, True))"

definition mt_delete :: "bytes \<Rightarrow> memtable \<Rightarrow> unit res \<times> memtable" where
  "mt_delete key m =
     (if mt_frozen m then (Inl (Err ''cannot delete from frozen memtable''), m)
      else
        let m' = m\<lparr>mt_data := (mt_data m)(key \<mapsto> SvNil)\<rparr>
        in case mt_data m key of
             None \<Rightarrow> (Inr (), m'\<lparr>mt_count := mt_count m' + 1, mt_size := mt_size m' + int (length key)\<rparr>)
           | Some SvNil \<Rightarrow> (Inr (), m')
           | Some (SvBytes oldValue) \<Rightarrow> (Inr (), m'\<lparr>mt_size := mt_size m' + - slice_len oldValue\<rparr>))"

definition mt_freeze :: "memtable \<Rightarrow> memtable" where
  "mt_freeze m = m\<lparr>mt_frozen := True\<rparr>"

definition mt_is_frozen :: "memtable \<Rightarrow> bool" where
  "mt_is_frozen m = mt_frozen m"

text \<open>
  \<open>Range\<close> visits the keys in no particular order: \<open>ks\<close> is the order of the run.
\<close>

fun stored_slice :: "stored \<Rightarrow> slice" where
  "stored_slice SvNil = None"
| "stored_slice (SvBytes v) = v"

definition range_order :: "memtable \<Rightarrow> bytes list \<Rightarrow> bool" where
  "range_order m ks \<longleftrightarrow> distinct ks \<and> set ks = dom (mt_data m)"

definition mt_entries :: "bytes list \<Rightarrow> memtable \<Rightarrow> (bytes \<times> slice) list" where
  "mt_entries ks m = map (\<lambda>k. (k, stored_slice (the (mt_data m k)))) ks"

definition mt_clear :: "bytes list \<Rightarrow> memtable \<Rightarrow> memtable" where
  "mt_clear ks m = m\<lparr>mt_data := fold (\<lambda>k d. d(k := None)) ks (mt_data m),
     mt_size := 0, mt_count := 0, mt_frozen := False\<rparr>"

section \<open>Node, edge and adjacency tables\<close>

definition node_key :: "bytes \<Rightarrow> bytes" where
  "node_key nid = lit ''node:'' @ nid"

definition put_node :: "node \<Rightarrow> memtable \<Rightarrow> unit res \<times> memtable" where
  "put_node n m =
     (case wrapE ''failed to serialize node'' (serialize_node n) of
        Inl e \<Rightarrow> (Inl e, m)
      | Inr data \<Rightarrow> mt_put (node_key (n_ID n)) (Some data) m)"

definition get_node :: "memtable \<Rightarrow> bytes \<Rightarrow> node res" where
  "get_node m nid =
     (case mt_get m (node_key nid) of
        (_, False) \<Rightarrow> Inl (Err ''node not found'')
      | (None, True) \<Rightarrow> Inl (Err ''node deleted'')
      | (Some data, True) \<Rightarrow> deserialize_node data)"

definition edge_key :: "bytes \<Rightarrow> bytes" where
  "edge_key eid = lit ''edge:'' @ eid"

definition put_edge :: "edge \<Rightarrow> memtable \<Rightarrow> unit res \<times> memtable" where
  "put_edge e m =
     (case wrapE ''failed to serialize edge'' (serialize_edge e) of
        Inl er \<Rightarrow> (Inl er, m)
      | Inr data \<Rightarrow> mt_put (edge_key (e_ID e)) (Some data) m)"

definition get_edge :: "memtable \<Rightarrow> bytes \<Rightarrow> edge res" where
  "get_edge m eid =
     (case mt_get m (edge_key eid) of
        (_, False) \<Rightarrow> Inl (Err ''edge not found'')
      | (None, True) \<Rightarrow> Inl (Err ''edge deleted'')
      | (Some data, True) \<Rightarrow> deserialize_edge data)"

definition adj_out_key :: "bytes \<Rightarrow> bytes" where
  "adj_out_key nid = lit ''adj:out:'' @ nid"

definition adj_in_key :: "bytes \<Rightarrow> bytes" where
  "adj_in_key nid = lit ''adj:in:'' @ nid"

definition comma :: byte where
  "comma = 0x2C"

definition add_outgoing_edge :: "bytes \<Rightarrow> bytes \<Rightarrow> memtable \<Rightarrow> unit res \<times> memtable" where
  "add_outgoing_edge nid eid m =
     (let (existing, _) = mt_get m (adj_out_key nid);
          newValue = slice_bytes existing @ eid @ [comma]
      in mt_put (adj_out_key nid) (Some newValue) m)"

definition add_incoming_edge :: "bytes \<Rightarrow> bytes \<Rightarrow> memtable \<Rightarrow> unit res \<times> memtable" where
  "add_incoming_edge nid eid m =
     (let (existing, _) = mt_get m (adj_in_key nid);
          newValue = slice_bytes existing @ eid @ [comma]
      in mt_put (adj_in_key nid) (Some newValue) m)"

section \<open>Parsing an adjacency list\<close>

text \<open>
  \<open>for _, ch := range data\<close> decodes UTF-8; \<open>string(ch)\<close> encodes the rune again, which is the
  same bytes for a valid encoding and the three bytes of U+FFFD for an invalid byte.
  \<open>utf8_width\<close> is the width of the valid encoding the bytes start with, or 0.
\<close>

definition cont_in :: "byte \<Rightarrow> byte \<Rightarrow> byte \<Rightarrow> bool" where
  "cont_in lo hi b \<longleftrightarrow> lo \<le> b \<and> b \<le> hi"

fun utf8_width :: "bytes \<Rightarrow> nat" where
  "utf8_width [] = 0"
| "utf8_width (b0 # bs) =
     (if b0 < 0x80 then 1
      else if cont_in 0xC2 0xDF b0 then
        (case bs of b1 # _ \<Rightarrow> if cont_in 0x80 0xBF b1 then 2 else 0 | _ \<Rightarrow> 0)
      else if cont_in 0xE0 0xEF b0 then
        (case bs of b1 # b2 # _ \<Rightarrow>
           if cont_in (if b0 = 0xE0 then 0xA0 else 0x80) (if b0 = 0xED then 0x9F else 0xBF) b1
              \<and> cont_in 0x80 0xBF b2 then 3 else 0
         | _ \<Rightarrow> 0)
      else if cont_in 0xF0 0xF4 b0 then
        (case bs of b1 # b2 # b3 # _ \<Rightarrow>
           if cont_in (if b0 = 0xF0 then 0x90 else 0x80) (if b0 = 0xF4 then 0x8F else 0xBF) b1
              \<and> cont_in 0x80 0xBF b2 \<and> cont_in 0x80 0xBF b3 then 4 else 0
         | _ \<Rightarrow> 0)
      else 0)"

definition next_rune :: "bytes \<Rightarrow> bytes \<times> bytes" where
  \<comment> \<open>the UTF-8 form of the next rune, and the rest of the string\<close>
  "next_rune data =
     (let w = utf8_width data
      in if w = 0 then ([0xEF, 0xBF, 0xBD], drop 1 data) else (take w data, drop w data))"

function edge_list_loop :: "bytes list \<Rightarrow> bytes \<Rightarrow> bytes \<Rightarrow> bytes list" where
  "edge_list_loop edges current data =
     (if data = [] then edges
      else
        let (ch, rest) = next_rune data
        in if ch = [comma] then
             (if current \<noteq> [] then edge_list_loop (edges @ [current]) [] rest
              else edge_list_loop edges current rest)
           else edge_list_loop edges (current @ ch) rest)"
  by pat_completeness auto
termination
  by (relation "measure (\<lambda>(_, _, data). length data)")
    (auto simp: next_rune_def Let_def length_greater_0_conv split: if_splits)

declare edge_list_loop.simps [simp del]

definition parse_edge_list :: "bytes \<Rightarrow> bytes list" where
  "parse_edge_list data = (if data = [] then [] else edge_list_loop [] [] data)"

definition get_outgoing_edges :: "memtable \<Rightarrow> bytes \<Rightarrow> bytes list" where
  "get_outgoing_edges m nid =
     (case mt_get m (adj_out_key nid) of
        (_, False) \<Rightarrow> [] | (data, True) \<Rightarrow> parse_edge_list (slice_bytes data))"

definition get_incoming_edges :: "memtable \<Rightarrow> bytes \<Rightarrow> bytes list" where
  "get_incoming_edges m nid =
     (case mt_get m (adj_in_key nid) of
        (_, False) \<Rightarrow> [] | (data, True) \<Rightarrow> parse_edge_list (slice_bytes data))"

section \<open>The accounting invariant\<close>

fun stored_len :: "stored \<Rightarrow> int" where
  "stored_len SvNil = 0"
| "stored_len (SvBytes v) = slice_len v"

definition data_size :: "(bytes \<rightharpoonup> stored) \<Rightarrow> int" where
  "data_size d = (\<Sum>k\<in>dom d. int (length k) + stored_len (the (d k)))"

definition mt_inv :: "memtable \<Rightarrow> bool" where
  "mt_inv m \<longleftrightarrow> finite (dom (mt_data m)) \<and> mt_size m = data_size (mt_data m)
     \<and> mt_count m = int (card (dom (mt_data m)))"

lemma data_size_update_new:
  "finite (dom d) \<Longrightarrow> d k = None \<Longrightarrow>
   data_size (d(k \<mapsto> v)) = data_size d + int (length k) + stored_len v"
proof -
  assume fin: "finite (dom d)" and none: "d k = None"
  then have "k \<notin> dom d" by auto
  then have same: "(\<Sum>j\<in>dom d. int (length j) + stored_len (the ((d(k \<mapsto> v)) j))) = data_size d"
    unfolding data_size_def by (intro sum.cong) auto
  show ?thesis
    using fin \<open>k \<notin> dom d\<close> same by (simp add: data_size_def)
qed

lemma data_size_update_old:
  "finite (dom d) \<Longrightarrow> d k = Some w \<Longrightarrow>
   data_size (d(k \<mapsto> v)) = data_size d + stored_len v - stored_len w"
proof -
  assume fin: "finite (dom d)" and some: "d k = Some w"
  then have dom: "dom d = insert k (dom d - {k})" by auto
  have split: "data_size d' = int (length k) + stored_len (the (d' k))
      + (\<Sum>j\<in>dom d - {k}. int (length j) + stored_len (the (d' j)))"
    if "dom d' = dom d" for d'
    unfolding data_size_def that using fin some by (subst dom, subst sum.insert) auto
  have rest: "(\<Sum>j\<in>dom d - {k}. int (length j) + stored_len (the ((d(k \<mapsto> v)) j)))
      = (\<Sum>j\<in>dom d - {k}. int (length j) + stored_len (the (d j)))"
    by (rule sum.cong) auto
  from some have "dom (d(k \<mapsto> v)) = dom d" by auto
  from split [OF this] split [OF refl] rest some show ?thesis by simp
qed

lemma mt_new_inv [simp]: "mt_inv (mt_new maxSize)"
  by (simp add: mt_inv_def mt_new_def data_size_def)

lemma mt_put_inv:
  assumes inv: "mt_inv m" and put: "mt_put key value m = (r, m')" and ok: "\<And>p. r \<noteq> Inl (Panic p)"
  shows "mt_inv m'"
proof (cases "mt_data m key")
  case None
  with inv put show ?thesis
    by (auto simp: mt_put_def mt_inv_def Let_def data_size_update_new insert_absorb card_insert_if
        split: if_splits)
next
  case (Some w)
  then have "dom ((mt_data m)(key \<mapsto> v)) = dom (mt_data m)" for v by auto
  with Some inv put ok show ?thesis
    by (cases w) (auto simp: mt_put_def mt_inv_def Let_def data_size_update_old split: if_splits)
qed

lemma mt_delete_inv:
  assumes inv: "mt_inv m" and del: "mt_delete key m = (r, m')"
  shows "mt_inv m'"
proof (cases "mt_data m key")
  case None
  with inv del show ?thesis
    by (auto simp: mt_delete_def mt_inv_def Let_def data_size_update_new card_insert_if split: if_splits)
next
  case (Some w)
  then have "dom ((mt_data m)(key \<mapsto> v)) = dom (mt_data m)" for v by auto
  with Some inv del show ?thesis
    by (cases w) (auto simp: mt_delete_def mt_inv_def Let_def data_size_update_old split: if_splits)
qed

lemma mt_freeze_inv [simp]: "mt_inv (mt_freeze m) = mt_inv m"
  by (simp add: mt_inv_def mt_freeze_def)

lemma fold_clear: "fold (\<lambda>k d. d(k := None)) ks d = d |` (- set ks)"
  by (induction ks arbitrary: d) (auto simp: restrict_map_def fun_eq_iff)

lemma mt_clear_eq:
  "range_order m ks \<Longrightarrow> mt_clear ks m = mt_new (mt_maxSize m)"
proof -
  assume "range_order m ks"
  then have "set ks = dom (mt_data m)" by (simp add: range_order_def)
  then have "mt_data m |` (- set ks) = Map.empty"
    by (auto simp: restrict_map_def fun_eq_iff)
  then show ?thesis
    by (simp add: mt_clear_def mt_new_def fold_clear)
qed

section \<open>Lookup after an update\<close>

lemma mt_get_new [simp]: "mt_get (mt_new maxSize) k = (None, False)"
  by (simp add: mt_get_def mt_new_def)

lemma mt_get_freeze [simp]: "mt_get (mt_freeze m) k = mt_get m k"
  by (simp add: mt_get_def mt_freeze_def)

lemma mt_put_ok:
  "mt_put key value m = (Inr (), m') \<Longrightarrow>
   mt_get m' k = (if k = key then (value, True) else mt_get m k)"
  by (auto simp: mt_put_def mt_get_def Let_def split: if_splits option.splits stored.splits)

lemma mt_put_Err:
  "mt_put key value m = (Inl e, m') \<Longrightarrow> \<not> is_panic e \<Longrightarrow> m' = m"
  by (auto simp: mt_put_def Let_def split: if_splits option.splits stored.splits)

lemma mt_put_frame:
  "mt_put key value m = (r, m') \<Longrightarrow> mt_maxSize m' = mt_maxSize m \<and> mt_frozen m' = mt_frozen m"
  by (auto simp: mt_put_def Let_def split: if_splits option.splits stored.splits)

lemma mt_put_frozen [simp]:
  "mt_frozen m \<Longrightarrow> mt_put key value m = (Inl (Err ''cannot write to frozen memtable''), m)"
  by (simp add: mt_put_def)

lemma mt_delete_ok:
  "mt_delete key m = (Inr (), m') \<Longrightarrow>
   mt_get m' k = (if k = key then (None, True) else mt_get m k)"
  by (auto simp: mt_delete_def mt_get_def Let_def split: if_splits option.splits stored.splits)

lemma slice_len_nonneg [simp]: "0 \<le> slice_len v"
  by (simp add: slice_len_def)

lemma stored_len_nonneg [simp]: "0 \<le> stored_len v"
  by (cases v) simp_all

lemma data_size_nonneg: "0 \<le> data_size d"
  unfolding data_size_def by (rule sum_nonneg) simp

lemma mt_put_bounded:
  "mt_put key value m = (Inr (), m') \<Longrightarrow> mt_size m' \<le> mt_maxSize m'"
  using slice_len_nonneg
  by (auto simp: mt_put_def Let_def split: if_splits option.splits stored.splits)
    (smt (verit) of_nat_0_le_iff slice_len_nonneg)

text \<open>A put succeeds exactly when the table is open, the key non-empty and not deleted, and
  the entry fits on top of everything already stored.\<close>

lemma mt_put_succeeds:
  "succeeds (fst (mt_put key value m)) \<longleftrightarrow>
   \<not> mt_frozen m \<and> key \<noteq> [] \<and> mt_size m + (int (length key) + slice_len value) \<le> mt_maxSize m
   \<and> mt_data m key \<noteq> Some SvNil"
  by (auto simp: mt_put_def Let_def split: option.splits stored.splits)

lemma mt_entries_map_of:
  assumes "range_order m ks"
  shows "map_of (mt_entries ks m) k =
     (if snd (mt_get m k) then Some (fst (mt_get m k)) else None)"
proof -
  have "map_of (mt_entries ks m) k =
      (if k \<in> set ks then Some (stored_slice (the (mt_data m k))) else None)"
    unfolding mt_entries_def by (simp add: map_of_map_restrict)
  with assms show ?thesis
    by (auto simp: range_order_def mt_get_def split: option.splits stored.splits)
qed

section \<open>Tables of records\<close>

text \<open>
  A table of records is a codec over a key-value store.  The store promises what a
  successful put does to every lookup and that a put refused with an error does nothing;
  the client stores records under a prefixed identifier.
\<close>

locale kv_store =
  fixes get :: "'s \<Rightarrow> bytes \<Rightarrow> slice \<times> bool"
    and put :: "bytes \<Rightarrow> slice \<Rightarrow> 's \<Rightarrow> unit res \<times> 's"
  assumes put_ok: "put k v s = (Inr (), s') \<Longrightarrow> get s' j = (if j = k then (v, True) else get s j)"
    and put_refused: "put k v s = (Inl e, s') \<Longrightarrow> \<not> is_panic e \<Longrightarrow> get s' j = get s j"

locale record_table =
  record_codec ser deser wire good + kv_store get put
  for ser :: "'a \<Rightarrow> bytes res" and deser wire good
    and get :: "'s \<Rightarrow> bytes \<Rightarrow> slice \<times> bool" and put +
  fixes ident :: "'a \<Rightarrow> bytes"
    and key :: "bytes \<Rightarrow> bytes"
    and put_rec :: "'a \<Rightarrow> 's \<Rightarrow> unit res \<times> 's"
    and get_rec :: "'s \<Rightarrow> bytes \<Rightarrow> 'a res"
    and e_ser e_missing e_deleted :: string
  assumes put_rec_eq: "put_rec x s =
      (case wrapE e_ser (ser x) of Inl e \<Rightarrow> (Inl e, s) | Inr d \<Rightarrow> put (key (ident x)) (Some d) s)"
    and get_rec_eq: "get_rec s i =
      (case get s (key i) of (_, False) \<Rightarrow> Inl (Err e_missing) | (None, True) \<Rightarrow> Inl (Err e_deleted)
       | (Some d, True) \<Rightarrow> deser d)"
    and key_inject: "key i = key j \<longleftrightarrow> i = j"
begin

lemma put_rec_Inr:
  "put_rec x s = (Inr (), s') \<Longrightarrow> \<exists>d. ser x = Inr d \<and> put (key (ident x)) (Some d) s = (Inr (), s')"
  unfolding put_rec_eq by (cases "ser x") (auto split: sum.splits simp: wrapE_Inr_iff)

lemma read_own_write:
  assumes "good x" and "put_rec x s = (Inr (), s')"
  shows "get_rec s' (ident x) = Inr (wire x)"
proof -
  from put_rec_Inr [OF assms(2)] obtain d
    where d: "ser x = Inr d" "put (key (ident x)) (Some d) s = (Inr (), s')" by blast
  from put_ok [OF d(2)] roundtrip [OF assms(1) d(1)] show ?thesis
    by (simp add: get_rec_eq)
qed

lemma other_records:
  assumes "put_rec x s = (Inr (), s')" and "i \<noteq> ident x"
  shows "get_rec s' i = get_rec s i"
proof -
  from put_rec_Inr [OF assms(1)] obtain d
    where "put (key (ident x)) (Some d) s = (Inr (), s')" by blast
  from put_ok [OF this, of "key i"] assms(2) show ?thesis
    by (simp add: get_rec_eq key_inject)
qed

lemma refused_put:
  assumes "put_rec x s = (Inl e, s')" and "\<not> is_panic e"
  shows "get_rec s' i = get_rec s i"
  using assms put_refused unfolding put_rec_eq get_rec_eq
  by (cases "wrapE e_ser (ser x)") auto

lemma missing_record: "get s (key i) = (v, False) \<Longrightarrow> \<not> succeeds (get_rec s i)"
  by (cases v) (simp_all add: get_rec_eq)

end

interpretation mt_store: kv_store mt_get mt_put
  by unfold_locales (erule mt_put_ok, metis mt_put_Err)

interpretation node_table: record_table serialize_node deserialize_node wire_node node_ok
  mt_get mt_put n_ID node_key put_node get_node
  "''failed to serialize node''" "''node not found''" "''node deleted''"
  by unfold_locales (simp_all add: put_node_def get_node_def node_key_def)

interpretation edge_table: record_table serialize_edge deserialize_edge wire_edge edge_ok
  mt_get mt_put e_ID edge_key put_edge get_edge
  "''failed to serialize edge''" "''edge not found''" "''edge deleted''"
  by unfold_locales (simp_all add: put_edge_def get_edge_def edge_key_def)

section \<open>Adjacency lists\<close>

text \<open>
  The identifiers an adjacency list can hold: non-empty, valid UTF-8, without a comma.
\<close>

function valid_utf8 :: "bytes \<Rightarrow> bool" where
  "valid_utf8 s =
     (if s = [] then True
      else let w = utf8_width s in if w = 0 then False else valid_utf8 (drop w s))"
  by pat_completeness auto
termination
  by (relation "measure length") (auto simp: length_greater_0_conv)

declare valid_utf8.simps [simp del]

definition edge_id_ok :: "bytes \<Rightarrow> bool" where
  "edge_id_ok i \<longleftrightarrow> i \<noteq> [] \<and> valid_utf8 i \<and> comma \<notin> set i"

definition join_ids :: "bytes list \<Rightarrow> bytes" where
  "join_ids ids = concat (map (\<lambda>i. i @ [comma]) ids)"

lemma utf8_width_append:
  "utf8_width xs \<noteq> 0 \<Longrightarrow> utf8_width (xs @ ys) = utf8_width xs \<and> utf8_width xs \<le> length xs"
proof -
  assume w: "utf8_width xs \<noteq> 0"
  then obtain b0 bs where xs: "xs = b0 # bs" by (cases xs) auto
  consider (one) "b0 < 0x80" | (two) "\<not> b0 < 0x80" "cont_in 0xC2 0xDF b0"
    | (three) "\<not> b0 < 0x80" "\<not> cont_in 0xC2 0xDF b0" "cont_in 0xE0 0xEF b0"
    | (four) "\<not> b0 < 0x80" "\<not> cont_in 0xC2 0xDF b0" "\<not> cont_in 0xE0 0xEF b0" "cont_in 0xF0 0xF4 b0"
    | (bad) "\<not> b0 < 0x80" "\<not> cont_in 0xC2 0xDF b0" "\<not> cont_in 0xE0 0xEF b0" "\<not> cont_in 0xF0 0xF4 b0"
    by blast
  then show ?thesis
  proof cases
    case one
    then show ?thesis by (simp add: xs)
  next
    case two
    with w xs show ?thesis by (cases bs) (auto split: if_splits)
  next
    case three
    with w xs obtain b1 b2 t where "bs = b1 # b2 # t" by (auto split: list.splits)
    with three w xs show ?thesis by (simp only: append_Cons utf8_width.simps if_False list.case if_True) (simp split: if_split_asm)
  next
    case four
    with w xs obtain b1 b2 b3 t where "bs = b1 # b2 # b3 # t" by (auto split: list.splits)
    with four w xs show ?thesis by (simp only: append_Cons utf8_width.simps if_False list.case if_True) (simp split: if_split_asm)
  next
    case bad
    with w xs show ?thesis by simp
  qed
qed

lemma next_rune_comma [simp]: "next_rune (comma # rest) = ([comma], rest)"
  by (simp add: next_rune_def comma_def)

lemma edge_list_loop_id:
  "valid_utf8 i \<Longrightarrow> comma \<notin> set i \<Longrightarrow>
   edge_list_loop edges current (i @ rest) = edge_list_loop edges (current @ i) rest"
proof (induction i arbitrary: current rule: valid_utf8.induct)
  case (1 s)
  show ?case
  proof (cases "s = []")
    case True
    then show ?thesis by simp
  next
    case False
    let ?w = "utf8_width s"
    from False "1.prems"(1) have w: "?w \<noteq> 0" and rest: "valid_utf8 (drop ?w s)"
      by (auto simp: valid_utf8.simps [of s] Let_def split: if_splits)
    from utf8_width_append [OF w] have le: "?w \<le> length s" by blast
    from w utf8_width_append [OF w, of rest] have rune:
      "next_rune (s @ rest) = (take ?w s, drop ?w s @ rest)"
      by (simp add: next_rune_def Let_def)
    have "take ?w s \<noteq> [comma]"
      using "1.prems"(2) by (metis in_set_takeD list.set_intros(1))
    moreover have "comma \<notin> set (drop ?w s)"
      using "1.prems"(2) by (meson in_set_dropD)
    ultimately show ?thesis
      using False rune "1.IH" [OF False refl w rest]
      by (simp add: edge_list_loop.simps [of edges current "s @ rest"])
  qed
qed

lemma edge_list_loop_join:
  "list_all edge_id_ok ids \<Longrightarrow> edge_list_loop edges [] (join_ids ids) = edges @ ids"
proof (induction ids arbitrary: edges)
  case Nil
  then show ?case by (simp add: join_ids_def edge_list_loop.simps)
next
  case (Cons i ids)
  from Cons.prems have i: "i \<noteq> []" "valid_utf8 i" "comma \<notin> set i" by (simp_all add: edge_id_ok_def)
  have "edge_list_loop edges [] (join_ids (i # ids))
      = edge_list_loop edges i (comma # join_ids ids)"
    using edge_list_loop_id [OF i(2,3), of edges "[]" "comma # join_ids ids"]
    by (simp add: join_ids_def)
  also have "\<dots> = edge_list_loop (edges @ [i]) [] (join_ids ids)"
    by (subst edge_list_loop.simps) (simp add: i)
  finally show ?case using Cons by simp
qed

lemma parse_join_ids: "list_all edge_id_ok ids \<Longrightarrow> parse_edge_list (join_ids ids) = ids"
  using edge_list_loop_join [of ids "[]"]
  by (auto simp: parse_edge_list_def join_ids_def)

definition adj_value :: "memtable \<Rightarrow> bytes \<Rightarrow> bytes" where
  "adj_value m key = slice_bytes (fst (mt_get m key))"

definition adj_wf :: "memtable \<Rightarrow> bool" where
  "adj_wf m \<longleftrightarrow> (\<forall>key. \<exists>ids. list_all edge_id_ok ids \<and> adj_value m key = join_ids ids)"

lemma adj_wf_new: "adj_wf (mt_new maxSize)"
  by (auto simp: adj_wf_def adj_value_def join_ids_def intro!: exI [of _ "[]"])

lemma get_outgoing_edges_eq: "get_outgoing_edges m nid = parse_edge_list (adj_value m (adj_out_key nid))"
  by (auto simp: get_outgoing_edges_def adj_value_def mt_get_def parse_edge_list_def
      split: option.splits stored.splits)

lemma get_incoming_edges_eq: "get_incoming_edges m nid = parse_edge_list (adj_value m (adj_in_key nid))"
  by (auto simp: get_incoming_edges_def adj_value_def mt_get_def parse_edge_list_def
      split: option.splits stored.splits)

lemma adj_keys [simp]:
  "adj_out_key i = adj_out_key j \<longleftrightarrow> i = j" "adj_in_key i = adj_in_key j \<longleftrightarrow> i = j"
  "adj_out_key i \<noteq> adj_in_key j" "adj_in_key j \<noteq> adj_out_key i"
  by (simp_all add: adj_out_key_def adj_in_key_def lit_def)

lemma adj_append_value:
  "mt_put key (Some (adj_value m key @ eid @ [comma])) m = (Inr (), m') \<Longrightarrow>
   adj_value m' k = (if k = key then adj_value m key @ eid @ [comma] else adj_value m k)"
  by (auto simp: adj_value_def mt_put_ok)

lemma adj_append_wf:
  assumes "adj_wf m" and "edge_id_ok eid"
    and put: "mt_put key (Some (adj_value m key @ eid @ [comma])) m = (Inr (), m')"
  shows "adj_wf m'"
    and "parse_edge_list (adj_value m' k) =
      parse_edge_list (adj_value m k) @ (if k = key then [eid] else [])"
proof -
  from assms(1) obtain ids where ids: "list_all edge_id_ok ids" "adj_value m key = join_ids ids"
    by (auto simp: adj_wf_def)
  then have new: "adj_value m key @ eid @ [comma] = join_ids (ids @ [eid])"
    by (simp add: join_ids_def)
  have ok: "list_all edge_id_ok (ids @ [eid])" using ids assms(2) by simp
  show "adj_wf m'"
    using assms(1) ok unfolding adj_wf_def adj_append_value [OF put] new
    by (metis (full_types))
  show "parse_edge_list (adj_value m' k) =
      parse_edge_list (adj_value m k) @ (if k = key then [eid] else [])"
    using ids ok unfolding adj_append_value [OF put] new by (simp add: parse_join_ids)
qed

lemma add_outgoing_edge_eq:
  "add_outgoing_edge nid eid m =
   mt_put (adj_out_key nid) (Some (adj_value m (adj_out_key nid) @ eid @ [comma])) m"
  by (simp add: add_outgoing_edge_def adj_value_def split_beta)

lemma add_incoming_edge_eq:
  "add_incoming_edge nid eid m =
   mt_put (adj_in_key nid) (Some (adj_value m (adj_in_key nid) @ eid @ [comma])) m"
  by (simp add: add_incoming_edge_def adj_value_def split_beta)

lemma add_outgoing_edge_ok:
  assumes "adj_wf m" and "edge_id_ok eid" and "add_outgoing_edge nid eid m = (Inr (), m')"
  shows "adj_wf m'"
    and "get_outgoing_edges m' j = get_outgoing_edges m j @ (if j = nid then [eid] else [])"
    and "get_incoming_edges m' j = get_incoming_edges m j"
  using adj_append_wf [OF assms(1,2) assms(3) [unfolded add_outgoing_edge_eq]]
  by (simp_all add: get_outgoing_edges_eq get_incoming_edges_eq)

lemma add_incoming_edge_ok:
  assumes "adj_wf m" and "edge_id_ok eid" and "add_incoming_edge nid eid m = (Inr (), m')"
  shows "adj_wf m'"
    and "get_incoming_edges m' j = get_incoming_edges m j @ (if j = nid then [eid] else [])"
    and "get_outgoing_edges m' j = get_outgoing_edges m j"
  using adj_append_wf [OF assms(1,2) assms(3) [unfolded add_incoming_edge_eq]]
  by (simp_all add: get_outgoing_edges_eq get_incoming_edges_eq)

section \<open>Properties\<close>

text \<open>The states a table reaches: puts (a panic ends the process), deletes, freezes and clears.\<close>

inductive mt_reach :: "int \<Rightarrow> memtable \<Rightarrow> bool" for maxSize where
  new: "mt_reach maxSize (mt_new maxSize)"
| put: "mt_reach maxSize m \<Longrightarrow> mt_put key val m = (r, m') \<Longrightarrow> (\<And>p. r \<noteq> Inl (Panic p)) \<Longrightarrow> mt_reach maxSize m'"
| del: "mt_reach maxSize m \<Longrightarrow> mt_delete key m = (r, m') \<Longrightarrow> mt_reach maxSize m'"
| freeze: "mt_reach maxSize m \<Longrightarrow> mt_reach maxSize (mt_freeze m)"
| clear: "mt_reach maxSize m \<Longrightarrow> range_order m ks \<Longrightarrow> mt_reach maxSize (mt_clear ks m)"

text \<open>
  C26: The accounting of a table.  In every reachable table the size is the sum, over the keys
  it holds, of the key's length and its value's (a deleted key keeps its length), and the
  count is the number of those keys, deleted ones included; it lists each key once with the
  value \<open>Get\<close> returns.
\<close>

theorem memtable_accounting:
  assumes "mt_reach maxSize m"
  shows "mt_size m = data_size (mt_data m) \<and> mt_count m = int (card (dom (mt_data m))) \<and> mt_maxSize m = maxSize
    \<and> (range_order m ks \<longrightarrow> distinct (map fst (mt_entries ks m))
        \<and> map_of (mt_entries ks m) k = (if snd (mt_get m k) then Some (fst (mt_get m k)) else None))"
proof -
  from assms have "mt_inv m \<and> mt_maxSize m = maxSize"
  proof (induction rule: mt_reach.induct)
    case new
    then show ?case by (simp add: mt_new_def data_size_def mt_inv_def)
  next
    case (put m key val r m')
    then show ?case using mt_put_inv [of m key val r m'] mt_put_frame [of key val m r m'] by auto
  next
    case (del m key r m')
    then show ?case using mt_delete_inv [of m key r m']
      by (auto simp: mt_delete_def Let_def split: if_splits option.splits stored.splits)
  next
    case (freeze m)
    then show ?case by simp (simp add: mt_freeze_def)
  next
    case (clear m ks)
    then show ?case by (simp add: mt_clear_eq) (simp add: mt_new_def)
  qed
  moreover have "map fst (mt_entries ks m) = ks" by (simp add: mt_entries_def comp_def)
  ultimately show ?thesis
    using mt_entries_map_of [of m ks k] by (auto simp: mt_inv_def range_order_def)
qed

theorem memtable_accounting_witness:
  "mt_size (snd (mt_delete [1] (snd (mt_put [1] (Some [2, 3]) (mt_new 10))))) = 1"
proof -
  let ?m = "snd (mt_put [1] (Some [2, 3]) (mt_new 10))" and ?p = "mt_put [1] (Some [2, 3]) (mt_new 10)"
  have "fst ?p = Inr ()" by (simp add: mt_put_def mt_new_def Let_def slice_len_def)
  with mt_reach.put [OF mt_reach.new, where maxSize = 10 and key = "[1]" and val = "Some [2, 3]" and r = "fst ?p" and m' = ?m] have "mt_reach 10 ?m"
    by (simp add: prod_eq_iff)
  from mt_reach.del [OF this, where key = "[1]" and r = "fst (mt_delete [1] ?m)" and m' = "snd (mt_delete [1] ?m)"]
  have "mt_reach 10 (snd (mt_delete [1] ?m))" by simp
  from memtable_accounting [OF this] show ?thesis
    by (simp add: data_size_def mt_put_def mt_delete_def mt_new_def Let_def)
qed

text \<open>
  A put over a deleted key panics.  On an open table, \<open>Put\<close> of a key that \<open>Delete\<close> has just
  removed stores the value and then panics on the type assertion, before it accounts for it.
\<close>

theorem put_after_delete_panics:
  assumes "mt_inv m" and "mt_delete key m = (Inr (), m1)" and "key \<noteq> []"
    and "mt_size m1 + int (length key) + slice_len v \<le> mt_maxSize m1"
  shows "\<exists>p m2. mt_put key v m1 = (Inl (Panic p), m2) \<and> mt_get m2 key = (v, True)
    \<and> mt_size m2 = mt_size m1 \<and> data_size (mt_data m2) = mt_size m2 + slice_len v"
proof -
  from assms(2) have nil: "mt_data m1 key = Some SvNil" "\<not> mt_frozen m1"
    by (auto simp: mt_delete_def Let_def split: if_splits option.splits stored.splits)
  from mt_delete_inv [OF assms(1,2)] have m1: "finite (dom (mt_data m1))" "mt_size m1 = data_size (mt_data m1)"
    by (simp_all add: mt_inv_def)
  from data_size_update_old [OF m1(1) nil(1), of "SvBytes v"] assms(3,4) nil m1(2) show ?thesis
    by (simp add: mt_put_def Let_def mt_get_def)
qed

theorem put_after_delete_panics_witness:
  "\<exists>p. fst (mt_put [1] (Some [2]) (snd (mt_delete [1] (mt_new 10)))) = Inl (Panic p)"
proof -
  obtain m1 where m1: "mt_delete [1] (mt_new 10) = (Inr (), m1)" "mt_size m1 = 1" "mt_maxSize m1 = 10"
    by (simp add: mt_delete_def mt_new_def Let_def)
  from put_after_delete_panics [OF mt_new_inv m1(1), of "Some [2]"] m1 show ?thesis by (auto simp: slice_len_def)
qed

text \<open>
  C27: Adjacency lists.  Adding an edge to a well-formed adjacency table appends its identifier
  to that node's list in that direction and changes no other list, for every identifier that
  is valid UTF-8 and has no comma.
\<close>

theorem adjacency_appends:
  assumes "adj_wf m" and "edge_id_ok eid"
  shows "(add_outgoing_edge nid eid m = (Inr (), m1) \<longrightarrow> adj_wf m1
      \<and> (\<forall>j. get_outgoing_edges m1 j = get_outgoing_edges m j @ (if j = nid then [eid] else [])
           \<and> get_incoming_edges m1 j = get_incoming_edges m j))
    \<and> (add_incoming_edge nid eid m = (Inr (), m2) \<longrightarrow> adj_wf m2
      \<and> (\<forall>j. get_incoming_edges m2 j = get_incoming_edges m j @ (if j = nid then [eid] else [])
           \<and> get_outgoing_edges m2 j = get_outgoing_edges m j))"
  using add_outgoing_edge_ok [OF assms] add_incoming_edge_ok [OF assms] by blast

lemma valid_ascii: "list_all (\<lambda>b. b < 0x80) s \<Longrightarrow> valid_utf8 s"
  by (induction s) (subst valid_utf8.simps, simp)+

theorem adjacency_appends_witness:
  "get_outgoing_edges (snd (add_outgoing_edge [1] [0x61] (mt_new 100))) [1] = [[0x61]]"
proof -
  have "edge_id_ok [0x61]" by (simp add: edge_id_ok_def comma_def valid_ascii)
  moreover have "fst (add_outgoing_edge [1] [0x61] (mt_new 100)) = Inr ()"
    by (simp add: add_outgoing_edge_def mt_put_def Let_def slice_len_def adj_out_key_def lit_def split: prod.splits)
       (simp add: mt_new_def)
  ultimately show ?thesis
    using adjacency_appends [OF adj_wf_new, of "[0x61]" "[1]" 100 "snd (add_outgoing_edge [1] [0x61] (mt_new 100))"]
    by (auto simp: prod_eq_iff get_outgoing_edges_def)
qed

text \<open>
  An identifier with a comma is read back as two.  The list is stored as comma-separated
  text, so an edge \<open>a,b\<close> gives the edges \<open>a\<close> and \<open>b\<close>, which may be others or none.
\<close>

theorem comma_splits_identifier:
  assumes "edge_id_ok a" and "edge_id_ok b" and "add_outgoing_edge nid (a @ [comma] @ b) (mt_new maxSize) = (Inr (), m)"
  shows "get_outgoing_edges m nid = [a, b]"
proof -
  let ?k = "adj_out_key nid" and ?v = "a @ comma # b @ [comma]"
  have zero: "adj_value (mt_new maxSize) ?k = []" by (simp add: adj_value_def)
  have put: "mt_put ?k (Some ?v) (mt_new maxSize) = (Inr (), m)"
    using assms(3) by (simp add: add_outgoing_edge_eq zero)
  then have "adj_value m ?k = join_ids [a, b]"
    by (simp add: adj_value_def mt_put_ok [OF put] join_ids_def)
  with parse_join_ids [of "[a, b]"] assms(1,2) show ?thesis by (simp add: get_outgoing_edges_eq)
qed

theorem comma_splits_identifier_witness:
  "get_outgoing_edges (snd (add_outgoing_edge [1] [0x61, comma, 0x62] (mt_new 100))) [1] = [[0x61], [0x62]]"
proof -
  have "edge_id_ok [0x61]" "edge_id_ok [0x62]" by (simp_all add: edge_id_ok_def comma_def valid_ascii)
  moreover have "fst (add_outgoing_edge [1] [0x61, comma, 0x62] (mt_new 100)) = Inr ()"
    by (simp add: add_outgoing_edge_def mt_put_def Let_def slice_len_def adj_out_key_def lit_def split: prod.splits)
       (simp add: mt_new_def)
  ultimately show ?thesis
    using comma_splits_identifier [of "[0x61]" "[0x62]" "[1]" 100 "snd (add_outgoing_edge [1] [0x61, comma, 0x62] (mt_new 100))"]
    by (simp add: prod_eq_iff)
qed

end
