(* ===== verification/Crc32.thy ===== *)
theory Crc32
  imports Prelude
begin

text \<open>
  \<open>crc32.ChecksumIEEE\<close> of Go's standard library, bit by bit, as the log and the table format
  use it; and the fact they rely on: changing any one byte changes the checksum.
\<close>

definition crc_step :: "u32 \<Rightarrow> u32" where
  "crc_step c = (if c AND 1 = 1 then drop_bit 1 c XOR 0xEDB88320 else drop_bit 1 c)"

definition crc_byte :: "u32 \<Rightarrow> byte \<Rightarrow> u32" where
  "crc_byte c b = (crc_step ^^ 8) (c XOR ucast b)"

definition crc32 :: "bytes \<Rightarrow> u32" where
  "crc32 bs = foldl crc_byte 0xFFFFFFFF bs XOR 0xFFFFFFFF"

lemma crc_byte_unfold:
  "crc_byte c b = crc_step (crc_step (crc_step (crc_step (crc_step (crc_step (crc_step (crc_step
     (c XOR ucast b))))))))"
  by (simp add: crc_byte_def eval_nat_numeral)

text \<open>Simp rules that evaluate a checksum on concrete bytes.\<close>

lemmas crc_eval = crc32_def crc_byte_unfold crc_step_def

lemma crc32_check: "crc32 [0x31, 0x32, 0x33, 0x34, 0x35, 0x36, 0x37, 0x38, 0x39] = 0xCBF43926"
  by (simp add: crc_eval)

lemma xor_cancel [simp]:
  "a XOR c = b XOR c \<longleftrightarrow> a = b" "c XOR a = c XOR b \<longleftrightarrow> a = b" for a b c :: "'a::len word"
  by (auto simp: bit_eq_iff bit_xor_iff)

lemma crc_step_top: "bit (crc_step c) 31 = bit c 0"
  by (auto simp: crc_step_def bit_simps bit_0 and_one_eq odd_iff_mod_2_eq_one dest: bit_imp_le_length)

lemma inj_crc_step: "inj crc_step"
proof (rule injI)
  fix c d assume eq: "crc_step c = crc_step d"
  then have b0: "bit c 0 = bit d 0" by (metis crc_step_top)
  then have same: "c AND 1 = 1 \<longleftrightarrow> d AND 1 = 1"
    by (simp add: bit_0 and_one_eq odd_iff_mod_2_eq_one)
  with eq have drop: "drop_bit 1 c = drop_bit 1 d"
    by (cases "c AND 1 = 1") (auto simp: crc_step_def)
  show "c = d"
  proof (rule bit_eqI)
    fix i
    show "bit c i = bit d i"
      using b0 arg_cong [OF drop, of "\<lambda>w. bit w (i - 1)"] by (cases i) (auto simp: bit_simps)
  qed
qed

lemma crc_byte_inject_state: "crc_byte c b = crc_byte d b \<longleftrightarrow> c = d"
  unfolding crc_byte_def inj_eq [OF inj_fn [OF inj_crc_step]] by simp

lemma crc_byte_inject_byte: "crc_byte c a = crc_byte c b \<longleftrightarrow> a = b"
proof -
  have "n < 8 \<and> n < 32" if "bit (x :: byte) n" for x n
    using bit_imp_le_length [OF that] by simp
  then have "(ucast a :: u32) = ucast b \<longleftrightarrow> a = b"
    by (auto simp: bit_eq_iff bit_simps)
  then show ?thesis
    unfolding crc_byte_def inj_eq [OF inj_fn [OF inj_crc_step]] by simp
qed

lemma crc_foldl_inject: "foldl crc_byte c bs = foldl crc_byte d bs \<longleftrightarrow> c = d"
  by (induction bs arbitrary: c d) (auto simp: crc_byte_inject_state)

lemma crc32_one_byte: "crc32 (xs @ a # ys) = crc32 (xs @ b # ys) \<longleftrightarrow> a = b"
  by (simp add: crc32_def crc_foldl_inject crc_byte_inject_byte)

text \<open>Two inputs of one length that differ in exactly one place have different checksums.\<close>

lemma crc32_update_neq:
  assumes "i < length bs" and "b \<noteq> bs ! i"
  shows "crc32 (bs[i := b]) \<noteq> crc32 bs"
proof -
  have "bs[i := b] = take i bs @ b # drop (Suc i) bs" "bs = take i bs @ bs ! i # drop (Suc i) bs"
    using assms(1) by (simp_all add: upd_conv_take_nth_drop id_take_nth_drop)
  with assms(2) show ?thesis by (metis crc32_one_byte)
qed

end
