(* ===== verification/Bufio.thy ===== *)
theory Bufio
  imports Prelude
begin

text \<open>
  Files and \<open>bufio.Writer\<close>, as the log (\<open>pkg/wal/wal.go\<close>) and the table writer
  (\<open>pkg/sstable/writer.go\<close>) use them.  What the operating system may do is an argument of the
  operations: \<open>io_room\<close> is how many more bytes the file takes before a write fails
  (\<open>None\<close>: no limit), the flags whether \<open>fsync\<close>, \<open>close\<close>, \<open>open\<close>, \<open>remove\<close>, \<open>mkdir\<close>, \<open>stat\<close>,
  \<open>rename\<close> and \<open>mmap\<close> succeed, and, where the log is opened for direct I/O, the platform and whether
  its \<open>F_NOCACHE\<close> call succeeds.
\<close>

section \<open>Files and buffered writers\<close>

datatype platform = Linux | Darwin | OtherPlatform

record wal_io =
  io_room :: "nat option"
  io_sync_ok :: bool
  io_close_ok :: bool
  io_open_ok :: bool
  io_remove_ok :: bool
  io_mkdir_ok :: bool
  io_stat_ok :: bool
  io_rename_ok :: bool
  io_mmap_ok :: bool
  io_platform :: platform
  io_nocache_ok :: bool

definition io_fine :: wal_io where
  "io_fine = \<lparr>io_room = None, io_sync_ok = True, io_close_ok = True, io_open_ok = True,
     io_remove_ok = True, io_mkdir_ok = True, io_stat_ok = True, io_rename_ok = True,
     io_mmap_ok = True, io_platform = Linux, io_nocache_ok = True\<rparr>"

text \<open>\<open>file.Write(p)\<close>: success, the bytes taken, the new content, the room left.\<close>

definition file_write :: "nat option \<Rightarrow> bytes \<Rightarrow> bytes \<Rightarrow> bool \<times> nat \<times> bytes \<times> nat option" where
  "file_write room p file =
     (case room of
        None \<Rightarrow> (True, length p, file @ p, None)
      | Some r \<Rightarrow>
          if length p \<le> r then (True, length p, file @ p, Some (r - length p))
          else (False, r, file @ take r p, Some 0))"

text \<open>\<open>bufio.Writer\<close>: its buffered bytes, its size, and its sticky error.\<close>

record bufio =
  b_buf :: bytes
  b_cap :: nat
  b_err :: bool

definition new_bufio :: "nat \<Rightarrow> bufio" where
  "new_bufio sz = \<lparr>b_buf = [], b_cap = (if sz = 0 then 4096 else sz), b_err = False\<rparr>"

definition bufio_flush :: "nat option \<Rightarrow> bufio \<Rightarrow> bytes \<Rightarrow> bool \<times> bufio \<times> bytes \<times> nat option" where
  "bufio_flush room b file =
     (if b_err b then (False, b, file, room)
      else if b_buf b = [] then (True, b, file, room)
      else case file_write room (b_buf b) file of
        (ok, n, file', room') \<Rightarrow>
          if ok then (True, b\<lparr>b_buf := []\<rparr>, file', room')
          else (False, b\<lparr>b_buf := drop n (b_buf b), b_err := True\<rparr>, file', room'))"

lemma file_write_fail: "file_write room p file = (False, n, file', room') \<Longrightarrow>
    n < length p \<and> file' = file @ take n p"
  by (auto simp: file_write_def split: option.splits if_splits)

lemma file_write_ok: "file_write room p file = (True, n, file', room') \<Longrightarrow>
    n = length p \<and> file' = file @ p"
  by (auto simp: file_write_def split: option.splits if_splits)

lemma bufio_flush_ok:
  "bufio_flush room b file = (True, b', file', room') \<Longrightarrow>
   b_buf b' = [] \<and> file' = file @ b_buf b \<and> \<not> b_err b' \<and> b_cap b' = b_cap b"
  by (auto simp: bufio_flush_def dest: file_write_ok split: if_splits prod.splits)

lemma bufio_flush_fail:
  "bufio_flush room b file = (False, b', file', room') \<Longrightarrow>
   b_err b' \<and> file' @ b_buf b' = file @ b_buf b \<and> b_cap b' = b_cap b"
  by (auto simp: bufio_flush_def dest: file_write_fail split: if_splits prod.splits)

function bufio_write ::
  "nat option \<Rightarrow> bytes \<Rightarrow> bufio \<Rightarrow> bytes \<Rightarrow> bool \<times> bufio \<times> bytes \<times> nat option" where
  "bufio_write room p b file =
     (if length p > b_cap b - length (b_buf b) \<and> \<not> b_err b then
        (if b_buf b = [] then
           case file_write room p file of (ok, n, file', room') \<Rightarrow>
             bufio_write room' (drop n p) (b\<lparr>b_err := \<not> ok\<rparr>) file'
         else
           let n = b_cap b - length (b_buf b) in
           case bufio_flush room (b\<lparr>b_buf := b_buf b @ take n p\<rparr>) file of (_, b', file', room') \<Rightarrow>
             bufio_write room' (drop n p) b' file')
      else if b_err b then (False, b, file, room)
      else (True, b\<lparr>b_buf := b_buf b @ p\<rparr>, file, room))"
  by pat_completeness auto
termination
proof (relation "measure (\<lambda>(room, p, b, file).
    if b_err b then 0 else 1 + 2 * length p + (if b_buf b = [] then 0 else 1))", goal_cases)
  case 1
  then show ?case by simp
next
  case (2 room p b f ok y n y' f' room')
  then show ?case by (cases ok) (auto dest!: file_write_ok [OF sym])
next
  case (3 room p b f n ok y b' y' f' room')
  then show ?case by (cases ok) (auto dest!: bufio_flush_ok [OF sym] bufio_flush_fail [OF sym])
qed

declare bufio_write.simps [simp del]

section \<open>What a buffered write does\<close>

text \<open>
  What a buffered write does: the bytes go, in order, to the end of file and buffer taken
  together; a write that reports success took all of them; a failed one leaves the sticky
  error, after which nothing is written any more.
\<close>

lemma bufio_flush_grows: "bufio_flush room b f0 = (ok, b', f', room') \<Longrightarrow> \<exists>more. f' = f0 @ more"
  by (auto simp: bufio_flush_def file_write_def split: if_splits prod.splits option.splits)

lemma bufio_write_spec:
  "bufio_write room p b f0 = (ok, b', f', room') \<Longrightarrow>
   b_cap b' = b_cap b \<and> (\<exists>more. f' = f0 @ more)
   \<and> (\<exists>k\<le>length p. f' @ b_buf b' = f0 @ b_buf b @ take k p
        \<and> (ok \<longrightarrow> k = length p \<and> \<not> b_err b')
        \<and> (\<not> ok \<longrightarrow> b_err b' \<and> (b_err b \<longrightarrow> k = 0) \<and> (p \<noteq> [] \<longrightarrow> k < length p)))"
proof (induction room p b f0 arbitrary: ok b' f' room' rule: bufio_write.induct)
  case (1 room p b f)
  consider (direct) "length p > b_cap b - length (b_buf b)" "\<not> b_err b" "b_buf b = []"
    | (buffer) "length p > b_cap b - length (b_buf b)" "\<not> b_err b" "b_buf b \<noteq> []"
    | (stop) "\<not> (length p > b_cap b - length (b_buf b) \<and> \<not> b_err b)" by blast
  then show ?case
  proof cases
    case direct
    obtain k n f1 r1 where fw: "file_write room p f = (k, n, f1, r1)" by (metis prod_cases4)
    with direct "1.prems" have run: "bufio_write r1 (drop n p) (b\<lparr>b_err := \<not> k\<rparr>) f1 = (ok, b', f', room')"
      by (subst (asm) bufio_write.simps) simp
    have IH: "b_cap b' = b_cap b \<and> (\<exists>more. f' = f1 @ more)
      \<and> (\<exists>j\<le>length (drop n p). f' @ b_buf b' = f1 @ b_buf b @ take j (drop n p)
        \<and> (ok \<longrightarrow> j = length (drop n p) \<and> \<not> b_err b') \<and> (\<not> ok \<longrightarrow> b_err b' \<and> (\<not> k \<longrightarrow> j = 0)
          \<and> (drop n p \<noteq> [] \<longrightarrow> j < length (drop n p))))"
      using "1.IH"(1) [OF _ direct(3) fw [symmetric]] direct run by simp
    have f1: "f1 = f @ take n p \<and> n \<le> length p \<and> (\<not> ok \<longrightarrow> n < length p)"
    proof (cases k)
      case True
      with fw have "n = length p" "f1 = f @ p" by (auto dest: file_write_ok)
      moreover have "ok"
        using run True \<open>n = length p\<close> direct by (subst (asm) bufio_write.simps) simp
      ultimately show ?thesis by simp
    next
      case False
      with fw show ?thesis by (auto dest: file_write_fail)
    qed
    from IH obtain j where j: "j \<le> length p - n" "f' @ b_buf b' = f1 @ b_buf b @ take j (drop n p)"
      "ok \<longrightarrow> j = length p - n \<and> \<not> b_err b'"
      "\<not> ok \<longrightarrow> b_err b' \<and> (n < length p \<longrightarrow> j < length p - n)" by auto
    have "f' @ b_buf b' = f @ b_buf b @ take (n + j) p"
      using j(2) f1 direct by (simp add: take_add)
    with IH f1 j direct show ?thesis
      by (intro conjI) (auto intro!: exI [of _ "n + j"])
  next
    case buffer
    define n where "n = b_cap b - length (b_buf b)"
    obtain k b1 f1 r1 where fl: "bufio_flush room (b\<lparr>b_buf := b_buf b @ take n p\<rparr>) f = (k, b1, f1, r1)"
      by (metis prod_cases4)
    with buffer "1.prems" have run: "bufio_write r1 (drop n p) b1 f1 = (ok, b', f', room')"
      by (subst (asm) bufio_write.simps) (simp add: n_def)
    have IH: "b_cap b' = b_cap b1 \<and> (\<exists>more. f' = f1 @ more)
      \<and> (\<exists>j\<le>length (drop n p). f' @ b_buf b' = f1 @ b_buf b1 @ take j (drop n p)
        \<and> (ok \<longrightarrow> j = length (drop n p) \<and> \<not> b_err b') \<and> (\<not> ok \<longrightarrow> b_err b' \<and> (b_err b1 \<longrightarrow> j = 0)
          \<and> (drop n p \<noteq> [] \<longrightarrow> j < length (drop n p))))"
      using "1.IH"(2) [OF _ buffer(3) n_def fl [symmetric]] buffer run by simp
    have np: "n < length p" using buffer n_def by simp
    have f1: "f1 @ b_buf b1 = f @ b_buf b @ take n p \<and> b_cap b1 = b_cap b \<and> (\<exists>more. f1 = f @ more)"
      using fl bufio_flush_grows [OF fl]
      by (cases k) (auto dest!: bufio_flush_ok bufio_flush_fail)
    from IH obtain j where j: "j \<le> length p - n" "f' @ b_buf b' = f1 @ b_buf b1 @ take j (drop n p)"
      "ok \<longrightarrow> j = length p - n \<and> \<not> b_err b'"
      "\<not> ok \<longrightarrow> b_err b' \<and> (n < length p \<longrightarrow> j < length p - n)" by auto
    have "f' @ b_buf b' = f @ b_buf b @ take (n + j) p"
      using j(2) f1 by (simp add: take_add flip: append_assoc)
    with IH f1 j np buffer show ?thesis
      by (intro conjI) (auto intro!: exI [of _ "n + j"])
  next
    case stop
    with "1.prems" show ?thesis
      by (subst (asm) bufio_write.simps) (auto split: if_splits)
  qed
qed

text \<open>With no limit and no earlier error a buffered write succeeds.\<close>

lemma bufio_write_unlimited:
  "\<not> b_err b \<Longrightarrow> \<exists>b' f'. bufio_write None p b f = (True, b', f', None) \<and> \<not> b_err b'"
proof (induction "None :: nat option" p b f rule: bufio_write.induct)
  case (1 p b f)
  show ?case
  proof (cases "length p > b_cap b - length (b_buf b)")
    case False
    with 1 show ?thesis by (subst bufio_write.simps) simp
  next
    case True
    show ?thesis
    proof (cases "b_buf b = []")
      case direct: True
      with 1 True show ?thesis
        by (subst bufio_write.simps) (simp add: file_write_def bufio_write.simps)
    next
      case buffer: False
      with "1.prems" have fl: "bufio_flush None (b\<lparr>b_buf := b_buf b @ take (b_cap b - length (b_buf b)) p\<rparr>) f
        = (True, b\<lparr>b_buf := []\<rparr>, f @ b_buf b @ take (b_cap b - length (b_buf b)) p, None)"
        by (simp add: bufio_flush_def file_write_def)
      from "1.hyps"(2) [OF _ buffer refl fl [symmetric] refl] True "1.prems"
      obtain b' f' where "bufio_write None (drop (b_cap b - length (b_buf b)) p) (b\<lparr>b_buf := []\<rparr>)
          (f @ b_buf b @ take (b_cap b - length (b_buf b)) p) = (True, b', f', None)" "\<not> b_err b'"
        by auto
      with True buffer "1.prems" fl show ?thesis by (subst bufio_write.simps) simp
    qed
  qed
qed

end
