(* ===== verification/Wal.thy ===== *)
theory Wal
  imports Codec Crc32 Bufio
begin

text \<open>
  \<open>pkg/wal/wal.go\<close>: the entry format, the buffered and the direct-I/O write paths, sync,
  close, truncation and replay.

  The mutex makes each operation atomic, so an operation is a state transformer.  What the
  operating system may do is an argument (see \<open>Bufio\<close>).  \<open>w_file\<close> is the file's content as other readers see it;
  \<open>w_durable\<close> is a ghost, the length of it that the last \<open>fsync\<close> made durable.
\<close>

section \<open>Entries\<close>

definition EntryTypeNode :: byte where "EntryTypeNode = 1"
definition EntryTypeEdge :: byte where "EntryTypeEdge = 2"
definition EntryTypeDelete :: byte where "EntryTypeDelete = 3"

record entry =
  en_Type :: byte
  en_Key :: bytes
  en_Value :: bytes
  en_Checksum :: u32
  en_Timestamp :: u64

definition entry_body :: "entry \<Rightarrow> bytes" where
  \<comment> \<open>everything before the checksum\<close>
  "entry_body e = [en_Type e] @ le_enc 4 (len32 (en_Key e)) @ en_Key e
     @ le_enc 4 (len32 (en_Value e)) @ en_Value e @ le_enc 8 (en_Timestamp e)"

definition serialize_entry :: "entry \<Rightarrow> bytes" where
  "serialize_entry e = entry_body e @ le_enc 4 (crc32 (entry_body e))"

definition deserialize_entry :: "bytes \<Rightarrow> ((entry \<times> nat) \<times> bytes) res" where
  "deserialize_entry reader =
     bindE (read_byte reader) (\<lambda>(typeByte, reader).
     bindE (read_full 4 reader) (\<lambda>(keyLenBuf, reader).
     let keyLen = unat (le_dec keyLenBuf :: u32) in
     bindE (read_full keyLen reader) (\<lambda>(key, reader).
     bindE (read_full 4 reader) (\<lambda>(valueLenBuf, reader).
     let valueLen = unat (le_dec valueLenBuf :: u32) in
     bindE (read_full valueLen reader) (\<lambda>(value, reader).
     bindE (read_full 8 reader) (\<lambda>(timestampBuf, reader).
     bindE (read_full 4 reader) (\<lambda>(checksumBuf, reader).
     let storedChecksum = le_dec checksumBuf;
         bytesRead = 1 + 4 + keyLen + 4 + valueLen + 8 + 4;
         en = \<lparr>en_Type = typeByte, en_Key = key, en_Value = value,
               en_Checksum = storedChecksum, en_Timestamp = le_dec timestampBuf\<rparr>;
         data = serialize_entry en;
         expectedChecksum = le_dec (drop (length data - 4) data)
     in if storedChecksum \<noteq> expectedChecksum then Inl (Err ''checksum mismatch'')
        else Inr ((en, bytesRead), reader))))))))"

lemma deserialize_entry_consumes:
  "deserialize_entry buf = Inr (x, rest) \<Longrightarrow> length rest < length buf"
  by (auto simp: deserialize_entry_def bindE_iff Let_def read_full_Inr_iff read_byte_def
      split: if_splits list.splits)

section \<open>Replay\<close>

function replay_loop :: "(entry \<Rightarrow> 's \<Rightarrow> unit res \<times> 's) \<Rightarrow> bytes \<Rightarrow> 's \<Rightarrow> unit res \<times> 's" where
  "replay_loop fn reader s =
     (case deserialize_entry reader of
        Inl e \<Rightarrow>
          if e = EOF then (Inr (), s)
          else (wrapE ''failed to deserialize entry'' (Inl e), s)
      | Inr ((en, bytesRead), reader') \<Rightarrow>
          (case fn en s of
             (Inl e, s') \<Rightarrow> (wrapE ''failed to apply entry'' (Inl e), s')
           | (Inr _, s') \<Rightarrow> replay_loop fn reader' s'))"
  by pat_completeness auto
termination
  by (relation "measure (\<lambda>(fn, reader, s). length reader)") (auto dest: deserialize_entry_consumes)

declare replay_loop.simps [simp del]

section \<open>The aligned buffer\<close>

text \<open>
  The aligned buffer of direct I/O: its bytes up to \<open>pos\<close>, and its length.  A flush pads the
  last block with zeros; if the buffer is not a whole number of blocks the padding can run
  past its end.
\<close>

definition DirectIOBlockSize :: nat where
  "DirectIOBlockSize = 512"

record aligned_buffer =
  ab_data :: bytes
  ab_len :: nat
  ab_blockSize :: nat

definition new_aligned_buffer :: "nat \<Rightarrow> nat \<Rightarrow> aligned_buffer" where [simp]:
  \<comment> \<open>the allocation is \<open>blockSize\<close> longer, so an aligned window of the capacity fits\<close>
  "new_aligned_buffer capacity blockSize = \<lparr>ab_data = [], ab_len = capacity, ab_blockSize = blockSize\<rparr>"

definition ab_write :: "bytes \<Rightarrow> aligned_buffer \<Rightarrow> unit res \<times> aligned_buffer" where
  "ab_write p ab =
     (if length (ab_data ab) + length p > ab_len ab then (Inl (Err ''aligned buffer overflow''), ab)
      else (Inr (), ab\<lparr>ab_data := ab_data ab @ p\<rparr>))"

definition ab_aligned_size :: "aligned_buffer \<Rightarrow> nat" where
  "ab_aligned_size ab =
     ((length (ab_data ab) + ab_blockSize ab - 1) div ab_blockSize ab) * ab_blockSize ab"

definition ab_flush ::
  "nat option \<Rightarrow> aligned_buffer \<Rightarrow> bytes \<Rightarrow> unit res \<times> aligned_buffer \<times> bytes" where
  "ab_flush room ab file =
     (if ab_data ab = [] then (Inr (), ab, file)
      else if ab_aligned_size ab > ab_len ab then (Inl (Panic ''index out of range''), ab, file)
      else case file_write room
             (ab_data ab @ replicate (ab_aligned_size ab - length (ab_data ab)) 0) file of
        (ok, n, file', room') \<Rightarrow>
          if ok then (Inr (), ab\<lparr>ab_data := []\<rparr>, file') else (Inl (Err ''write''), ab, file'))"

definition ab_reset :: "aligned_buffer \<Rightarrow> aligned_buffer" where
  "ab_reset ab = ab\<lparr>ab_data := []\<rparr>"

section \<open>The log\<close>

record wal =
  w_laneID :: nat
  w_file :: "bytes option"
  w_open :: bool
  w_durable :: nat
  w_writer :: bufio
  w_direct :: bool
  w_aligned :: aligned_buffer
  w_offset :: u64
  w_closed :: bool
  w_totalWrites :: u64
  w_totalBytes :: u64
  w_totalSyncs :: u64

record wal_config =
  wc_DataDir :: bytes
  wc_SyncInterval :: int
  wc_BufferSize :: nat
  wc_UseDirectIO :: bool

definition default_wal_config :: wal_config where [simp]:
  "default_wal_config =
     \<lparr>wc_DataDir = lit ''./data/wal'', wc_SyncInterval = 10 * 1000000, wc_BufferSize = 256 * 1024,
      wc_UseDirectIO = False\<rparr>"

text \<open>
  \<open>openWALDirect\<close>: on Linux the file is opened with \<open>O_DIRECT\<close>, on macOS caching is turned off
  after the open, on other platforms it is a plain open.
\<close>

definition open_direct_linux :: "wal_io \<Rightarrow> unit res" where
  "open_direct_linux io =
     (if io_open_ok io then Inr () else Inl (Wrap ''failed to open WAL file with Direct I/O'' (Err ''open'')))"

definition open_direct_darwin :: "wal_io \<Rightarrow> unit res" where
  "open_direct_darwin io =
     (if \<not> io_open_ok io then Inl (Wrap ''failed to open WAL file'' (Err ''open''))
      else if \<not> io_nocache_ok io then Inl (Wrap ''failed to set F_NOCACHE on WAL file'' (Err ''fcntl''))
      else Inr ())"

definition open_direct_other :: "wal_io \<Rightarrow> unit res" where
  "open_direct_other io =
     (if io_open_ok io then Inr ()
      else Inl (Wrap ''failed to open WAL file (Direct I/O not supported on this platform)'' (Err ''open'')))"

definition open_wal_direct :: "wal_io \<Rightarrow> unit res" where
  "open_wal_direct io =
     (case io_platform io of
        Linux \<Rightarrow> open_direct_linux io
      | Darwin \<Rightarrow> open_direct_darwin io
      | OtherPlatform \<Rightarrow> open_direct_other io)"

text \<open>
  \<open>NewWAL\<close> on a file with the content \<open>existing\<close> (\<open>None\<close>: no file yet; it is created empty).
  What is found on opening counts as durable: it is what an earlier power cut or a closing sync
  left on the disk.  A theorem that crashes a log opened on old content has a sync in between,
  so nothing rests on this.
\<close>

definition new_wal :: "nat \<Rightarrow> bool \<Rightarrow> nat \<Rightarrow> bytes option \<Rightarrow> wal" where
  "new_wal laneID useDirectIO bufferSize existing =
     (let file = (case existing of None \<Rightarrow> [] | Some d \<Rightarrow> d)
      in \<lparr>w_laneID = laneID, w_file = Some file, w_open = True, w_durable = length file,
          w_writer = new_bufio bufferSize, w_direct = useDirectIO,
          w_aligned = new_aligned_buffer bufferSize DirectIOBlockSize,
          w_offset = word_of_nat (length file), w_closed = False,
          w_totalWrites = 0, w_totalBytes = 0, w_totalSyncs = 0\<rparr>)"

text \<open>The whole of \<open>NewWAL\<close>, with its error paths.\<close>

definition open_wal :: "wal_io \<Rightarrow> nat \<Rightarrow> wal_config \<Rightarrow> bytes option \<Rightarrow> wal res" where
  "open_wal io laneID config existing =
     (if \<not> io_mkdir_ok io then Inl (Wrap ''failed to create WAL directory'' (Err ''mkdir''))
      else bindE
        (if wc_UseDirectIO config then open_wal_direct io
         else if \<not> io_open_ok io then Inl (Wrap ''failed to open WAL file'' (Err ''open'')) else Inr ()) (\<lambda>_.
        if \<not> io_stat_ok io then Inl (Wrap ''failed to stat WAL file'' (Err ''stat''))
        else if wc_SyncInterval config \<le> 0 then Inl (Panic ''non-positive interval for NewTicker'')
        else Inr (new_wal laneID (wc_UseDirectIO config) (wc_BufferSize config) existing)))"

definition wal_content :: "wal \<Rightarrow> bytes" where
  "wal_content w = (case w_file w of None \<Rightarrow> [] | Some d \<Rightarrow> d)"

definition wal_room :: "wal_io \<Rightarrow> wal \<Rightarrow> nat option" where
  \<comment> \<open>a write to a closed handle takes nothing\<close>
  "wal_room io w = (if w_open w then io_room io else Some 0)"

definition set_content :: "wal \<Rightarrow> bytes \<Rightarrow> bytes option" where
  "set_content w d = (case w_file w of None \<Rightarrow> None | Some _ \<Rightarrow> Some d)"

definition wal_append ::
  "wal_io \<Rightarrow> u64 \<Rightarrow> byte \<Rightarrow> bytes \<Rightarrow> bytes \<Rightarrow> wal \<Rightarrow> unit res \<times> wal" where
  "wal_append io now entryType key value w =
     (if w_closed w then (Inl (Err ''wal is closed''), w)
      else
        let data = serialize_entry \<lparr>en_Type = entryType, en_Key = key, en_Value = value,
                                    en_Checksum = 0, en_Timestamp = now\<rparr>;
            (r, w') =
              (if w_direct w then
                 (case ab_write data (w_aligned w) of
                    (r, ab) \<Rightarrow> (wrapE ''failed to write to aligned buffer'' r, w\<lparr>w_aligned := ab\<rparr>))
               else
                 (case bufio_write (wal_room io w) data (w_writer w) (wal_content w) of
                    (ok, b, file, _) \<Rightarrow>
                      (if ok then Inr () else Inl (Wrap ''failed to write to WAL'' (Err ''write'')),
                       w\<lparr>w_writer := b, w_file := set_content w file\<rparr>)))
        in case r of
             Inl e \<Rightarrow> (Inl e, w')
           | Inr _ \<Rightarrow>
               (Inr (), w'\<lparr>w_totalWrites := w_totalWrites w' + 1,
                  w_totalBytes := w_totalBytes w' + word_of_nat (length data),
                  w_offset := w_offset w' + word_of_nat (length data)\<rparr>))"

text \<open>The flush both \<open>Sync\<close> and \<open>Close\<close> do first.\<close>

definition wal_flush :: "wal_io \<Rightarrow> wal \<Rightarrow> unit res \<times> wal" where
  "wal_flush io w =
     (if w_direct w then
        (case ab_flush (wal_room io w) (w_aligned w) (wal_content w) of
           (r, ab, file) \<Rightarrow> (wrapE ''failed to flush aligned buffer'' r,
                             w\<lparr>w_aligned := ab, w_file := set_content w file\<rparr>))
      else
        (case bufio_flush (wal_room io w) (w_writer w) (wal_content w) of
           (ok, b, file, _) \<Rightarrow>
             (if ok then Inr () else Inl (Wrap ''failed to flush buffer'' (Err ''write'')),
              w\<lparr>w_writer := b, w_file := set_content w file\<rparr>)))"

definition wal_fsync :: "wal_io \<Rightarrow> wal \<Rightarrow> unit res \<times> wal" where
  "wal_fsync io w =
     (if w_open w \<and> io_sync_ok io then (Inr (), w\<lparr>w_durable := length (wal_content w)\<rparr>)
      else (Inl (Wrap ''failed to sync file'' (Err ''fsync'')), w))"

definition wal_sync :: "wal_io \<Rightarrow> wal \<Rightarrow> unit res \<times> wal" where
  "wal_sync io w =
     (if w_closed w then (Inl (Err ''wal is closed''), w)
      else case wal_flush io w of
        (Inl e, w1) \<Rightarrow> (Inl e, w1)
      | (Inr _, w1) \<Rightarrow>
          (case wal_fsync io w1 of
             (Inl e, w2) \<Rightarrow> (Inl e, w2)
           | (Inr _, w2) \<Rightarrow> (Inr (), w2\<lparr>w_totalSyncs := w_totalSyncs w2 + 1\<rparr>)))"

definition wal_close :: "wal_io \<Rightarrow> wal \<Rightarrow> unit res \<times> wal" where
  "wal_close io w =
     (if w_closed w then (Inr (), w)
      else
        \<comment> \<open>the background goroutine's last \<open>Sync\<close> sees the closed flag and does nothing\<close>
        case wal_flush io (w\<lparr>w_closed := True\<rparr>) of
        (Inl e, w1) \<Rightarrow> (Inl e, w1)
      | (Inr _, w1) \<Rightarrow>
          (case wal_fsync io w1 of
             (Inl e, w2) \<Rightarrow> (Inl e, w2)
           | (Inr _, w2) \<Rightarrow>
               if w_open w2 \<and> io_close_ok io then (Inr (), w2\<lparr>w_open := False\<rparr>)
               else (Inl (Wrap ''failed to close WAL file'' (Err ''close'')), w2\<lparr>w_open := False\<rparr>)))"

definition wal_truncate :: "wal_io \<Rightarrow> wal \<Rightarrow> unit res \<times> wal" where
  "wal_truncate io w =
     (if \<not> (w_open w \<and> io_close_ok io) then
        (Inl (Wrap ''failed to close WAL file'' (Err ''close'')), w\<lparr>w_open := False\<rparr>)
      else
        let w = w\<lparr>w_open := False\<rparr>
        in if w_direct w then
             (if w_file w \<noteq> None \<and> \<not> io_remove_ok io then
                (Inl (Wrap ''failed to remove WAL file'' (Err ''remove'')), w)
              else
                let w = w\<lparr>w_file := None, w_durable := 0\<rparr>
                in case open_wal_direct io of
                     Inl e \<Rightarrow> (Inl e, if io_open_ok io then w\<lparr>w_file := Some []\<rparr> else w)
                   | Inr _ \<Rightarrow> (Inr (), w\<lparr>w_aligned := ab_reset (w_aligned w), w_file := Some [],
                                         w_open := True, w_offset := 0\<rparr>))
           else
             (if \<not> io_open_ok io then (Inl (Wrap ''failed to truncate WAL file'' (Err ''open'')), w)
              else (Inr (), w\<lparr>w_writer := new_bufio (256 * 1024), w_file := Some [], w_durable := 0,
                              w_open := True, w_offset := 0\<rparr>)))"

definition wal_replay ::
  "wal_io \<Rightarrow> (entry \<Rightarrow> 's \<Rightarrow> unit res \<times> 's) \<Rightarrow> wal \<Rightarrow> 's \<Rightarrow> unit res \<times> 's" where
  "wal_replay io fn w s =
     (case w_file w of
        None \<Rightarrow> (Inr (), s)
      | Some d \<Rightarrow>
          if \<not> io_open_ok io then (Inl (Wrap ''failed to open WAL for replay'' (Err ''open'')), s)
          else replay_loop fn d s)"

text \<open>\<open>Stats\<close>, without the time of the last sync.\<close>

record wal_stats =
  ws_LaneID :: nat
  ws_TotalWrites :: u64
  ws_TotalBytes :: u64
  ws_TotalSyncs :: u64
  ws_CurrentSize :: u64

definition stats_of_wal :: "wal \<Rightarrow> wal_stats" where
  "stats_of_wal w =
     \<lparr>ws_LaneID = w_laneID w, ws_TotalWrites = w_totalWrites w, ws_TotalBytes = w_totalBytes w,
      ws_TotalSyncs = w_totalSyncs w, ws_CurrentSize = w_offset w\<rparr>"

section \<open>Reading back entries\<close>

definition sealed :: "entry \<Rightarrow> entry" where
  \<comment> \<open>the entry as a reader sees it, with its stored checksum\<close>
  "sealed e = e\<lparr>en_Checksum := crc32 (entry_body e)\<rparr>"

definition entry_ok :: "entry \<Rightarrow> bool" where
  "entry_ok e \<longleftrightarrow> str_ok (en_Key e) \<and> str_ok (en_Value e)"

lemma entry_body_sealed [simp]: "entry_body (e\<lparr>en_Checksum := c\<rparr>) = entry_body e"
  by (simp add: entry_body_def)

lemma length_entry_body: "length (entry_body e) = 17 + length (en_Key e) + length (en_Value e)"
  by (simp add: entry_body_def)

lemma length_serialize_entry:
  "length (serialize_entry e) = 21 + length (en_Key e) + length (en_Value e)"
  by (simp add: serialize_entry_def length_entry_body)

lemma serialize_entry_nonempty: "serialize_entry e \<noteq> []"
  by (simp add: serialize_entry_def entry_body_def)

lemma expected_checksum:
  "le_dec (drop (length (serialize_entry e) - 4) (serialize_entry e)) = crc32 (entry_body e)"
  by (simp add: serialize_entry_def)

lemma deserialize_entry_body:
  assumes "entry_ok e"
  shows "deserialize_entry (entry_body e @ le_enc 4 c @ rest) =
    (if c \<noteq> crc32 (entry_body e) then Inl (Err ''checksum mismatch'')
     else Inr ((sealed e, length (serialize_entry e)), rest))"
proof -
  have body: "entry_body e @ le_enc 4 c @ rest = en_Type e # le_enc 4 (len32 (en_Key e)) @ en_Key e
     @ le_enc 4 (len32 (en_Value e)) @ en_Value e @ le_enc 8 (en_Timestamp e) @ le_enc 4 c @ rest"
    by (simp add: entry_body_def)
  let ?e = "\<lparr>en_Type = en_Type e, en_Key = en_Key e, en_Value = en_Value e, en_Checksum = c,
    en_Timestamp = en_Timestamp e\<rparr>"
  have eb: "entry_body ?e = entry_body e" by (simp add: entry_body_def)
  have sealed: "?e = sealed e" if "c = crc32 (entry_body e)"
    using that by (simp add: sealed_def)
  show ?thesis
    unfolding body deserialize_entry_def
    using assms sealed
    by (simp add: entry_ok_def Let_def expected_checksum eb) (simp add: length_serialize_entry)
qed

lemma deserialize_serialize_entry:
  "entry_ok e \<Longrightarrow>
   deserialize_entry (serialize_entry e @ rest) = Inr ((sealed e, length (serialize_entry e)), rest)"
  using deserialize_entry_body [of e "crc32 (entry_body e)" rest] by (simp add: serialize_entry_def)

interpretation entry_codec: stream_codec serialize_entry deserialize_entry
  "\<lambda>e. (sealed e, length (serialize_entry e))" entry_ok "\<lambda>_. True"
  by unfold_locales (auto simp: deserialize_serialize_entry)

text \<open>
  Where a torn entry can be cut without the reader noticing: it reads field by field, and an
  end of file before the first byte of a field is \<open>EOF\<close>, within a field \<open>UnexpectedEOF\<close>.
\<close>

definition field_ends :: "entry \<Rightarrow> nat list" where
  "field_ends e =
     (let k = length (en_Key e); v = length (en_Value e)
      in [0, 1, 5, 5 + k, 9 + k, 9 + k + v, 17 + k + v])"

lemma deserialize_torn:
  assumes ok: "entry_ok e" and k: "k < length (serialize_entry e)"
  shows "deserialize_entry (take k (serialize_entry e)) =
    Inl (if k \<in> set (field_ends e) then EOF else UnexpectedEOF)"
proof (cases k)
  case 0
  then show ?thesis by (simp add: deserialize_entry_def field_ends_def Let_def)
next
  case (Suc j)
  let ?kl = "length (en_Key e)" and ?vl = "length (en_Value e)"
  have len: "j < 20 + ?kl + ?vl" using k Suc by (simp add: length_serialize_entry)
  have tk: "take (Suc j) (serialize_entry e) = en_Type e # take j (le_enc 4 (len32 (en_Key e)) @ en_Key e
     @ le_enc 4 (len32 (en_Value e)) @ en_Value e @ le_enc 8 (en_Timestamp e)
     @ le_enc 4 (crc32 (entry_body e)))"
    by (simp add: serialize_entry_def entry_body_def)
  have key: "unat (len32 (en_Key e)) = ?kl" and val: "unat (len32 (en_Value e)) = ?vl"
    using ok by (simp_all add: entry_ok_def)
  have last: "read_full 4 (take m (le_enc 4 c)) = Inl (if m = 0 then EOF else UnexpectedEOF)"
    if "m < 4" for m and c :: u32
    using that read_full_take [of "le_enc 4 c" 4 m "[]"] by simp
  note start = Suc tk deserialize_entry_def read_byte_simps bindE_simps prod.case Let_def
  consider "j < 4" | m where "j = 4 + m" "m < ?kl" | m where "j = 4 + ?kl + m" "m < 4"
    | m where "j = 8 + ?kl + m" "m < ?vl" | m where "j = 8 + ?kl + ?vl + m" "m < 8"
    | m where "j = 16 + ?kl + ?vl + m" "m < 4"
  proof -
    consider "j < 4" | "4 \<le> j" "j < 4 + ?kl" | "4 + ?kl \<le> j" "j < 8 + ?kl"
      | "8 + ?kl \<le> j" "j < 8 + ?kl + ?vl" | "8 + ?kl + ?vl \<le> j" "j < 16 + ?kl + ?vl"
      | "16 + ?kl + ?vl \<le> j" "j < 20 + ?kl + ?vl" using len by linarith
    then show thesis
      by cases (use that in \<open>auto simp: le_iff_add\<close>)
  qed
  then show ?thesis
    unfolding start
    by cases (simp_all add: read_full_take key val field_ends_def Let_def Suc last del: take_append)
qed

text \<open>
  Corruption: one changed byte anywhere but in a length field is caught by the checksum.
\<close>

definition length_fields :: "entry \<Rightarrow> nat set" where
  "length_fields e = {1..<5} \<union> {5 + length (en_Key e)..<9 + length (en_Key e)}"

lemma list_update_mid:
  "i < length xs \<Longrightarrow> (ys @ xs @ zs)[length ys + i := b] = ys @ xs[i := b] @ zs"
  by (simp add: list_update_append)

text \<open>A changed byte outside the length fields is a change of one field of the entry.\<close>

lemma entry_body_update:
  assumes i: "i < length (entry_body e)" and nl: "i \<notin> length_fields e"
  shows "\<exists>e'. (entry_body e)[i := b] = entry_body e' \<and> length (en_Key e') = length (en_Key e)
    \<and> length (en_Value e') = length (en_Value e)"
proof -
  let ?k = "length (en_Key e)" and ?v = "length (en_Value e)"
  let ?lk = "le_enc 4 (len32 (en_Key e))" and ?lv = "le_enc 4 (len32 (en_Value e))"
  let ?ts = "le_enc 8 (en_Timestamp e)"
  consider (ty) "i = 0" | (key) m where "i = 5 + m" "m < ?k" | (val) m where "i = 9 + ?k + m" "m < ?v"
    | (time) m where "i = 9 + ?k + ?v + m" "m < 8"
  proof -
    have "i = 0 \<or> 5 \<le> i \<and> i < 5 + ?k \<or> 9 + ?k \<le> i \<and> i < 9 + ?k + ?v
        \<or> 9 + ?k + ?v \<le> i \<and> i < 17 + ?k + ?v"
      using i nl by (auto simp: length_fields_def length_entry_body)
    then show thesis using that by (auto simp: le_iff_add)
  qed
  then show ?thesis
  proof cases
    case ty
    then show ?thesis
      by (intro exI [of _ "e\<lparr>en_Type := b\<rparr>"]) (simp add: entry_body_def)
  next
    case key
    then show ?thesis
      using list_update_mid [of m "en_Key e" "en_Type e # ?lk" "?lv @ en_Value e @ ?ts" b]
      by (intro exI [of _ "e\<lparr>en_Key := (en_Key e)[m := b]\<rparr>"]) (simp add: entry_body_def len32_def)
  next
    case val
    then show ?thesis
      using list_update_mid [of m "en_Value e" "en_Type e # ?lk @ en_Key e @ ?lv" ?ts b]
      by (intro exI [of _ "e\<lparr>en_Value := (en_Value e)[m := b]\<rparr>"])
        (simp add: entry_body_def len32_def add.assoc)
  next
    case time
    have "le_enc 8 (le_dec (?ts[m := b]) :: u64) = ?ts[m := b]"
      using le_enc_dec [of "?ts[m := b]", where 'a = 64] by simp
    with time show ?thesis
      using list_update_mid [of m ?ts "en_Type e # ?lk @ en_Key e @ ?lv @ en_Value e" "[]" b]
      by (intro exI [of _ "e\<lparr>en_Timestamp := le_dec (?ts[m := b])\<rparr>"])
        (simp add: entry_body_def add.assoc)
  qed
qed

lemma deserialize_corrupt:
  assumes ok: "entry_ok e" and i: "i < length (serialize_entry e)"
    and nl: "i \<notin> length_fields e" and b: "b \<noteq> serialize_entry e ! i"
  shows "deserialize_entry ((serialize_entry e)[i := b] @ rest) = Inl (Err ''checksum mismatch'')"
proof (cases "i < length (entry_body e)")
  case True
  from entry_body_update [OF True nl, of b] obtain e'
    where e': "(entry_body e)[i := b] = entry_body e'" "length (en_Key e') = length (en_Key e)"
      "length (en_Value e') = length (en_Value e)" by blast
  with ok have ok': "entry_ok e'" by (simp add: entry_ok_def str_ok_def)
  from b True have "b \<noteq> entry_body e ! i" by (simp add: serialize_entry_def nth_append)
  from crc32_update_neq [OF True this] e' have "crc32 (entry_body e') \<noteq> crc32 (entry_body e)" by simp
  with deserialize_entry_body [OF ok', of "crc32 (entry_body e)" rest] True show ?thesis
    by (simp add: serialize_entry_def list_update_append e')
next
  case False
  let ?c = "le_enc 4 (crc32 (entry_body e))"
  define m where "m = i - length (entry_body e)"
  with False i have im: "i = length (entry_body e) + m" "m < 4"
    by (auto simp: serialize_entry_def)
  have enc: "le_enc 4 (le_dec (?c[m := b]) :: u32) = ?c[m := b]"
    using le_enc_dec [of "?c[m := b]", where 'a = 32] by simp
  have "?c[m := b] \<noteq> ?c"
    using b im by (simp add: serialize_entry_def nth_append list_update_same_conv)
  with enc have "le_dec (?c[m := b]) \<noteq> crc32 (entry_body e)" by metis
  with deserialize_entry_body [OF ok, of "le_dec (?c[m := b])" rest] im show ?thesis
    by (simp add: serialize_entry_def list_update_append enc)
qed

section \<open>Replaying a log\<close>

text \<open>What a replay means: the entries are applied in order until one is refused.\<close>

fun apply_entries :: "(entry \<Rightarrow> 's \<Rightarrow> unit res \<times> 's) \<Rightarrow> entry list \<Rightarrow> 's \<Rightarrow> unit res \<times> 's" where
  "apply_entries fn [] s = (Inr (), s)"
| "apply_entries fn (e # es) s =
     (case fn (sealed e) s of
        (Inl er, s') \<Rightarrow> (wrapE ''failed to apply entry'' (Inl er), s')
      | (Inr _, s') \<Rightarrow> apply_entries fn es s')"

definition log_bytes :: "entry list \<Rightarrow> bytes" where
  "log_bytes es = concat (map serialize_entry es)"

lemma log_bytes_simps [simp]:
  "log_bytes [] = []" "log_bytes (e # es) = serialize_entry e @ log_bytes es"
  "log_bytes (es @ fs) = log_bytes es @ log_bytes fs"
  by (simp_all add: log_bytes_def)

lemma replay_loop_log:
  "list_all entry_ok es \<Longrightarrow>
   replay_loop fn (log_bytes es @ tail) s =
     (case apply_entries fn es s of
        (Inr _, s') \<Rightarrow> replay_loop fn tail s' | (Inl e, s') \<Rightarrow> (Inl e, s'))"
proof (induction es arbitrary: s)
  case Nil
  then show ?case by simp
next
  case (Cons e es)
  have "deserialize_entry (log_bytes (e # es) @ tail)
      = Inr ((sealed e, length (serialize_entry e)), log_bytes es @ tail)"
    using Cons.prems by (simp add: deserialize_serialize_entry)
  then have step: "replay_loop fn (log_bytes (e # es) @ tail) s =
      (case fn (sealed e) s of
         (Inl er, s') \<Rightarrow> (wrapE ''failed to apply entry'' (Inl er), s')
       | (Inr _, s') \<Rightarrow> replay_loop fn (log_bytes es @ tail) s')"
    by (subst replay_loop.simps) simp
  obtain r s' where f: "fn (sealed e) s = (r, s')" by force
  show ?case
  proof (cases r)
    case (Inl er)
    then obtain er' where "wrapE ''failed to apply entry'' (Inl er :: unit res) = Inl er'"
      by (cases er) (auto simp: wrapE_def)
    with Inl f step show ?thesis by simp
  next
    case (Inr u)
    with f step Cons show ?thesis by simp
  qed
qed

lemma replay_loop_Nil [simp]: "replay_loop fn [] s = (Inr (), s)"
  by (simp add: replay_loop.simps deserialize_entry_def)

lemma replay_loop_entries:
  "list_all entry_ok es \<Longrightarrow> replay_loop fn (log_bytes es) s = apply_entries fn es s"
  using replay_loop_log [of es fn "[]" s] by (auto split: prod.splits sum.splits)

lemma replay_loop_torn:
  assumes "entry_ok e" and "k < length (serialize_entry e)"
  shows "replay_loop fn (take k (serialize_entry e)) s =
    (if k \<in> set (field_ends e) then Inr ()
     else Inl (Wrap ''failed to deserialize entry'' UnexpectedEOF), s)"
  by (subst replay_loop.simps) (simp add: deserialize_torn assms wrapE_def)

section \<open>The buffered log\<close>

text \<open>The log as a whole: what is in the file and what still waits in the buffer.\<close>

definition wal_log :: "wal \<Rightarrow> bytes" where
  "wal_log w = wal_content w @ b_buf (w_writer w)"

definition wal_entry :: "byte \<Rightarrow> bytes \<Rightarrow> bytes \<Rightarrow> u64 \<Rightarrow> entry" where
  "wal_entry ty key value now = \<lparr>en_Type = ty, en_Key = key, en_Value = value, en_Checksum = 0,
     en_Timestamp = now\<rparr>"

lemma wal_entry_ok [simp]: "entry_ok (wal_entry ty key value now) \<longleftrightarrow> str_ok key \<and> str_ok value"
  by (simp add: entry_ok_def wal_entry_def)

text \<open>
  \<open>buffered w\<close>: a log in buffered mode whose file exists and whose durable part is within it.
\<close>

definition buffered :: "wal \<Rightarrow> bool" where
  "buffered w \<longleftrightarrow> \<not> w_direct w \<and> w_file w \<noteq> None \<and> w_durable w \<le> length (wal_content w)"

lemma new_wal_buffered: "buffered (new_wal lane False sz existing)"
  by (simp add: buffered_def new_wal_def wal_content_def Let_def)

lemma wal_append_buffered:
  assumes b: "buffered w" and run: "wal_append io now ty key value w = (r, w')"
  shows "buffered w' \<and> w_durable w' = w_durable w \<and> (\<exists>more. wal_content w' = wal_content w @ more)
    \<and> (\<exists>k\<le>length (serialize_entry (wal_entry ty key value now)).
         wal_log w' = wal_log w @ take k (serialize_entry (wal_entry ty key value now))
       \<and> (r = Inr () \<longrightarrow> k = length (serialize_entry (wal_entry ty key value now))
            \<and> \<not> b_err (w_writer w'))
       \<and> (r \<noteq> Inr () \<longrightarrow> k < length (serialize_entry (wal_entry ty key value now))
            \<and> (b_err (w_writer w') \<and> (b_err (w_writer w) \<longrightarrow> k = 0) \<or> w' = w \<and> k = 0)))"
proof (cases "w_closed w")
  case True
  with b run show ?thesis by (auto simp: wal_append_def serialize_entry_def)
next
  case False
  let ?d = "serialize_entry (wal_entry ty key value now)"
  obtain ok bw f rm where bwr: "bufio_write (wal_room io w) ?d (w_writer w) (wal_content w) = (ok, bw, f, rm)"
    by (metis prod_cases4)
  from b obtain d0 where file0: "w_file w = Some d0" by (auto simp: buffered_def)
  have content: "wal_content w' = f" "w_writer w' = bw" "w_file w' = Some f" "w_durable w' = w_durable w"
    "w_direct w' = w_direct w" "ok = (r = Inr ())"
    using run False b bwr file0
    by (auto simp: wal_append_def buffered_def wal_entry_def Let_def set_content_def wal_content_def
        split: if_splits)
  have "?d \<noteq> []" by (rule serialize_entry_nonempty)
  with bufio_write_spec [OF bwr] b content show ?thesis
    by (auto simp: wal_log_def buffered_def)
qed

lemma wal_flush_buffered:
  assumes b: "buffered w" and run: "wal_flush io w = (r, w')"
  shows "buffered w' \<and> w_durable w' = w_durable w \<and> (\<exists>more. wal_content w' = wal_content w @ more)
    \<and> wal_log w' = wal_log w \<and> (b_err (w_writer w) \<longrightarrow> b_err (w_writer w'))
    \<and> (r = Inr () \<longrightarrow> wal_content w' = wal_log w \<and> \<not> b_err (w_writer w'))"
proof -
  obtain ok bw f rm where fl: "bufio_flush (wal_room io w) (w_writer w) (wal_content w) = (ok, bw, f, rm)"
    by (metis prod_cases4)
  from b obtain d0 where file0: "w_file w = Some d0" by (auto simp: buffered_def)
  have content: "wal_content w' = f" "w_writer w' = bw" "w_file w' = Some f" "w_durable w' = w_durable w"
    "w_direct w' = w_direct w" "ok = (r = Inr ())"
    using run b fl file0
    by (auto simp: wal_flush_def buffered_def set_content_def wal_content_def split: if_splits)
  have grow: "\<exists>more. f = wal_content w @ more"
    using bufio_flush_grows [OF fl] .
  have err: "b_err (w_writer w) \<Longrightarrow> b_err bw"
    using fl by (auto simp: bufio_flush_def)
  show ?thesis
    using fl b content grow err
    by (cases ok) (auto simp: wal_log_def buffered_def dest: bufio_flush_ok bufio_flush_fail)
qed

lemma wal_sync_buffered:
  assumes b: "buffered w" and run: "wal_sync io w = (r, w')"
  shows "buffered w' \<and> (\<exists>more. wal_content w' = wal_content w @ more) \<and> wal_log w' = wal_log w
    \<and> (b_err (w_writer w) \<longrightarrow> b_err (w_writer w')) \<and> w_durable w \<le> w_durable w'
    \<and> (r = Inr () \<longrightarrow> wal_content w' = wal_log w \<and> w_durable w' = length (wal_log w)
          \<and> \<not> b_err (w_writer w'))"
proof (cases "w_closed w")
  case True
  with b run show ?thesis by (auto simp: wal_sync_def)
next
  case False
  obtain r1 w1 where fl: "wal_flush io w = (r1, w1)" by force
  note F = wal_flush_buffered [OF b fl]
  have same: "buffered (w1\<lparr>w_durable := length (wal_content w1), w_totalSyncs := n\<rparr>)
      \<and> wal_content (w1\<lparr>w_durable := length (wal_content w1), w_totalSyncs := n\<rparr>) = wal_content w1
      \<and> wal_log (w1\<lparr>w_durable := length (wal_content w1), w_totalSyncs := n\<rparr>) = wal_log w1" for n
    using F by (simp add: buffered_def wal_content_def wal_log_def)
  show ?thesis
  proof (cases r1)
    case (Inl e)
    with False fl run F show ?thesis by (auto simp: wal_sync_def)
  next
    case (Inr u)
    with False fl run have "(r, w') = (if w_open w1 \<and> io_sync_ok io
        then (Inr (), w1\<lparr>w_durable := length (wal_content w1), w_totalSyncs := w_totalSyncs w1 + 1\<rparr>)
        else (Inl (Wrap ''failed to sync file'' (Err ''fsync'')), w1))"
      by (auto simp: wal_sync_def wal_fsync_def)
    moreover have "\<exists>more. wal_log w = wal_content w @ more"
      by (simp add: wal_log_def)
    ultimately show ?thesis
      using F Inr same by (auto simp: buffered_def split: if_splits)
  qed
qed

section \<open>Runs and crashes\<close>

text \<open>
  A run of the log from \<open>w0\<close>: appends and syncs in any order, each with whatever the
  operating system does; the list holds the entries whose append reported success.
\<close>

inductive wal_run :: "wal \<Rightarrow> entry list \<Rightarrow> wal \<Rightarrow> bool" for w0 where
  start: "wal_run w0 [] w0"
| append: "wal_run w0 es w \<Longrightarrow> str_ok key \<Longrightarrow> str_ok value \<Longrightarrow>
     wal_append io now ty key value w = (r, w') \<Longrightarrow>
     wal_run w0 (if r = Inr () then es @ [wal_entry ty key value now] else es) w'"
| sync: "wal_run w0 es w \<Longrightarrow> wal_sync io w = (r, w') \<Longrightarrow> wal_run w0 es w'"

inductive_cases wal_run_elim: "wal_run w0 es w"

text \<open>
  A crash keeps at least the durable part of the file and at most what was written to it:
  any prefix in between can be what is found at the next start.
\<close>

definition crash_image :: "wal \<Rightarrow> bytes \<Rightarrow> bool" where
  "crash_image w d \<longleftrightarrow> (\<exists>k. w_durable w \<le> k \<and> k \<le> length (wal_content w) \<and> d = take k (wal_content w))"

text \<open>
  The invariant of a run: file and buffer hold the acknowledged entries in order, and after
  them at most a part of one entry whose append failed; once that is there the writer's
  sticky error lets nothing follow it.
\<close>

definition log_inv :: "entry list \<Rightarrow> wal \<Rightarrow> bool" where
  "log_inv es w \<longleftrightarrow> buffered w \<and> list_all entry_ok es
     \<and> (\<exists>e k. entry_ok e \<and> k < length (serialize_entry e)
          \<and> wal_log w = log_bytes es @ take k (serialize_entry e) \<and> (k = 0 \<or> b_err (w_writer w)))"

lemma log_inv_new: "log_inv [] (new_wal lane False sz None)"
  by (auto simp: log_inv_def new_wal_buffered)
    (auto simp: new_wal_def wal_log_def wal_content_def new_bufio_def Let_def
      serialize_entry_def intro!: exI [of _ "wal_entry 0 [] [] 0"] exI [of _ 0] simp: str_ok_def)

lemma wal_run_log_inv:
  assumes "wal_run w0 es w" and "log_inv es0 w0"
  shows "log_inv (es0 @ es) w"
  using assms
proof (induction rule: wal_run.induct)
  case start
  then show ?case by simp
next
  case (append es w key "value" io now ty r w')
  let ?n = "wal_entry ty key value now"
  from append have inv: "log_inv (es0 @ es) w" by blast
  then have bw: "buffered w" by (simp add: log_inv_def)
  from inv obtain e k where e: "entry_ok e" "k < length (serialize_entry e)"
    "wal_log w = log_bytes (es0 @ es) @ take k (serialize_entry e)" "k = 0 \<or> b_err (w_writer w)"
    by (auto simp: log_inv_def)
  note A = wal_append_buffered [OF bw append.hyps(4)]
  then obtain j where j: "j \<le> length (serialize_entry ?n)"
    "wal_log w' = wal_log w @ take j (serialize_entry ?n)"
    "r = Inr () \<Longrightarrow> j = length (serialize_entry ?n) \<and> \<not> b_err (w_writer w')"
    "r \<noteq> Inr () \<Longrightarrow> j < length (serialize_entry ?n)
      \<and> (b_err (w_writer w') \<and> (b_err (w_writer w) \<longrightarrow> j = 0) \<or> w' = w \<and> j = 0)"
    by blast
  have ok: "entry_ok ?n" using append by simp
  show ?case
  proof (cases "r = Inr ()")
    case True
    have "\<not> b_err (w_writer w)"
      using True append.hyps(4) bw A
      by (auto simp: wal_append_def buffered_def Let_def bufio_write.simps [of _ _ "w_writer w"]
          split: if_splits prod.splits sum.splits)
    with e have "k = 0" by simp
    with True j e inv A ok show ?thesis
      by (auto simp: log_inv_def serialize_entry_def intro!: exI [of _ ?n] exI [of _ 0])
  next
    case False
    from j(4) [OF False] consider "w' = w" | "b_err (w_writer w')" "b_err (w_writer w)" "j = 0"
      | "b_err (w_writer w')" "\<not> b_err (w_writer w)" by blast
    then show ?thesis
    proof cases
      case 1
      with inv False show ?thesis by simp
    next
      case 2
      with False j e inv A show ?thesis by (auto simp: log_inv_def)
    next
      case 3
      with e have "k = 0" by simp
      with 3 False j e inv A ok show ?thesis by (auto simp: log_inv_def intro!: exI [of _ ?n])
    qed
  qed
next
  case (sync es w io r w')
  from sync have inv: "log_inv (es0 @ es) w" by blast
  then have "buffered w" by (simp add: log_inv_def)
  from wal_sync_buffered [OF this sync.hyps(2)] inv show ?case
    by (auto simp: log_inv_def)
qed

lemma wal_run_durable:
  assumes "wal_run w0 es w" and "log_inv es0 w0"
  shows "w_durable w0 \<le> w_durable w \<and> (\<exists>more. wal_content w = wal_content w0 @ more)"
  using assms
proof (induction rule: wal_run.induct)
  case start
  then show ?case by simp
next
  case (append es w key "value" io now ty r w')
  from wal_run_log_inv [OF append.hyps(1) append.prems] have "buffered w" by (simp add: log_inv_def)
  from wal_append_buffered [OF this append.hyps(4)] append.IH append.prems show ?case by auto
next
  case (sync es w io r w')
  from wal_run_log_inv [OF sync.hyps(1) sync.prems] have "buffered w" by (simp add: log_inv_def)
  from wal_sync_buffered [OF this sync.hyps(2)] sync.IH sync.prems show ?case by auto
qed

text \<open>Any prefix of a log is some whole entries and a part of the next.\<close>

lemma log_prefix:
  assumes "entry_ok e" and "k < length (serialize_entry e)" and "list_all entry_ok es"
  shows "\<exists>m\<le>length es. \<exists>e' j. entry_ok e' \<and> j < length (serialize_entry e')
    \<and> take n (log_bytes es @ take k (serialize_entry e)) = log_bytes (take m es) @ take j (serialize_entry e')"
  using assms(3)
proof (induction es arbitrary: n)
  case Nil
  with assms show ?case
    by (auto simp: take_take intro!: exI [of _ e] exI [of _ "min n k"])
next
  case (Cons a es)
  show ?case
  proof (cases "n < length (serialize_entry a)")
    case True
    with Cons.prems show ?thesis
      by (intro exI [of _ 0] conjI exI [of _ a] exI [of _ n]) auto
  next
    case False
    from Cons obtain m e' j where m: "m \<le> length es" "entry_ok e'" "j < length (serialize_entry e')"
      "take (n - length (serialize_entry a)) (log_bytes es @ take k (serialize_entry e))
         = log_bytes (take m es) @ take j (serialize_entry e')"
      using Cons.IH [of "n - length (serialize_entry a)"] by auto
    with False show ?thesis
      by (intro exI [of _ "Suc m"] conjI exI [of _ e'] exI [of _ j]) auto
  qed
qed

lemma crash_image_entries:
  assumes run1: "wal_run w0 es1 w1" and fresh: "log_inv [] w0"
    and sync: "wal_sync io w1 = (Inr (), w2)" and run2: "wal_run w2 es2 w3"
    and crash: "crash_image w3 d"
  shows "\<exists>m\<le>length es2. \<exists>e j. entry_ok e \<and> j < length (serialize_entry e)
    \<and> list_all entry_ok (es1 @ es2)
    \<and> d = log_bytes (es1 @ take m es2) @ take j (serialize_entry e)"
proof -
  from wal_run_log_inv [OF run1 fresh] have inv1: "log_inv es1 w1" by simp
  then have "buffered w1" by (simp add: log_inv_def)
  note S = wal_sync_buffered [OF this sync]
  from wal_run_log_inv [OF wal_run.sync [OF run1 sync] fresh] have inv2: "log_inv es1 w2" by simp
  then have log2: "wal_log w2 = log_bytes es1"
    using S by (auto simp: log_inv_def)
  from wal_run_log_inv [OF run2 inv2] obtain e k where e: "entry_ok e" "k < length (serialize_entry e)"
    "wal_log w3 = log_bytes (es1 @ es2) @ take k (serialize_entry e)"
    and ok: "list_all entry_ok (es1 @ es2)" by (auto simp: log_inv_def)
  from crash obtain n where n: "w_durable w3 \<le> n" "n \<le> length (wal_content w3)"
    "d = take n (wal_content w3)" by (auto simp: crash_image_def)
  from n(2,3) have d: "d = take n (wal_log w3)" by (simp add: wal_log_def)
  from wal_run_durable [OF run2 inv2] S log2 n(1) have "length (log_bytes es1) \<le> n" by simp
  then have d': "d = log_bytes es1 @ take (n - length (log_bytes es1)) (log_bytes es2 @ take k (serialize_entry e))"
    by (simp add: d e(3))
  from log_prefix [OF e(1,2), of es2 "n - length (log_bytes es1)"] ok
  obtain m e' j where "m \<le> length es2" "entry_ok e'" "j < length (serialize_entry e')"
    "take (n - length (log_bytes es1)) (log_bytes es2 @ take k (serialize_entry e))
       = log_bytes (take m es2) @ take j (serialize_entry e')" by auto
  with d' ok show ?thesis by (intro exI [of _ m] conjI exI [of _ e'] exI [of _ j]) auto
qed

lemma replay_crash_image:
  assumes run1: "wal_run w0 es1 w1" and fresh: "log_inv [] w0"
    and sync: "wal_sync io w1 = (Inr (), w2)" and run2: "wal_run w2 es2 w3"
    and crash: "crash_image w3 d"
  shows "\<exists>m\<le>length es2. case apply_entries fn (es1 @ take m es2) s of
      (Inl e, s') \<Rightarrow> replay_loop fn d s = (Inl e, s')
    | (Inr _, s') \<Rightarrow> snd (replay_loop fn d s) = s'
        \<and> (fst (replay_loop fn d s) = Inr ()
           \<or> fst (replay_loop fn d s) = Inl (Wrap ''failed to deserialize entry'' UnexpectedEOF))"
proof -
  from crash_image_entries [OF assms] obtain m e j where m: "m \<le> length es2" and e: "entry_ok e"
    "j < length (serialize_entry e)" and ok: "list_all entry_ok (es1 @ es2)"
    and d: "d = log_bytes (es1 @ take m es2) @ take j (serialize_entry e)" by blast
  from ok have "list_all entry_ok (es1 @ take m es2)"
    by (auto simp: list_all_iff dest: in_set_takeD)
  from replay_loop_log [OF this, of fn "take j (serialize_entry e)" s] m show ?thesis
    by (intro exI [of _ m]) (auto simp: d replay_loop_torn [OF e] simp del: log_bytes_simps
        split: prod.splits sum.splits)
qed

section \<open>Direct I/O\<close>

text \<open>A block of zeros where an entry should start never reads as one.\<close>

lemma deserialize_zeros:
  assumes "21 \<le> n"
  shows "deserialize_entry (replicate n 0) = Inl (Err ''checksum mismatch'')"
proof -
  let ?z = "wal_entry 0 [] [] 0"
  have enc: "le_enc 4 (0 :: u32) = [0, 0, 0, 0]" "le_enc 8 (0 :: u64) = [0, 0, 0, 0, 0, 0, 0, 0]"
    by (simp_all add: eval_nat_numeral)
  have body: "entry_body ?z = [0, 0, 0, 0, 0, 0, 0, 0, 0, 0, 0, 0, 0, 0, 0, 0, 0]"
    by (simp add: entry_body_def wal_entry_def len32_def enc)
  have crc: "(0 :: u32) \<noteq> crc32 (entry_body ?z)"
    unfolding body by (simp add: crc_eval)
  have "entry_body ?z @ le_enc 4 (0 :: u32) = replicate 21 0"
    unfolding body enc by (simp add: numeral_nat)
  then have "replicate n 0 = entry_body ?z @ le_enc 4 (0 :: u32) @ replicate (n - 21) 0"
    using assms by (metis append.assoc le_add_diff_inverse replicate_add)
  then show ?thesis
    using deserialize_entry_body [of ?z 0 "replicate (n - 21) 0"] crc by (simp add: str_ok_def)
qed

lemma replay_padded:
  assumes "list_all entry_ok es" and "21 \<le> n"
  shows "replay_loop fn (log_bytes es @ replicate n 0) s =
    (case apply_entries fn es s of
       (Inr _, s') \<Rightarrow> (Inl (Wrap ''failed to deserialize entry'' (Err ''checksum mismatch'')), s')
     | (Inl e, s') \<Rightarrow> (Inl e, s'))"
  using replay_loop_log [OF assms(1), of fn "replicate n 0" s]
  by (auto simp: replay_loop.simps [of fn "replicate n 0"] deserialize_zeros [OF assms(2)] wrapE_def
      split: prod.splits sum.splits)

section \<open>Properties\<close>

text \<open>
  C23: The integrity of a log entry.  A written entry reads back as it was, whatever follows it;
  one that is cut short never does (an end of file exactly where a field starts reads as a
  clean end, any other as an unexpected one); and one changed byte, anywhere but in the two
  length fields, is caught by the checksum.
\<close>

theorem wal_entry_integrity:
  assumes "entry_ok e"
  shows "deserialize_entry (serialize_entry e @ rest) = Inr ((sealed e, length (serialize_entry e)), rest)
    \<and> (\<forall>k<length (serialize_entry e). deserialize_entry (take k (serialize_entry e))
          = Inl (if k \<in> set (field_ends e) then EOF else UnexpectedEOF))
    \<and> (\<forall>i<length (serialize_entry e). \<forall>b. i \<in> length_fields e \<or> b = serialize_entry e ! i
        \<or> deserialize_entry ((serialize_entry e)[i := b] @ rest) = Inl (Err ''checksum mismatch''))"
  using deserialize_serialize_entry [OF assms] deserialize_torn [OF assms] deserialize_corrupt [OF assms] by blast

theorem wal_entry_integrity_witness:
  "deserialize_entry ((serialize_entry (wal_entry 1 [7] [8, 9] 3))[0 := 2]) = Inl (Err ''checksum mismatch'')"
proof -
  let ?e = "wal_entry 1 [7] [8, 9] 3"
  have ok: "entry_ok ?e" by (simp add: str_ok_def)
  have "0 < length (serialize_entry ?e)" "0 \<notin> length_fields ?e" "2 \<noteq> serialize_entry ?e ! 0"
    by (simp_all add: length_serialize_entry length_fields_def serialize_entry_def entry_body_def wal_entry_def)
  from conjunct2 [OF conjunct2 [OF wal_entry_integrity [OF ok, of "[]"]], rule_format, OF this(1), of 2] this show ?thesis
    by (simp only: append_Nil2) blast
qed

text \<open>
  C24: A torn log.  Replaying whole entries and a part of one more applies the whole ones in
  order; it then reports success when the cut falls between two fields of the last entry, and
  an error for any other cut, although everything before it was applied.
\<close>

theorem torn_log_replay:
  assumes "list_all entry_ok es" and "entry_ok e" and "k < length (serialize_entry e)"
    and "apply_entries fn es s = (Inr (), s')" and "w_file w = Some (log_bytes es @ take k (serialize_entry e))"
    and "io_open_ok io"
  shows "wal_replay io fn w s =
    (if k \<in> set (field_ends e) then Inr () else Inl (Wrap ''failed to deserialize entry'' UnexpectedEOF), s')"
  using replay_loop_log [OF assms(1), of fn "take k (serialize_entry e)" s] assms(4-6)
  by (simp add: wal_replay_def replay_loop_torn [OF assms(2,3)])

theorem torn_log_replay_witness:
  "wal_replay io_fine (\<lambda>e n. (Inr (), Suc n)) (new_wal 0 False 16
      (Some (log_bytes [wal_entry 1 [7] [8] 3] @ take 2 (serialize_entry (wal_entry 1 [7] [8] 4))))) (0 :: nat)
   = (Inl (Wrap ''failed to deserialize entry'' UnexpectedEOF), 1)"
proof -
  let ?e = "wal_entry 1 [7] [8] 4" and ?es = "[wal_entry 1 [7] [8] 3]"
  have "list_all entry_ok ?es" "entry_ok ?e" by (simp_all add: str_ok_def)
  moreover have "2 < length (serialize_entry ?e)" "2 \<notin> set (field_ends ?e)"
    by (simp_all add: length_serialize_entry field_ends_def wal_entry_def)
  moreover have "apply_entries (\<lambda>e n. (Inr (), Suc n)) ?es 0 = (Inr (), 1)" by simp
  ultimately show ?thesis
    by (subst torn_log_replay [of ?es ?e 2]) (simp_all add: new_wal_def Let_def io_fine_def del: log_bytes_simps)
qed

text \<open>Appending a list of entries (type, key, value, time).\<close>

fun append_all :: "wal_io \<Rightarrow> (byte \<times> bytes \<times> bytes \<times> u64) list \<Rightarrow> wal \<Rightarrow> unit res \<times> wal" where
  "append_all io [] w = (Inr (), w)"
| "append_all io ((ty, key, val, now) # es) w =
     bindS (wal_append io now ty key val w) (\<lambda>_ w. append_all io es w)"

definition entries_of :: "(byte \<times> bytes \<times> bytes \<times> u64) list \<Rightarrow> entry list" where
  "entries_of es = map (\<lambda>(ty, key, val, now). wal_entry ty key val now) es"

lemma append_direct:
  "append_all io es w = (Inr (), w') \<Longrightarrow> w_direct w \<Longrightarrow> \<not> w_closed w \<Longrightarrow>
   ab_data (w_aligned w') = ab_data (w_aligned w) @ log_bytes (entries_of es)
   \<and> w_file w' = w_file w \<and> w_direct w' \<and> \<not> w_closed w'
   \<and> ab_len (w_aligned w') = ab_len (w_aligned w) \<and> ab_blockSize (w_aligned w') = ab_blockSize (w_aligned w)"
proof (induction es arbitrary: w)
  case (Cons x es)
  obtain ty key val now where x: "x = (ty, key, val, now)" by (metis prod_cases4)
  obtain w1 where w1: "wal_append io now ty key val w = (Inr (), w1)" and rest: "append_all io es w1 = (Inr (), w')"
    using Cons.prems(1) by (auto simp: x bindE_iff)
  have "serialize_entry \<lparr>en_Type = ty, en_Key = key, en_Value = val, en_Checksum = 0, en_Timestamp = now\<rparr>
      = serialize_entry (wal_entry ty key val now)" by (simp add: wal_entry_def)
  with w1 Cons.prems(2,3) have "ab_data (w_aligned w1) = ab_data (w_aligned w) @ serialize_entry (wal_entry ty key val now)"
    "w_file w1 = w_file w" "w_direct w1" "\<not> w_closed w1" "ab_len (w_aligned w1) = ab_len (w_aligned w)"
    "ab_blockSize (w_aligned w1) = ab_blockSize (w_aligned w)"
    by (auto simp: wal_append_def ab_write_def Let_def wrapE_def split: if_splits)
  with Cons.IH [OF rest] show ?case by (simp add: x entries_of_def)
qed (simp add: entries_of_def)

lemma aligned_size:
  fixes n b :: nat
  assumes "0 < b"
  shows "((n + b - 1) div b) * b = n + (b - n mod b) mod b"
proof -
  obtain q r where n: "n = q * b + r" "r < b" using assms by (metis div_mult_mod_eq mod_less_divisor)
  show ?thesis
  proof (cases r)
    case 0
    have "q * b + (b - 1) = n + b - 1" using n 0 assms by simp
    then have "(n + b - 1) div b = q" using assms div_mult_self3 [of b q "b - 1"] by simp
    with n 0 show ?thesis by simp
  next
    case (Suc r')
    have "Suc q * b + r' = n + b - 1" using n Suc by simp
    moreover have "(Suc q * b + r') div b = Suc q"
      using n(2) Suc div_mult_self3 [of b "Suc q" r'] by simp
    ultimately have d: "(n + b - 1) div b = Suc q" by simp
    have m: "n mod b = r" using n by simp
    show ?thesis unfolding d m using n Suc by simp
  qed
qed

lemma sync_direct:
  assumes "wal_sync io w = (Inr (), w')" and "w_direct w" and "w_file w = Some f" and "ab_data (w_aligned w) \<noteq> []"
  shows "w_file w' = Some (f @ ab_data (w_aligned w)
    @ replicate (ab_aligned_size (w_aligned w) - length (ab_data (w_aligned w))) 0)"
  using assms
  by (auto simp: wal_sync_def wal_flush_def ab_flush_def wal_fsync_def set_content_def wal_content_def wrapE_def
      dest!: file_write_ok split: if_splits prod.splits)

text \<open>
  C25: Direct I/O makes the log unreadable.  After entries are appended to a fresh log in
  direct-I/O mode and synced, the file holds them and zeros up to the next 512-byte block; when
  the padding is 21 bytes or more, replaying the log applies every entry and then fails, so
  recovery reports an error for a log that was written and synced without one.
\<close>

theorem direct_io_padding_breaks_replay:
  assumes app: "append_all io es (new_wal lane True bufferSize None) = (Inr (), w)" and ne: "es \<noteq> []"
    and sync: "wal_sync io w = (Inr (), w')" and ok: "list_all entry_ok (entries_of es)"
    and pad: "21 \<le> (512 - length (log_bytes (entries_of es)) mod 512) mod 512"
    and run: "apply_entries fn (entries_of es) s = (Inr (), s')" and io: "io_open_ok io'"
  shows "wal_replay io' fn w' s = (Inl (Wrap ''failed to deserialize entry'' (Err ''checksum mismatch'')), s')"
proof -
  let ?log = "log_bytes (entries_of es)" and ?pad = "(512 - length (log_bytes (entries_of es)) mod 512) mod 512"
  have new: "w_direct (new_wal lane True bufferSize None)" "\<not> w_closed (new_wal lane True bufferSize None)"
    by (simp_all add: new_wal_def)
  from append_direct [OF app new] have w: "ab_data (w_aligned w) = ?log" "w_file w = Some []" "w_direct w" "\<not> w_closed w"
    "ab_blockSize (w_aligned w) = 512" by (simp_all add: new_wal_def DirectIOBlockSize_def)
  have "?log \<noteq> []" using ne serialize_entry_nonempty by (cases es) (auto simp: entries_of_def)
  moreover have size: "ab_aligned_size (w_aligned w) = length ?log + ?pad"
    using aligned_size [of 512 "length ?log"] by (simp add: ab_aligned_size_def w)
  ultimately have "w_file w' = Some (?log @ replicate ?pad 0)"
    using sync_direct [OF sync w(3,2)] by (simp only: w(1) size append_Nil add_diff_cancel_left' not_False_eq_True)
  with io replay_padded [OF ok pad, of fn s] run show ?thesis by (simp add: wal_replay_def)
qed

theorem direct_io_padding_breaks_replay_witness:
  "\<exists>w w'. append_all io_fine [(1, [7], [8], 3)] (new_wal 0 True 512 None) = (Inr (), w) \<and> wal_sync io_fine w = (Inr (), w')
     \<and> wal_replay io_fine (\<lambda>e n. (Inr (), Suc n)) w' (0 :: nat)
         = (Inl (Wrap ''failed to deserialize entry'' (Err ''checksum mismatch'')), 1)"
proof -
  let ?es = "[(1 :: byte, [7 :: byte], [8 :: byte], 3 :: u64)]"
  have len: "length (log_bytes (entries_of ?es)) = 23" by (simp add: entries_of_def length_serialize_entry wal_entry_def)
  have "\<exists>w. append_all io_fine ?es (new_wal 0 True 512 None) = (Inr (), w) \<and> w_direct w \<and> \<not> w_closed w \<and> w_open w
      \<and> w_file w = Some [] \<and> ab_aligned_size (w_aligned w) \<le> ab_len (w_aligned w)"
    by (simp add: wal_append_def new_wal_def ab_write_def length_serialize_entry Let_def ab_aligned_size_def DirectIOBlockSize_def)
  then obtain w where w: "append_all io_fine ?es (new_wal 0 True 512 None) = (Inr (), w)" "w_direct w" "\<not> w_closed w"
    "w_open w" "w_file w = Some []" "ab_aligned_size (w_aligned w) \<le> ab_len (w_aligned w)" by blast
  have "\<exists>w'. wal_sync io_fine w = (Inr (), w')"
    using w by (simp add: wal_sync_def wal_flush_def ab_flush_def wal_fsync_def io_fine_def wal_room_def file_write_def)
  then obtain w' where w': "wal_sync io_fine w = (Inr (), w')" by blast
  have "list_all entry_ok (entries_of ?es)" by (simp add: entries_of_def str_ok_def)
  moreover have "apply_entries (\<lambda>e n. (Inr (), Suc n)) (entries_of ?es) 0 = (Inr (), 1)" by (simp add: entries_of_def)
  moreover have "io_open_ok io_fine" by (simp add: io_fine_def)
  ultimately show ?thesis
    using direct_io_padding_breaks_replay [OF w(1) _ w', where fn = "\<lambda>e n. (Inr (), Suc n)" and s = "0 :: nat" and io' = io_fine]
      w(1) w' by (auto simp: len)
qed

end
