(* ===== verification/Write_Lane.thy ===== *)
theory Write_Lane
  imports Memtable Wal "HOL-Library.Multiset"
begin

text \<open>
  \<open>pkg/storage/write_lane.go\<close>: a write lane is a log and three active tables (nodes, edges,
  adjacency) with the frozen tables that came before them.  A write is logged, then applied,
  rotating the tables when one is full; a read looks at the active table and then at the
  frozen ones, newest first; recovery replays the log into fresh tables.

  \<open>RemoveOldMemtable\<close> compares pointers, so a frozen node table carries an identity.  The
  capacity-one flush channel is a flag: whether a signal is pending.
\<close>

section \<open>State and operations\<close>

record lane =
  l_id :: nat
  l_wal :: wal
  l_active :: memtable
  l_activeEdges :: memtable
  l_activeAdj :: memtable
  l_old :: "(nat \<times> memtable) list"
  l_oldEdges :: "memtable list"
  l_oldAdj :: "memtable list"
  l_tables :: nat
  l_memtableSize :: int
  l_flushCh :: bool
  l_stopped :: bool

definition new_write_lane :: "nat \<Rightarrow> int \<Rightarrow> wal \<Rightarrow> lane" where
  "new_write_lane i memtableSize w =
     \<lparr>l_id = i, l_wal = w, l_active = mt_new memtableSize, l_activeEdges = mt_new memtableSize,
      l_activeAdj = mt_new memtableSize, l_old = [], l_oldEdges = [], l_oldAdj = [],
      l_tables = 0, l_memtableSize = memtableSize, l_flushCh = False, l_stopped = False\<rparr>"

definition rotate_memtable :: "lane \<Rightarrow> lane" where
  "rotate_memtable l =
     l\<lparr>l_old := l_old l @ [(l_tables l, mt_freeze (l_active l))],
       l_oldEdges := l_oldEdges l @ [mt_freeze (l_activeEdges l)],
       l_oldAdj := l_oldAdj l @ [mt_freeze (l_activeAdj l)],
       l_tables := Suc (l_tables l),
       l_active := mt_new (l_memtableSize l),
       l_activeEdges := mt_new (l_memtableSize l),
       l_activeAdj := mt_new (l_memtableSize l),
       l_flushCh := True\<rparr>"

definition open_write_lane :: "wal_io \<Rightarrow> nat \<Rightarrow> int \<Rightarrow> wal_config \<Rightarrow> bytes option \<Rightarrow> lane res" where
  \<comment> \<open>\<open>NewWriteLane\<close> with its error path\<close>
  "open_write_lane io i memtableSize walConfig existing =
     bindE (wrapE ''failed to create WAL'' (open_wal io i walConfig existing)) (\<lambda>w.
       Inr (new_write_lane i memtableSize w))"

text \<open>The three in-place updates of an active table.\<close>

definition on_active :: "(memtable \<Rightarrow> unit res \<times> memtable) \<Rightarrow> lane \<Rightarrow> unit res \<times> lane" where
  "on_active f l = (case f (l_active l) of (r, m) \<Rightarrow> (r, l\<lparr>l_active := m\<rparr>))"

definition on_edges :: "(memtable \<Rightarrow> unit res \<times> memtable) \<Rightarrow> lane \<Rightarrow> unit res \<times> lane" where
  "on_edges f l = (case f (l_activeEdges l) of (r, m) \<Rightarrow> (r, l\<lparr>l_activeEdges := m\<rparr>))"

definition on_adj :: "(memtable \<Rightarrow> unit res \<times> memtable) \<Rightarrow> lane \<Rightarrow> unit res \<times> lane" where
  "on_adj f l = (case f (l_activeAdj l) of (r, m) \<Rightarrow> (r, l\<lparr>l_activeAdj := m\<rparr>))"

text \<open>\<open>if err := f(); err != nil { handler }\<close>, and \<open>if err := f(); err != nil { return wrap(err) }\<close>;
  a panic skips the handler.\<close>

definition on_error :: "unit res \<times> lane \<Rightarrow> (lane \<Rightarrow> unit res \<times> lane) \<Rightarrow> (lane \<Rightarrow> unit res \<times> lane)
    \<Rightarrow> unit res \<times> lane" where
  "on_error r handler cont =
     (case r of
        (Inr _, l) \<Rightarrow> cont l
      | (Inl e, l) \<Rightarrow> if is_panic e then (Inl e, l) else handler l)"

definition or_return :: "string \<Rightarrow> unit res \<times> lane \<Rightarrow> (lane \<Rightarrow> unit res \<times> lane) \<Rightarrow> unit res \<times> lane" where
  "or_return msg r cont =
     (case r of (Inr _, l) \<Rightarrow> cont l | (Inl e, l) \<Rightarrow> (wrapE msg (Inl e), l))"

definition log_write :: "wal_io \<Rightarrow> u64 \<Rightarrow> byte \<Rightarrow> bytes \<Rightarrow> bytes \<Rightarrow> lane \<Rightarrow> unit res \<times> lane" where
  "log_write io now ty key value l =
     (case wal_append io now ty key value (l_wal l) of (r, w) \<Rightarrow> (r, l\<lparr>l_wal := w\<rparr>))"

definition check_node_rotation :: "lane \<Rightarrow> unit res \<times> lane" where
  \<comment> \<open>the end of \<open>WriteNode\<close>\<close>
  "check_node_rotation l =
     (Inr (), if mt_size (l_active l) > l_memtableSize l then rotate_memtable l else l)"

definition write_node :: "wal_io \<Rightarrow> u64 \<Rightarrow> node \<Rightarrow> lane \<Rightarrow> unit res \<times> lane" where
  "write_node io now n l =
     (if l_stopped l then (Inl (Err ''write lane is stopped''), l)
      else case wrapE ''failed to serialize node for WAL'' (serialize_node n) of
        Inl e \<Rightarrow> (Inl e, l)
      | Inr nodeData \<Rightarrow>
          or_return ''failed to write to WAL'' (log_write io now EntryTypeNode (n_ID n) nodeData l) (\<lambda>l.
            on_error (on_active (put_node n) l)
              (\<lambda>l. or_return ''failed to write node'' (on_active (put_node n) (rotate_memtable l))
                     check_node_rotation)
              check_node_rotation))"

definition check_edge_rotation :: "lane \<Rightarrow> unit res \<times> lane" where
  \<comment> \<open>the end of \<open>WriteEdge\<close>\<close>
  "check_edge_rotation l =
     (Inr (), if mt_size (l_activeEdges l) > l_memtableSize l \<or> mt_size (l_activeAdj l) > l_memtableSize l
              then rotate_memtable l else l)"

definition add_out :: "edge \<Rightarrow> lane \<Rightarrow> unit res \<times> lane" where
  "add_out e = on_adj (add_outgoing_edge (e_FromNodeID e) (e_ID e))"

definition add_in :: "edge \<Rightarrow> lane \<Rightarrow> unit res \<times> lane" where
  "add_in e = on_adj (add_incoming_edge (e_ToNodeID e) (e_ID e))"

definition update_adjacency :: "edge \<Rightarrow> lane \<Rightarrow> unit res \<times> lane" where
  \<comment> \<open>\<open>WriteEdge\<close> from the comment \<open>Update adjacency lists\<close> on\<close>
  "update_adjacency e l =
     on_error (add_out e l)
       (\<lambda>l. or_return ''failed to rewrite edge after rotation''
               (on_edges (put_edge e) (rotate_memtable l)) (\<lambda>l.
             or_return ''failed to update outgoing adjacency'' (add_out e l) (\<lambda>l.
             or_return ''failed to update incoming adjacency'' (add_in e l) (\<lambda>l.
             (Inr (), l)))))
       (\<lambda>l. or_return ''failed to update incoming adjacency'' (add_in e l) check_edge_rotation)"

definition write_edge :: "wal_io \<Rightarrow> u64 \<Rightarrow> edge \<Rightarrow> lane \<Rightarrow> unit res \<times> lane" where
  "write_edge io now e l =
     (if l_stopped l then (Inl (Err ''write lane is stopped''), l)
      else case wrapE ''failed to serialize edge for WAL'' (serialize_edge e) of
        Inl er \<Rightarrow> (Inl er, l)
      | Inr edgeData \<Rightarrow>
          or_return ''failed to write to WAL'' (log_write io now EntryTypeEdge (e_ID e) edgeData l) (\<lambda>l.
            on_error (on_edges (put_edge e) l)
              (\<lambda>l. or_return ''failed to write edge'' (on_edges (put_edge e) (rotate_memtable l))
                     (update_adjacency e))
              (update_adjacency e)))"

text \<open>The scan of a read: the first table that has the record.\<close>

fun first_found :: "('t \<Rightarrow> 'a res) \<Rightarrow> 't list \<Rightarrow> 'a option" where
  "first_found f [] = None"
| "first_found f (t # ts) = (case f t of Inr x \<Rightarrow> Some x | Inl _ \<Rightarrow> first_found f ts)"

definition read_node :: "lane \<Rightarrow> bytes \<Rightarrow> node res" where
  "read_node l nid =
     (case get_node (l_active l) nid of
        Inr n \<Rightarrow> Inr n
      | Inl _ \<Rightarrow>
          (case first_found (\<lambda>m. get_node m nid) (rev (map snd (l_old l))) of
             Some n \<Rightarrow> Inr n
           | None \<Rightarrow> Inl (Err ''node not found in write lane'')))"

definition read_edge :: "lane \<Rightarrow> bytes \<Rightarrow> edge res" where
  "read_edge l eid =
     (case get_edge (l_activeEdges l) eid of
        Inr e \<Rightarrow> Inr e
      | Inl _ \<Rightarrow>
          (case first_found (\<lambda>m. get_edge m eid) (rev (l_oldEdges l)) of
             Some e \<Rightarrow> Inr e
           | None \<Rightarrow> Inl (Err ''edge not found in write lane'')))"

definition lane_outgoing :: "lane \<Rightarrow> bytes \<Rightarrow> bytes list" where
  "lane_outgoing l nid =
     foldl (\<lambda>edges m. edges @ get_outgoing_edges m nid) (get_outgoing_edges (l_activeAdj l) nid)
       (rev (l_oldAdj l))"

definition lane_incoming :: "lane \<Rightarrow> bytes \<Rightarrow> bytes list" where
  "lane_incoming l nid =
     foldl (\<lambda>edges m. edges @ get_incoming_edges m nid) (get_incoming_edges (l_activeAdj l) nid)
       (rev (l_oldAdj l))"

definition get_old_memtables :: "lane \<Rightarrow> (nat \<times> memtable) list" where
  "get_old_memtables l = l_old l"

fun remove_table :: "nat \<Rightarrow> (nat \<times> memtable) list \<Rightarrow> (nat \<times> memtable) list" where
  "remove_table i [] = []"
| "remove_table i ((j, m) # ts) = (if j = i then ts else (j, m) # remove_table i ts)"

definition remove_old_memtable :: "nat \<Rightarrow> lane \<Rightarrow> lane" where
  "remove_old_memtable i l = l\<lparr>l_old := remove_table i (l_old l)\<rparr>"

definition lane_stop :: "wal_io \<Rightarrow> lane \<Rightarrow> lane" where
  "lane_stop io l =
     (if l_stopped l then l else l\<lparr>l_stopped := True, l_wal := snd (wal_close io (l_wal l))\<rparr>)"

text \<open>
  Recovery of one entry.  The adjacency updates' errors are dropped (a panic is not).
\<close>

definition ignore_error :: "unit res \<times> lane \<Rightarrow> (lane \<Rightarrow> unit res \<times> lane) \<Rightarrow> unit res \<times> lane" where
  "ignore_error r cont = on_error r cont cont"

definition recover_entry :: "entry \<Rightarrow> lane \<Rightarrow> unit res \<times> lane" where
  "recover_entry en l =
     (if en_Type en = EntryTypeNode then
        (case wrapE ''failed to deserialize node'' (deserialize_node (en_Value en)) of
           Inl e \<Rightarrow> (Inl e, l)
         | Inr n \<Rightarrow> on_active (put_node n) l)
      else if en_Type en = EntryTypeEdge then
        (case wrapE ''failed to deserialize edge'' (deserialize_edge (en_Value en)) of
           Inl er \<Rightarrow> (Inl er, l)
         | Inr e \<Rightarrow>
             (case on_edges (put_edge e) l of
                (Inl er, l) \<Rightarrow> (Inl er, l)
              | (Inr _, l) \<Rightarrow>
                  ignore_error (add_out e l) (\<lambda>l. ignore_error (add_in e l) (\<lambda>l. (Inr (), l)))))
      else if en_Type en = EntryTypeDelete then on_active (mt_delete (en_Key en)) l
      else (Inl (Err ''unknown WAL entry type''), l))"

definition lane_recover :: "wal_io \<Rightarrow> lane \<Rightarrow> unit res \<times> lane" where
  "lane_recover io l = wal_replay io recover_entry (l_wal l) l"

definition truncate_wal :: "wal_io \<Rightarrow> lane \<Rightarrow> unit res \<times> lane" where
  "truncate_wal io l = (case wal_truncate io (l_wal l) of (r, w) \<Rightarrow> (r, l\<lparr>l_wal := w\<rparr>))"

record lane_stats =
  ls_ID :: nat
  ls_ActiveSize :: int
  ls_ActiveCount :: int
  ls_OldMemtableCount :: nat
  ls_TotalSize :: int
  ls_WALStats :: wal_stats

definition stats_of_lane :: "lane \<Rightarrow> lane_stats" where
  "stats_of_lane l =
     \<lparr>ls_ID = l_id l, ls_ActiveSize = mt_size (l_active l), ls_ActiveCount = mt_count (l_active l),
      ls_OldMemtableCount = length (l_old l),
      ls_TotalSize = foldl (\<lambda>t (_, m). t + mt_size m) (mt_size (l_active l)) (l_old l),
      ls_WALStats = stats_of_wal (l_wal l)\<rparr>"

section \<open>Layers of tables\<close>

text \<open>
  Reading through an active table and frozen ones: what a fresh table, a freeze and a put
  into the active table do to the result.
\<close>

locale layered_table =
  record_table ser deser wire good get put ident key put_rec get_rec e_ser e_missing e_deleted
  for ser :: "'a \<Rightarrow> bytes res" and deser wire good
    and get :: "'s \<Rightarrow> bytes \<Rightarrow> slice \<times> bool" and put ident key put_rec get_rec
    and e_ser e_missing e_deleted :: string +
  fixes fresh :: 's and freeze :: "'s \<Rightarrow> 's"
  assumes get_fresh: "get fresh k = (None, False)"
    and get_freeze: "get (freeze s) k = get s k"
begin

lemma found_fresh: "first_found (\<lambda>m. get_rec m i) (fresh # ts) = first_found (\<lambda>m. get_rec m i) ts"
  by (simp add: get_rec_eq get_fresh)

lemma found_freeze:
  "first_found (\<lambda>m. get_rec m i) (freeze s # ts) = first_found (\<lambda>m. get_rec m i) (s # ts)"
  by (simp add: get_rec_eq get_freeze)

lemma found_put:
  assumes "good x" and "put_rec x s = (Inr (), s')"
  shows "first_found (\<lambda>m. get_rec m i) (s' # ts) =
    (if i = ident x then Some (wire x) else first_found (\<lambda>m. get_rec m i) (s # ts))"
  using read_own_write [OF assms] other_records [OF assms(2), of i] by auto

end

interpretation node_layers: layered_table serialize_node deserialize_node wire_node node_ok
  mt_get mt_put n_ID node_key put_node get_node
  "''failed to serialize node''" "''node not found''" "''node deleted''" "mt_new sz" mt_freeze for sz
  by unfold_locales simp_all

interpretation edge_layers: layered_table serialize_edge deserialize_edge wire_edge edge_ok
  mt_get mt_put e_ID edge_key put_edge get_edge
  "''failed to serialize edge''" "''edge not found''" "''edge deleted''" "mt_new sz" mt_freeze for sz
  by unfold_locales simp_all

section \<open>What a lane stores\<close>

text \<open>
  The abstract state of a lane: the nodes and edges a read finds, and the adjacency lists as
  multisets (their order depends on when the tables rotated).
\<close>

definition node_view :: "lane \<Rightarrow> bytes \<rightharpoonup> node" where
  "node_view l i = first_found (\<lambda>m. get_node m i) (l_active l # rev (map snd (l_old l)))"

definition edge_view :: "lane \<Rightarrow> bytes \<rightharpoonup> edge" where
  "edge_view l i = first_found (\<lambda>m. get_edge m i) (l_activeEdges l # rev (l_oldEdges l))"

definition adj_tables :: "lane \<Rightarrow> memtable list" where
  "adj_tables l = l_activeAdj l # rev (l_oldAdj l)"

definition out_view :: "lane \<Rightarrow> bytes \<Rightarrow> bytes multiset" where
  "out_view l i = mset (lane_outgoing l i)"

definition in_view :: "lane \<Rightarrow> bytes \<Rightarrow> bytes multiset" where
  "in_view l i = mset (lane_incoming l i)"

definition lane_wf :: "lane \<Rightarrow> bool" where
  "lane_wf l \<longleftrightarrow> list_all adj_wf (adj_tables l)"

lemma read_node_view:
  "read_node l i = (case node_view l i of Some n \<Rightarrow> Inr n
     | None \<Rightarrow> Inl (Err ''node not found in write lane''))"
  by (simp add: read_node_def node_view_def split: sum.splits)

lemma read_edge_view:
  "read_edge l i = (case edge_view l i of Some e \<Rightarrow> Inr e
     | None \<Rightarrow> Inl (Err ''edge not found in write lane''))"
  by (simp add: read_edge_def edge_view_def split: sum.splits)

lemma foldl_append: "foldl (\<lambda>xs m. xs @ f m) xs ms = xs @ concat (map f ms)"
  by (induction ms arbitrary: xs) auto

lemma lane_outgoing_concat: "lane_outgoing l i = concat (map (\<lambda>m. get_outgoing_edges m i) (adj_tables l))"
  by (simp add: lane_outgoing_def adj_tables_def foldl_append)

lemma lane_incoming_concat: "lane_incoming l i = concat (map (\<lambda>m. get_incoming_edges m i) (adj_tables l))"
  by (simp add: lane_incoming_def adj_tables_def foldl_append)

text \<open>\<open>same_store l l'\<close>: every read gives the same in both.\<close>

definition same_store :: "lane \<Rightarrow> lane \<Rightarrow> bool" where
  "same_store l l' \<longleftrightarrow> node_view l' = node_view l \<and> edge_view l' = edge_view l
     \<and> out_view l' = out_view l \<and> in_view l' = in_view l \<and> lane_wf l' = lane_wf l"

lemma same_store_refl [simp]: "same_store l l"
  by (simp add: same_store_def)

lemma same_store_trans: "same_store l l' \<Longrightarrow> same_store l' l'' \<Longrightarrow> same_store l l''"
  by (simp add: same_store_def)

lemma same_store_wal [simp]: "same_store l (l\<lparr>l_wal := w\<rparr>)"
  by (simp add: same_store_def node_view_def edge_view_def out_view_def in_view_def lane_wf_def
      adj_tables_def fun_eq_iff lane_outgoing_concat lane_incoming_concat)

lemma get_edges_new [simp]:
  "get_outgoing_edges (mt_new sz) i = []" "get_incoming_edges (mt_new sz) i = []"
  by (simp_all add: get_outgoing_edges_def get_incoming_edges_def)

lemma get_edges_freeze [simp]:
  "get_outgoing_edges (mt_freeze m) i = get_outgoing_edges m i"
  "get_incoming_edges (mt_freeze m) i = get_incoming_edges m i"
  by (simp_all add: get_outgoing_edges_def get_incoming_edges_def)

lemma adj_wf_freeze [simp]: "adj_wf (mt_freeze m) = adj_wf m"
  by (simp add: adj_wf_def adj_value_def)

lemma rotate_tables:
  "l_active (rotate_memtable l) = mt_new (l_memtableSize l)"
  "l_activeEdges (rotate_memtable l) = mt_new (l_memtableSize l)"
  "l_activeAdj (rotate_memtable l) = mt_new (l_memtableSize l)"
  "rev (map snd (l_old (rotate_memtable l))) = mt_freeze (l_active l) # rev (map snd (l_old l))"
  "rev (l_oldEdges (rotate_memtable l)) = mt_freeze (l_activeEdges l) # rev (l_oldEdges l)"
  "rev (l_oldAdj (rotate_memtable l)) = mt_freeze (l_activeAdj l) # rev (l_oldAdj l)"
  by (simp_all add: rotate_memtable_def)

lemma rotate_same_store: "same_store l (rotate_memtable l)"
proof -
  have "node_view (rotate_memtable l) = node_view l"
    by (rule ext) (simp only: node_view_def rotate_tables node_layers.found_fresh node_layers.found_freeze)
  moreover have "edge_view (rotate_memtable l) = edge_view l"
    by (rule ext) (simp only: edge_view_def rotate_tables edge_layers.found_fresh edge_layers.found_freeze)
  ultimately show ?thesis
    by (simp add: same_store_def out_view_def in_view_def lane_wf_def adj_tables_def
        lane_outgoing_concat lane_incoming_concat rotate_tables adj_wf_new fun_eq_iff)
qed

lemma rotate_frame [simp]:
  "l_wal (rotate_memtable l) = l_wal l" "l_stopped (rotate_memtable l) = l_stopped l"
  "l_memtableSize (rotate_memtable l) = l_memtableSize l" "l_id (rotate_memtable l) = l_id l"
  by (simp_all add: rotate_memtable_def)

section \<open>Effects of the table updates\<close>

text \<open>\<open>lane_frame l l'\<close>: the fields only the log and \<open>Stop\<close> change.\<close>

definition lane_frame :: "lane \<Rightarrow> lane \<Rightarrow> bool" where
  "lane_frame l l' \<longleftrightarrow> l_wal l' = l_wal l \<and> l_stopped l' = l_stopped l
     \<and> l_memtableSize l' = l_memtableSize l \<and> l_id l' = l_id l"

lemma lane_frame_refl [simp]: "lane_frame l l"
  by (simp add: lane_frame_def)

lemma lane_frame_trans: "lane_frame l l' \<Longrightarrow> lane_frame l' l'' \<Longrightarrow> lane_frame l l''"
  by (simp add: lane_frame_def)

lemma rotate_lane_frame [simp]: "lane_frame l (rotate_memtable l)"
  by (simp add: lane_frame_def)

lemma put_node_Err: "put_node n m = (Inl e, m') \<Longrightarrow> \<not> is_panic e \<Longrightarrow> m' = m"
  by (auto simp: put_node_def split: sum.splits dest: mt_put_Err)

lemma put_edge_Err: "put_edge x m = (Inl e, m') \<Longrightarrow> \<not> is_panic e \<Longrightarrow> m' = m"
  by (auto simp: put_edge_def split: sum.splits dest: mt_put_Err)

lemma on_active_Err: "on_active (put_node n) l = (Inl e, l') \<Longrightarrow> \<not> is_panic e \<Longrightarrow> l' = l"
  by (auto simp: on_active_def split: prod.splits dest!: put_node_Err)

lemma on_edges_Err: "on_edges (put_edge x) l = (Inl e, l') \<Longrightarrow> \<not> is_panic e \<Longrightarrow> l' = l"
  by (auto simp: on_edges_def split: prod.splits dest!: put_edge_Err)

lemma add_out_Err: "add_out x l = (Inl e, l') \<Longrightarrow> \<not> is_panic e \<Longrightarrow> l' = l"
  by (auto simp: add_out_def on_adj_def add_outgoing_edge_eq split: prod.splits dest!: mt_put_Err)

lemma add_in_Err: "add_in x l = (Inl e, l') \<Longrightarrow> \<not> is_panic e \<Longrightarrow> l' = l"
  by (auto simp: add_in_def on_adj_def add_incoming_edge_eq split: prod.splits dest!: mt_put_Err)

lemma on_active_ok:
  assumes "on_active (put_node n) l = (Inr u, l')" and "node_ok n"
  shows "node_view l' = (node_view l)(n_ID n \<mapsto> wire_node n)" "edge_view l' = edge_view l"
    "out_view l' = out_view l" "in_view l' = in_view l" "lane_wf l' = lane_wf l" "lane_frame l l'"
proof -
  from assms obtain m where m: "put_node n (l_active l) = (Inr (), m)" and l': "l' = l\<lparr>l_active := m\<rparr>"
    by (auto simp: on_active_def split: prod.splits)
  show "node_view l' = (node_view l)(n_ID n \<mapsto> wire_node n)"
    unfolding node_view_def l' using node_layers.found_put [OF assms(2) m] by (auto simp del: first_found.simps)
qed (use assms in \<open>auto simp: on_active_def edge_view_def out_view_def in_view_def lane_wf_def
      adj_tables_def lane_outgoing_concat lane_incoming_concat lane_frame_def fun_eq_iff
      simp del: first_found.simps split: prod.splits\<close>)

lemma on_edges_ok:
  assumes "on_edges (put_edge e) l = (Inr u, l')" and "edge_ok e"
  shows "edge_view l' = (edge_view l)(e_ID e \<mapsto> wire_edge e)" "node_view l' = node_view l"
    "out_view l' = out_view l" "in_view l' = in_view l" "lane_wf l' = lane_wf l" "lane_frame l l'"
proof -
  from assms obtain m where m: "put_edge e (l_activeEdges l) = (Inr (), m)"
    and l': "l' = l\<lparr>l_activeEdges := m\<rparr>"
    by (auto simp: on_edges_def split: prod.splits)
  show "edge_view l' = (edge_view l)(e_ID e \<mapsto> wire_edge e)"
    unfolding edge_view_def l' using edge_layers.found_put [OF assms(2) m] by (auto simp del: first_found.simps)
qed (use assms in \<open>auto simp: on_edges_def node_view_def out_view_def in_view_def lane_wf_def
      adj_tables_def lane_outgoing_concat lane_incoming_concat lane_frame_def fun_eq_iff
      simp del: first_found.simps split: prod.splits\<close>)

lemma add_out_ok:
  assumes "add_out e l = (Inr u, l')" and "lane_wf l" and "edge_id_ok (e_ID e)"
  shows "out_view l' = (out_view l)(e_FromNodeID e := out_view l (e_FromNodeID e) + {#e_ID e#})"
    "in_view l' = in_view l" "lane_wf l'" "node_view l' = node_view l" "edge_view l' = edge_view l"
    "lane_frame l l'"
proof -
  from assms obtain m where m: "add_outgoing_edge (e_FromNodeID e) (e_ID e) (l_activeAdj l) = (Inr (), m)"
    and l': "l' = l\<lparr>l_activeAdj := m\<rparr>"
    by (auto simp: add_out_def on_adj_def split: prod.splits)
  from assms(2) have "adj_wf (l_activeAdj l)" by (simp add: lane_wf_def adj_tables_def)
  note A = add_outgoing_edge_ok [OF this assms(3) m]
  show "out_view l' = (out_view l)(e_FromNodeID e := out_view l (e_FromNodeID e) + {#e_ID e#})"
    "in_view l' = in_view l" "lane_wf l'"
    using A assms(2)
    by (auto simp: l' out_view_def in_view_def lane_wf_def adj_tables_def lane_outgoing_concat
        lane_incoming_concat fun_eq_iff)
qed (use assms in \<open>auto simp: add_out_def on_adj_def node_view_def edge_view_def lane_frame_def
      fun_eq_iff simp del: first_found.simps split: prod.splits\<close>)

lemma add_in_ok:
  assumes "add_in e l = (Inr u, l')" and "lane_wf l" and "edge_id_ok (e_ID e)"
  shows "in_view l' = (in_view l)(e_ToNodeID e := in_view l (e_ToNodeID e) + {#e_ID e#})"
    "out_view l' = out_view l" "lane_wf l'" "node_view l' = node_view l" "edge_view l' = edge_view l"
    "lane_frame l l'"
proof -
  from assms obtain m where m: "add_incoming_edge (e_ToNodeID e) (e_ID e) (l_activeAdj l) = (Inr (), m)"
    and l': "l' = l\<lparr>l_activeAdj := m\<rparr>"
    by (auto simp: add_in_def on_adj_def split: prod.splits)
  from assms(2) have "adj_wf (l_activeAdj l)" by (simp add: lane_wf_def adj_tables_def)
  note A = add_incoming_edge_ok [OF this assms(3) m]
  show "in_view l' = (in_view l)(e_ToNodeID e := in_view l (e_ToNodeID e) + {#e_ID e#})"
    "out_view l' = out_view l" "lane_wf l'"
    using A assms(2)
    by (auto simp: l' out_view_def in_view_def lane_wf_def adj_tables_def lane_outgoing_concat
        lane_incoming_concat fun_eq_iff)
qed (use assms in \<open>auto simp: add_in_def on_adj_def node_view_def edge_view_def lane_frame_def
      fun_eq_iff simp del: first_found.simps split: prod.splits\<close>)

section \<open>Effects of a write\<close>

lemma or_return_Inr [bindE_iff]:
  "or_return msg r cont = (Inr u, l') \<longleftrightarrow> (\<exists>v l1. r = (Inr v, l1) \<and> cont l1 = (Inr u, l'))"
  by (cases r; cases "fst r") (auto simp: or_return_def wrapE_def split: go_error.splits)

lemma or_return_Inl:
  "or_return msg r cont = (Inl e, l') \<longleftrightarrow>
     (\<exists>v l1. r = (Inr v, l1) \<and> cont l1 = (Inl e, l'))
     \<or> (\<exists>e1. r = (Inl e1, l') \<and> wrapE msg (Inl e1 :: unit res) = Inl e)"
  by (cases r; cases "fst r") (auto simp: or_return_def)

lemma wrapE_Inl_panic: "wrapE msg (Inl e1 :: 'a res) = Inl e \<Longrightarrow> is_panic e = is_panic e1"
  by (cases e1) (auto simp: wrapE_def)

lemma on_error_Inr [bindE_iff]:
  "on_error r h c = (Inr u, l') \<longleftrightarrow>
     (\<exists>v l1. r = (Inr v, l1) \<and> c l1 = (Inr u, l'))
     \<or> (\<exists>e l1. r = (Inl e, l1) \<and> \<not> is_panic e \<and> h l1 = (Inr u, l'))"
  by (cases r; cases "fst r") (auto simp: on_error_def)

lemma on_error_Inl:
  "on_error r h c = (Inl e, l') \<longleftrightarrow>
     (\<exists>v l1. r = (Inr v, l1) \<and> c l1 = (Inl e, l'))
     \<or> (\<exists>e1 l1. r = (Inl e1, l1) \<and> \<not> is_panic e1 \<and> h l1 = (Inl e, l'))
     \<or> r = (Inl e, l') \<and> is_panic e"
  by (cases r; cases "fst r") (auto simp: on_error_def split: if_splits)

lemma check_rotation_store:
  "check_node_rotation l = (r, l') \<Longrightarrow> same_store l l' \<and> lane_frame l l' \<and> r = Inr ()"
  "check_edge_rotation l = (r, l') \<Longrightarrow> same_store l l' \<and> lane_frame l l' \<and> r = Inr ()"
  by (auto simp: check_node_rotation_def check_edge_rotation_def rotate_same_store split: if_splits)

lemma log_write_store:
  "log_write io now ty key value l = (r, l') \<Longrightarrow>
   same_store l l' \<and> l' = l\<lparr>l_wal := l_wal l'\<rparr>
   \<and> wal_append io now ty key value (l_wal l) = (r, l_wal l')"
  by (auto simp: log_write_def split: prod.splits)

lemma same_store_node_put:
  assumes "same_store l1 l2" and "on_active (put_node n) l2 = (Inr u, l3)" and "node_ok n"
  shows "node_view l3 = (node_view l1)(n_ID n \<mapsto> wire_node n) \<and> edge_view l3 = edge_view l1
    \<and> out_view l3 = out_view l1 \<and> in_view l3 = in_view l1 \<and> lane_wf l3 = lane_wf l1"
  using on_active_ok [OF assms(2,3)] assms(1) by (simp add: same_store_def)

lemma put_node_step:
  assumes "on_error (on_active (put_node n) l1)
    (\<lambda>l. or_return msg (on_active (put_node n) (rotate_memtable l)) c) c = (Inr u, l')"
  obtains l2 l3 where "same_store l1 l2" "lane_frame l1 l2"
    "on_active (put_node n) l2 = (Inr (), l3)" "c l3 = (Inr u, l')"
proof -
  from assms consider l3 where "on_active (put_node n) l1 = (Inr (), l3)" "c l3 = (Inr u, l')"
    | l3 where "on_active (put_node n) (rotate_memtable l1) = (Inr (), l3)" "c l3 = (Inr u, l')"
    by (auto simp: bindE_iff dest!: on_active_Err)
  then show thesis
    using that same_store_refl lane_frame_refl rotate_same_store rotate_lane_frame by cases blast+
qed

lemma put_edge_step:
  assumes "on_error (on_edges (put_edge e) l1)
    (\<lambda>l. or_return msg (on_edges (put_edge e) (rotate_memtable l)) c) c = (Inr u, l')"
  obtains l2 l3 where "same_store l1 l2" "lane_frame l1 l2"
    "on_edges (put_edge e) l2 = (Inr (), l3)" "c l3 = (Inr u, l')"
proof -
  from assms consider l3 where "on_edges (put_edge e) l1 = (Inr (), l3)" "c l3 = (Inr u, l')"
    | l3 where "on_edges (put_edge e) (rotate_memtable l1) = (Inr (), l3)" "c l3 = (Inr u, l')"
    by (auto simp: bindE_iff dest!: on_edges_Err)
  then show thesis
    using that same_store_refl lane_frame_refl rotate_same_store rotate_lane_frame by cases blast+
qed

lemma wal_only_size: "l' = l\<lparr>l_wal := w\<rparr> \<Longrightarrow> l_memtableSize l' = l_memtableSize l"
  by simp

lemma write_node_ok:
  assumes run: "write_node io now n l = (Inr u, l')" and ok: "node_ok n"
  shows "node_view l' = (node_view l)(n_ID n \<mapsto> wire_node n)" "edge_view l' = edge_view l"
    "out_view l' = out_view l" "in_view l' = in_view l" "lane_wf l' = lane_wf l"
    "l_memtableSize l' = l_memtableSize l"
    "\<exists>bs. serialize_node n = Inr bs
       \<and> wal_append io now EntryTypeNode (n_ID n) bs (l_wal l) = (Inr (), l_wal l')"
proof -
  from run obtain bs l1 where bs: "serialize_node n = Inr bs"
    and log: "log_write io now EntryTypeNode (n_ID n) bs l = (Inr (), l1)"
    and rest: "on_error (on_active (put_node n) l1)
      (\<lambda>l. or_return ''failed to write node'' (on_active (put_node n) (rotate_memtable l)) check_node_rotation)
      check_node_rotation = (Inr u, l')"
    by (auto simp: write_node_def bindE_iff split: if_splits sum.splits)
  note L = log_write_store [OF log]
  obtain l2 l3 where l2: "same_store l1 l2" "lane_frame l1 l2"
    and l3: "on_active (put_node n) l2 = (Inr (), l3)" and fin: "check_node_rotation l3 = (Inr u, l')"
    using put_node_step [OF rest] .
  note P = same_store_node_put [OF same_store_trans [OF conjunct1 [OF L] l2(1)] l3 ok]
  note F = check_rotation_store(1) [OF fin]
  show "node_view l' = (node_view l)(n_ID n \<mapsto> wire_node n)" "edge_view l' = edge_view l"
    "out_view l' = out_view l" "in_view l' = in_view l" "lane_wf l' = lane_wf l"
    using P F by (simp_all add: same_store_def)
  have frame: "lane_frame l1 l'"
    using F l2 on_active_ok(6) [OF l3 ok] by (blast intro: lane_frame_trans)
  from L have "l_memtableSize l1 = l_memtableSize l" by (blast intro: wal_only_size)
  with frame show "l_memtableSize l' = l_memtableSize l" by (simp add: lane_frame_def)
  show "\<exists>bs. serialize_node n = Inr bs
       \<and> wal_append io now EntryTypeNode (n_ID n) bs (l_wal l) = (Inr (), l_wal l')"
    using bs L frame by (auto simp: lane_frame_def)
qed

text \<open>A write that fails leaves every read as it was.\<close>

lemma write_node_Err:
  assumes run: "write_node io now n l = (Inl e, l')" and "\<not> is_panic e"
  shows "same_store l l'"
proof -
  have put: "l2 = l1" if "on_active (put_node n) l1 = (Inl e1, l2)" "\<not> is_panic e1" for l1 l2 e1
    using on_active_Err [OF that] .
  from run consider "l' = l" | bs e' where "log_write io now EntryTypeNode (n_ID n) bs l = (Inl e', l')"
    | bs l1 where "log_write io now EntryTypeNode (n_ID n) bs l = (Inr (), l1)"
      "on_error (on_active (put_node n) l1)
        (\<lambda>l. or_return ''failed to write node'' (on_active (put_node n) (rotate_memtable l)) check_node_rotation)
        check_node_rotation = (Inl e, l')"
    by (auto simp: write_node_def or_return_Inl split: if_splits sum.splits)
  then show ?thesis
  proof cases
    case 1
    then show ?thesis by simp
  next
    case 2
    then show ?thesis by (blast dest: log_write_store)
  next
    case 3
    from 3(2) assms(2) have "l' = rotate_memtable l1"
      by (auto simp: on_error_Inl or_return_Inl dest!: put check_rotation_store dest: wrapE_Inl_panic)
    with 3(1) show ?thesis
      by (blast dest: log_write_store intro: same_store_trans rotate_same_store)
  qed
qed

lemma update_adjacency_ok:
  assumes run: "update_adjacency e l = (Inr u, l')" and wf: "lane_wf l"
    and ok: "edge_ok e" "edge_id_ok (e_ID e)" and stored: "edge_view l (e_ID e) = Some (wire_edge e)"
  shows "node_view l' = node_view l \<and> edge_view l' = edge_view l
    \<and> out_view l' = (out_view l)(e_FromNodeID e := out_view l (e_FromNodeID e) + {#e_ID e#})
    \<and> in_view l' = (in_view l)(e_ToNodeID e := in_view l (e_ToNodeID e) + {#e_ID e#})
    \<and> lane_wf l' \<and> lane_frame l l'"
proof -
  from run consider l1 l2 where "add_out e l = (Inr (), l1)" "add_in e l1 = (Inr (), l2)"
      "check_edge_rotation l2 = (Inr u, l')"
    | l1 l2 where "on_edges (put_edge e) (rotate_memtable l) = (Inr (), l1)"
      "add_out e l1 = (Inr (), l2)" "add_in e l2 = (Inr (), l')"
    by (auto simp: update_adjacency_def bindE_iff dest!: add_out_Err)
  then show ?thesis
  proof cases
    case 1
    note A = add_out_ok [OF 1(1) wf ok(2)]
    note B = add_in_ok [OF 1(2) A(3) ok(2)]
    from A B check_rotation_store(2) [OF 1(3)] show ?thesis
      by (auto simp: same_store_def intro: lane_frame_trans)
  next
    case 2
    note R = rotate_same_store [of l]
    note P = on_edges_ok [OF 2(1) ok(1)]
    from R P wf have "lane_wf l1" by (simp add: same_store_def)
    note A = add_out_ok [OF 2(2) this ok(2)]
    note B = add_in_ok [OF 2(3) A(3) ok(2)]
    from R P A B stored show ?thesis
      by (auto simp: same_store_def fun_eq_iff intro: lane_frame_trans [OF rotate_lane_frame]
          lane_frame_trans)
  qed
qed

lemma write_edge_ok:
  assumes run: "write_edge io now e l = (Inr u, l')" and wf: "lane_wf l"
    and ok: "edge_ok e" "edge_id_ok (e_ID e)"
  shows "edge_view l' = (edge_view l)(e_ID e \<mapsto> wire_edge e)" "node_view l' = node_view l"
    "out_view l' = (out_view l)(e_FromNodeID e := out_view l (e_FromNodeID e) + {#e_ID e#})"
    "in_view l' = (in_view l)(e_ToNodeID e := in_view l (e_ToNodeID e) + {#e_ID e#})"
    "lane_wf l'" "l_memtableSize l' = l_memtableSize l"
    "\<exists>bs. serialize_edge e = Inr bs
       \<and> wal_append io now EntryTypeEdge (e_ID e) bs (l_wal l) = (Inr (), l_wal l')"
proof -
  from run obtain bs l1 where bs: "serialize_edge e = Inr bs"
    and log: "log_write io now EntryTypeEdge (e_ID e) bs l = (Inr (), l1)"
    and rest: "on_error (on_edges (put_edge e) l1)
      (\<lambda>l. or_return ''failed to write edge'' (on_edges (put_edge e) (rotate_memtable l)) (update_adjacency e))
      (update_adjacency e) = (Inr u, l')"
    by (auto simp: write_edge_def bindE_iff split: if_splits sum.splits)
  note L = log_write_store [OF log]
  obtain l2 l3 where l2: "same_store l1 l2" "lane_frame l1 l2"
    and l3: "on_edges (put_edge e) l2 = (Inr (), l3)" and fin: "update_adjacency e l3 = (Inr u, l')"
    using put_edge_step [OF rest] .
  note P = on_edges_ok [OF l3 ok(1)]
  have S: "same_store l l2" using L l2 by (blast intro: same_store_trans)
  with P wf have "lane_wf l3" "edge_view l3 (e_ID e) = Some (wire_edge e)" by (simp_all add: same_store_def)
  note U = update_adjacency_ok [OF fin this(1) ok this(2)]
  show "edge_view l' = (edge_view l)(e_ID e \<mapsto> wire_edge e)" "node_view l' = node_view l"
    "out_view l' = (out_view l)(e_FromNodeID e := out_view l (e_FromNodeID e) + {#e_ID e#})"
    "in_view l' = (in_view l)(e_ToNodeID e := in_view l (e_ToNodeID e) + {#e_ID e#})" "lane_wf l'"
    using S P U by (simp_all add: same_store_def)
  have frame: "lane_frame l1 l'"
    using l2 P U by (blast intro: lane_frame_trans)
  from L have "l_memtableSize l1 = l_memtableSize l" by (blast intro: wal_only_size)
  with frame show "l_memtableSize l' = l_memtableSize l" by (simp add: lane_frame_def)
  show "\<exists>bs. serialize_edge e = Inr bs
       \<and> wal_append io now EntryTypeEdge (e_ID e) bs (l_wal l) = (Inr (), l_wal l')"
    using bs L frame by (auto simp: lane_frame_def)
qed

end
