(* ===== verification/Recovery.thy ===== *)
theory Recovery
  imports Write_Lane
begin

text \<open>
  Recovery of a lane (\<open>WriteLane.Recover\<close> over \<open>WAL.Replay\<close>) against the abstract store the
  acknowledged writes build: the four views of a lane and what each write does to them.
\<close>

section \<open>The abstract store\<close>

record store =
  st_nodes :: "bytes \<rightharpoonup> node"
  st_edges :: "bytes \<rightharpoonup> edge"
  st_out :: "bytes \<Rightarrow> bytes multiset"
  st_in :: "bytes \<Rightarrow> bytes multiset"

datatype update = WNode node | WEdge edge

definition empty_store :: store where
  "empty_store = \<lparr>st_nodes = Map.empty, st_edges = Map.empty, st_out = (\<lambda>_. {#}), st_in = (\<lambda>_. {#})\<rparr>"

fun apply_write :: "update \<Rightarrow> store \<Rightarrow> store" where
  "apply_write (WNode n) s = s\<lparr>st_nodes := (st_nodes s)(n_ID n \<mapsto> wire_node n)\<rparr>"
| "apply_write (WEdge e) s =
     s\<lparr>st_edges := (st_edges s)(e_ID e \<mapsto> wire_edge e),
       st_out := (st_out s)(e_FromNodeID e := st_out s (e_FromNodeID e) + {#e_ID e#}),
       st_in := (st_in s)(e_ToNodeID e := st_in s (e_ToNodeID e) + {#e_ID e#})\<rparr>"

definition lane_store :: "lane \<Rightarrow> store" where
  "lane_store l = \<lparr>st_nodes = node_view l, st_edges = edge_view l, st_out = out_view l, st_in = in_view l\<rparr>"

fun do_write :: "wal_io \<Rightarrow> u64 \<Rightarrow> update \<Rightarrow> lane \<Rightarrow> unit res \<times> lane" where
  "do_write io now (WNode n) l = write_node io now n l"
| "do_write io now (WEdge e) l = write_edge io now e l"

fun write_data :: "update \<Rightarrow> bytes res" where
  "write_data (WNode n) = serialize_node n"
| "write_data (WEdge e) = serialize_edge e"

fun write_key :: "update \<Rightarrow> bytes" where
  "write_key (WNode n) = n_ID n"
| "write_key (WEdge e) = e_ID e"

fun write_type :: "update \<Rightarrow> byte" where
  "write_type (WNode n) = EntryTypeNode"
| "write_type (WEdge e) = EntryTypeEdge"

definition data_of :: "update \<Rightarrow> bytes" where
  "data_of w = (case write_data w of Inl _ \<Rightarrow> [] | Inr bs \<Rightarrow> bs)"

definition write_entry :: "u64 \<Rightarrow> update \<Rightarrow> entry" where
  "write_entry now w = wal_entry (write_type w) (write_key w) (data_of w) now"

fun write_ok :: "update \<Rightarrow> bool" where
  "write_ok (WNode n) \<longleftrightarrow> node_ok n \<and> str_ok (data_of (WNode n))"
| "write_ok (WEdge e) \<longleftrightarrow> edge_ok e \<and> edge_id_ok (e_ID e) \<and> str_ok (data_of (WEdge e))"

lemma write_ok_key: "write_ok w \<Longrightarrow> str_ok (write_key w) \<and> str_ok (data_of w)"
  by (cases w) (auto simp: node_ok_def edge_ok_def)

lemma do_write_ok:
  assumes run: "do_write io now w l = (Inr u, l')" and wf: "lane_wf l" and ok: "write_ok w"
  shows "lane_store l' = apply_write w (lane_store l) \<and> lane_wf l'
    \<and> l_memtableSize l' = l_memtableSize l \<and> write_data w = Inr (data_of w)
    \<and> wal_append io now (write_type w) (write_key w) (data_of w) (l_wal l) = (Inr (), l_wal l')"
proof (cases w)
  case (WNode n)
  with run ok have run: "write_node io now n l = (Inr u, l')" and "node_ok n" by auto
  note W = write_node_ok [OF this]
  show ?thesis
    using W wf by (auto simp: WNode lane_store_def data_of_def)
next
  case (WEdge e)
  with run ok have run: "write_edge io now e l = (Inr u, l')" and e: "edge_ok e" "edge_id_ok (e_ID e)"
    by auto
  note W = write_edge_ok [OF run wf e]
  show ?thesis
    using W by (auto simp: WEdge lane_store_def data_of_def)
qed

section \<open>Runs of a lane\<close>

text \<open>
  Acknowledged writes and syncs in any order, each with whatever the operating system does.
\<close>

inductive lane_run :: "lane \<Rightarrow> (u64 \<times> update) list \<Rightarrow> lane \<Rightarrow> bool" for l0 where
  start: "lane_run l0 [] l0"
| put: "lane_run l0 ws l \<Longrightarrow> write_ok w \<Longrightarrow> do_write io now w l = (Inr (), l') \<Longrightarrow>
     lane_run l0 (ws @ [(now, w)]) l'"
| sync: "lane_run l0 ws l \<Longrightarrow> wal_sync io (l_wal l) = (r, w') \<Longrightarrow> lane_run l0 ws (l\<lparr>l_wal := w'\<rparr>)"

definition store_after :: "(u64 \<times> update) list \<Rightarrow> store \<Rightarrow> store" where
  "store_after ws s = fold (\<lambda>(_, w). apply_write w) ws s"

definition log_of :: "(u64 \<times> update) list \<Rightarrow> entry list" where
  "log_of ws = map (\<lambda>(now, w). write_entry now w) ws"

lemma lane_store_wal [simp]: "lane_store (l\<lparr>l_wal := w\<rparr>) = lane_store l" "lane_wf (l\<lparr>l_wal := w\<rparr>) = lane_wf l"
  using same_store_wal [of l w] by (simp_all add: same_store_def lane_store_def)

lemma lane_run_store:
  assumes "lane_run l0 ws l" and "lane_wf l0"
  shows "lane_store l = store_after ws (lane_store l0) \<and> lane_wf l
    \<and> l_memtableSize l = l_memtableSize l0 \<and> wal_run (l_wal l0) (log_of ws) (l_wal l)
    \<and> (\<forall>(now, w)\<in>set ws. write_ok w \<and> write_data w = Inr (data_of w))"
  using assms
proof (induction rule: lane_run.induct)
  case start
  then show ?case by (simp add: store_after_def log_of_def wal_run.start)
next
  case (put ws l w io now l')
  then have IH: "lane_store l = store_after ws (lane_store l0)" "lane_wf l"
    "l_memtableSize l = l_memtableSize l0" "wal_run (l_wal l0) (log_of ws) (l_wal l)"
    "\<forall>(now, w)\<in>set ws. write_ok w \<and> write_data w = Inr (data_of w)" by auto
  note W = do_write_ok [OF put.hyps(3) IH(2) put.hyps(2)]
  from wal_run.append [OF IH(4) _ _ conjunct2 [OF conjunct2 [OF conjunct2 [OF conjunct2 [OF W]]]]]
    write_ok_key [OF put.hyps(2)]
  have "wal_run (l_wal l0) (log_of (ws @ [(now, w)])) (l_wal l')"
    by (simp add: log_of_def write_entry_def)
  with IH W put.hyps(2) show ?case by (auto simp: store_after_def)
next
  case (sync ws l io r w')
  then show ?case by (auto intro: wal_run.sync)
qed


section \<open>Recovering the log\<close>

text \<open>
  A table with room: open, no tombstones, sizes as accounted, at most \<open>S\<close> bytes used.
\<close>

definition has_room :: "int \<Rightarrow> int \<Rightarrow> memtable \<Rightarrow> bool" where
  "has_room cap S m \<longleftrightarrow> mt_inv m \<and> \<not> mt_frozen m \<and> SvNil \<notin> ran (mt_data m)
     \<and> mt_maxSize m = cap \<and> mt_size m \<le> S"

lemma has_room_new [simp]: "has_room cap 0 (mt_new cap)"
  by (simp add: has_room_def) (simp add: mt_new_def)

lemma has_room_mono: "has_room cap S m \<Longrightarrow> S \<le> T \<Longrightarrow> has_room cap T m"
  by (simp add: has_room_def)

lemma stored_le_size:
  assumes "mt_inv m" and "mt_data m k = Some v"
  shows "int (length k) + stored_len v \<le> mt_size m"
proof -
  have "int (length k) + stored_len (the (mt_data m k)) \<le> data_size (mt_data m)"
    unfolding data_size_def
    by (rule member_le_sum [of k "dom (mt_data m)" "\<lambda>k. int (length k) + stored_len (the (mt_data m k))"])
      (use assms in \<open>auto simp: mt_inv_def\<close>)
  with assms show ?thesis by (simp add: mt_inv_def)
qed

lemma adj_value_le: "has_room cap S m \<Longrightarrow> int (length (adj_value m k)) \<le> S"
proof -
  assume room: "has_room cap S m"
  then have "0 \<le> S" using data_size_nonneg [of "mt_data m"] by (auto simp: has_room_def mt_inv_def)
  with room show ?thesis
    using stored_le_size [of m k]
    by (fastforce simp: has_room_def adj_value_def mt_get_def slice_len_def ran_def
        split: option.splits stored.splits)
qed

lemma mt_put_room:
  assumes room: "has_room cap S m" and key: "key \<noteq> []"
    and fits: "S + (int (length key) + slice_len v) \<le> cap"
  shows "\<exists>m'. mt_put key v m = (Inr (), m')
    \<and> has_room cap (S + (int (length key) + slice_len v) - int (length (adj_value m key))) m'"
proof -
  have no_tomb: "mt_data m key \<noteq> Some SvNil" using room by (auto simp: has_room_def ran_def)
  with assms have "succeeds (fst (mt_put key v m))"
    unfolding mt_put_succeeds by (auto simp: has_room_def)
  then obtain m' where m': "mt_put key v m = (Inr (), m')"
    by (cases "mt_put key v m") (auto simp: succeeds_iff)
  have inv: "mt_inv m'" using mt_put_inv [OF _ m'] room by (simp add: has_room_def)
  have "mt_frozen m' = False" "mt_maxSize m' = cap" using mt_put_frame [OF m'] room by (simp_all add: has_room_def)
  moreover have "SvNil \<notin> ran (mt_data m')"
    using m' room no_tomb
    by (auto simp: mt_put_def has_room_def Let_def ran_def split: if_splits option.splits stored.splits)
  moreover have "mt_size m' \<le> S + (int (length key) + slice_len v) - int (length (adj_value m key))"
    using m' room
    by (auto simp: mt_put_def has_room_def Let_def adj_value_def mt_get_def slice_len_def
        split: if_splits option.splits stored.splits)
  ultimately show ?thesis using m' inv by (auto simp: has_room_def)
qed

text \<open>
  What a write takes of the lane's tables: a bound for each of the three.
\<close>

definition write_size :: "update \<Rightarrow> int" where
  "write_size w = (case w of
     WNode n \<Rightarrow> 5 + int (length (n_ID n)) + int (length (data_of (WNode n)))
   | WEdge e \<Rightarrow> 5 + int (length (e_ID e)) + int (length (data_of (WEdge e)))
       + (8 + int (length (e_FromNodeID e))) + (7 + int (length (e_ToNodeID e))) + 2 * (int (length (e_ID e)) + 1))"

lemma write_size_nonneg: "0 \<le> write_size w"
  by (simp add: write_size_def split: update.splits)

definition lane_room :: "int \<Rightarrow> int \<Rightarrow> lane \<Rightarrow> bool" where
  "lane_room cap S l \<longleftrightarrow> has_room cap S (l_active l) \<and> has_room cap S (l_activeEdges l)
     \<and> has_room cap S (l_activeAdj l)"

lemma length_keys [simp]:
  "length (node_key i) = 5 + length i" "length (edge_key i) = 5 + length i"
  "length (adj_out_key i) = 8 + length i" "length (adj_in_key i) = 7 + length i"
  by (simp_all add: node_key_def edge_key_def adj_out_key_def adj_in_key_def lit_def)

lemma keys_nonempty [simp]:
  "node_key i \<noteq> []" "edge_key i \<noteq> []" "adj_out_key i \<noteq> []" "adj_in_key i \<noteq> []"
  by (auto dest: arg_cong [where f = length])

lemma adj_append_room:
  assumes room: "has_room cap S m" and key: "key \<noteq> []"
    and fits: "2 * S + int (length key) + int (length i) + 1 \<le> cap"
  shows "\<exists>m'. mt_put key (Some (adj_value m key @ i @ [comma])) m = (Inr (), m')
    \<and> has_room cap (S + int (length key) + int (length i) + 1) m'"
  using mt_put_room [OF room key, of "Some (adj_value m key @ i @ [comma])"]
    adj_value_le [OF room, of key] fits
  by (auto simp: slice_len_def algebra_simps)

lemma put_record_room:
  assumes "has_room cap S m" and "key \<noteq> []" and "S + int (length key) + int (length d) \<le> cap"
  shows "\<exists>m'. mt_put key (Some d) m = (Inr (), m') \<and> has_room cap (S + int (length key) + int (length d)) m'"
  using mt_put_room [OF assms(1,2), of "Some d"] assms(3)
  by (auto simp: slice_len_def elim!: has_room_mono)

lemma recover_entry_types [simp]:
  "EntryTypeNode \<noteq> EntryTypeEdge" "EntryTypeEdge \<noteq> EntryTypeNode"
  by (simp_all add: EntryTypeNode_def EntryTypeEdge_def)

lemma sealed_write_entry:
  "en_Type (sealed (write_entry now w)) = write_type w" "en_Value (sealed (write_entry now w)) = data_of w"
  by (simp_all add: sealed_def write_entry_def wal_entry_def)

lemma recover_node:
  assumes ok: "write_ok (WNode n)" and ser: "serialize_node n = Inr (data_of (WNode n))"
    and room: "lane_room cap S l" and fits: "2 * (S + write_size (WNode n)) \<le> cap" and S: "0 \<le> S"
  shows "\<exists>l'. recover_entry (sealed (write_entry now (WNode n))) l = (Inr (), l')
    \<and> lane_store l' = apply_write (WNode n) (lane_store l) \<and> lane_wf l' = lane_wf l
    \<and> lane_room cap (S + write_size (WNode n)) l'"
proof -
  have n: "node_ok n" using ok by simp
  from deserialize_serialize_node [OF ser n]
  have des: "deserialize_node (data_of (WNode n)) = Inr (wire_node n)" .
  obtain m where m: "mt_put (node_key (n_ID n)) (Some (data_of (WNode n))) (l_active l) = (Inr (), m)"
    and rm: "has_room cap (S + int (length (node_key (n_ID n))) + int (length (data_of (WNode n)))) m"
    using put_record_room [of cap S "l_active l" "node_key (n_ID n)" "data_of (WNode n)"] room fits S
    by (auto simp: lane_room_def write_size_def)
  have run: "on_active (put_node (wire_node n)) l = (Inr (), l\<lparr>l_active := m\<rparr>)"
    using m ser by (simp add: on_active_def put_node_def) (simp add: wire_node_def)
  have "node_ok (wire_node n)" using n by (rule wire_node_ok)
  note A = on_active_ok [OF run this]
  have "n_ID (wire_node n) = n_ID n" by (simp add: wire_node_def)
  with A have "lane_store (l\<lparr>l_active := m\<rparr>) = apply_write (WNode n) (lane_store l)"
    by (simp add: lane_store_def wire_node_idem)
  moreover have "lane_room cap (S + write_size (WNode n)) (l\<lparr>l_active := m\<rparr>)"
    using room rm by (auto simp: lane_room_def write_size_def elim!: has_room_mono)
  ultimately show ?thesis
    using run des A by (simp add: recover_entry_def sealed_write_entry)
qed

lemma recover_edge:
  assumes ok: "write_ok (WEdge e)" and ser: "serialize_edge e = Inr (data_of (WEdge e))"
    and room: "lane_room cap S l" and fits: "2 * (S + write_size (WEdge e)) \<le> cap" and S: "0 \<le> S"
    and wf: "lane_wf l"
  shows "\<exists>l'. recover_entry (sealed (write_entry now (WEdge e))) l = (Inr (), l')
    \<and> lane_store l' = apply_write (WEdge e) (lane_store l) \<and> lane_wf l'
    \<and> lane_room cap (S + write_size (WEdge e)) l'"
proof -
  let ?e = "wire_edge e"
  have e: "edge_ok e" "edge_id_ok (e_ID e)" using ok by simp_all
  have ids: "e_ID ?e = e_ID e" "e_FromNodeID ?e = e_FromNodeID e" "e_ToNodeID ?e = e_ToNodeID e"
    by (simp_all add: wire_edge_def)
  from deserialize_serialize_edge [OF ser e(1)]
  have des: "deserialize_edge (data_of (WEdge e)) = Inr ?e" .
  let ?T = "S + (8 + int (length (e_FromNodeID e))) + int (length (e_ID e)) + 1"
  obtain m where m: "mt_put (edge_key (e_ID e)) (Some (data_of (WEdge e))) (l_activeEdges l) = (Inr (), m)"
    and rm: "has_room cap (S + int (length (edge_key (e_ID e))) + int (length (data_of (WEdge e)))) m"
    using put_record_room [of cap S "l_activeEdges l" "edge_key (e_ID e)" "data_of (WEdge e)"] room fits S
    by (auto simp: lane_room_def write_size_def)
  obtain a where a: "add_outgoing_edge (e_FromNodeID e) (e_ID e) (l_activeAdj l) = (Inr (), a)"
    and ra: "has_room cap ?T a"
    using adj_append_room [of cap S "l_activeAdj l" "adj_out_key (e_FromNodeID e)" "e_ID e"] room fits S
    by (auto simp: lane_room_def write_size_def add_outgoing_edge_eq add.assoc)
  obtain b where b: "add_incoming_edge (e_ToNodeID e) (e_ID e) a = (Inr (), b)"
    and rb: "has_room cap (?T + (7 + int (length (e_ToNodeID e))) + int (length (e_ID e)) + 1) b"
    using adj_append_room [of cap ?T a "adj_in_key (e_ToNodeID e)" "e_ID e"] ra fits S
    by (auto simp: write_size_def add_incoming_edge_eq add.assoc)
  define l1 where "l1 = l\<lparr>l_activeEdges := m\<rparr>"
  define l2 where "l2 = l1\<lparr>l_activeAdj := a\<rparr>"
  define l3 where "l3 = l2\<lparr>l_activeAdj := b\<rparr>"
  have r1: "on_edges (put_edge ?e) l = (Inr (), l1)"
    using m ser by (simp add: on_edges_def put_edge_def ids l1_def)
  have r2: "add_out ?e l1 = (Inr (), l2)"
    using a by (simp add: add_out_def on_adj_def ids l1_def l2_def)
  have r3: "add_in ?e l2 = (Inr (), l3)"
    using b by (simp add: add_in_def on_adj_def ids l1_def l2_def l3_def)
  note P = on_edges_ok [OF r1 wire_edge_ok [OF e(1)]]
  from P wf have wf1: "lane_wf l1" by simp
  note A = add_out_ok [OF r2 wf1 e(2) [folded ids(1)]]
  note B = add_in_ok [OF r3 A(3) e(2) [folded ids(1)]]
  have "recover_entry (sealed (write_entry now (WEdge e))) l = (Inr (), l3)"
    using des r1 r2 r3 by (simp add: recover_entry_def sealed_write_entry ignore_error_def on_error_def)
  moreover have "lane_store l3 = apply_write (WEdge e) (lane_store l)"
    using P A B by (simp add: lane_store_def ids wire_edge_idem)
  moreover have "lane_room cap (S + write_size (WEdge e)) l3"
    using room rm rb by (auto simp: lane_room_def write_size_def l1_def l2_def l3_def elim!: has_room_mono)
  ultimately show ?thesis using B by blast
qed

definition total_size :: "(u64 \<times> update) list \<Rightarrow> int" where
  "total_size ws = (\<Sum>(now, w)\<leftarrow>ws. write_size w)"

lemma total_size_nonneg: "0 \<le> total_size ws"
  by (induction ws) (auto simp: total_size_def write_size_nonneg)

lemma recover_log:
  assumes "\<forall>(now, w)\<in>set ws. write_ok w \<and> write_data w = Inr (data_of w)"
    and "lane_room cap S l" and "2 * (S + total_size ws) \<le> cap" and "0 \<le> S" and "lane_wf l"
  shows "\<exists>l'. apply_entries recover_entry (log_of ws) l = (Inr (), l')
    \<and> lane_store l' = store_after ws (lane_store l) \<and> lane_wf l' \<and> lane_room cap (S + total_size ws) l'"
  using assms
proof (induction ws arbitrary: S l)
  case Nil
  then show ?case by (simp add: log_of_def store_after_def total_size_def)
next
  case (Cons a ws)
  obtain now w where a: "a = (now, w)" by force
  have tot: "total_size (a # ws) = write_size w + total_size ws" by (simp add: a total_size_def)
  have fits: "2 * (S + write_size w) \<le> cap"
    using Cons.prems(3) total_size_nonneg [of ws] by (simp add: tot)
  have w: "write_ok w" "write_data w = Inr (data_of w)" using Cons.prems(1) by (simp_all add: a)
  have "\<exists>l'. recover_entry (sealed (write_entry now w)) l = (Inr (), l')
    \<and> lane_store l' = apply_write w (lane_store l) \<and> lane_wf l' \<and> lane_room cap (S + write_size w) l'"
  proof (cases w)
    case (WNode n)
    with recover_node [of n cap S l now] w Cons.prems fits show ?thesis by auto
  next
    case (WEdge e)
    with recover_edge [of e cap S l now] w Cons.prems fits show ?thesis by auto
  qed
  then obtain l' where l': "recover_entry (sealed (write_entry now w)) l = (Inr (), l')"
    "lane_store l' = apply_write w (lane_store l)" "lane_wf l'" "lane_room cap (S + write_size w) l'" by blast
  have "\<exists>l''. apply_entries recover_entry (log_of ws) l' = (Inr (), l'')
    \<and> lane_store l'' = store_after ws (lane_store l') \<and> lane_wf l'' \<and> lane_room cap (S + total_size (a # ws)) l''"
    using Cons.IH [OF _ l'(4) _ _ l'(3)] Cons.prems write_size_nonneg [of w] by (simp add: tot add.assoc)
  with l' show ?case by (auto simp: a log_of_def store_after_def)
qed

lemma fresh_lane:
  "lane_store (new_write_lane i sz w) = empty_store" "lane_wf (new_write_lane i sz w)"
  "lane_room sz 0 (new_write_lane i sz w)"
  by (simp_all add: lane_store_def empty_store_def node_view_def edge_view_def out_view_def in_view_def
      lane_wf_def adj_tables_def adj_wf_new lane_outgoing_concat lane_incoming_concat fun_eq_iff
      lane_room_def get_node_def get_edge_def)
     (simp_all add: new_write_lane_def adj_wf_new)

section \<open>Recovery after a crash\<close>

lemma log_inv_fresh: "log_inv [] (new_wal i False bsz None)"
  by (rule log_inv_new)

lemma new_lane_wal [simp]:
  "l_wal (new_write_lane i sz w) = w" "l_memtableSize (new_write_lane i sz w) = sz"
  by (simp_all add: new_write_lane_def)

lemma apply_entries_replay:
  assumes ok: "list_all entry_ok es" and e: "entry_ok e" "j < length (serialize_entry e)"
    and app: "apply_entries fn es s = (Inr (), s')"
  shows "snd (replay_loop fn (log_bytes es @ take j (serialize_entry e)) s) = s'
    \<and> (fst (replay_loop fn (log_bytes es @ take j (serialize_entry e)) s) = Inr ()
       \<or> fst (replay_loop fn (log_bytes es @ take j (serialize_entry e)) s)
           = Inl (Wrap ''failed to deserialize entry'' UnexpectedEOF))"
  using replay_loop_log [OF ok, of fn "take j (serialize_entry e)" s] app
  by (simp add: replay_loop_torn [OF e])

lemma total_size_append: "total_size (xs @ ys) = total_size xs + total_size ys"
  by (simp add: total_size_def)

lemma total_size_take: "total_size (xs @ take m ys) \<le> total_size (xs @ ys)"
  using total_size_append [of "take m ys" "drop m ys"] total_size_nonneg [of "drop m ys"]
  by (simp add: total_size_append)

lemma log_of_append: "log_of (xs @ ys) = log_of xs @ log_of ys" "take m (log_of xs) = log_of (take m xs)"
  "length (log_of xs) = length xs"
  by (simp_all add: log_of_def take_map)

text \<open>
  C9: Recovery of a buffered log that fits one table.  A lane starts on an empty log without
  direct I/O, acknowledges writes, syncs successfully, acknowledges more and crashes; the records
  of all these writes, twice over, fit one table of the recovering lane, since recovery never
  rotates and counts a replaced record twice.  Then recovering what the crash left of the log
  gives exactly the store that the writes before the sync and some prefix of the later ones
  build, nodes, edges and both adjacency lists, and reports success, or the unexpected end of a
  torn last entry.  (A log written in direct-I/O mode does not replay: theory \<open>Wal\<close>.)
\<close>

theorem lane_recovers_durable_writes:
  assumes run1: "lane_run (new_write_lane i sz (new_wal i False bsz None)) ws1 l1"
    and sync: "wal_sync io (l_wal l1) = (Inr (), w)"
    and run2: "lane_run (l1\<lparr>l_wal := w\<rparr>) ws2 l2"
    and crash: "crash_image (l_wal l2) d"
    and fits: "2 * total_size (ws1 @ ws2) \<le> sz'"
    and recover: "io_open_ok io'"
      "lane_recover io' (new_write_lane i sz' (new_wal i dio bsz' (Some d))) = (r, l3)"
  shows "\<exists>m\<le>length ws2. lane_store l3 = store_after (ws1 @ take m ws2) empty_store
    \<and> (r = Inr () \<or> r = Inl (Wrap ''failed to deserialize entry'' UnexpectedEOF))"
proof -
  let ?l0 = "new_write_lane i sz (new_wal i False bsz None)"
  let ?l = "new_write_lane i sz' (new_wal i dio bsz' (Some d))"
  from lane_run_store [OF run1] have L1: "lane_wf l1" "wal_run (new_wal i False bsz None) (log_of ws1) (l_wal l1)"
    "\<forall>(now, w)\<in>set ws1. write_ok w \<and> write_data w = Inr (data_of w)" by (simp_all add: fresh_lane)
  from lane_run_store [OF run2] L1(1) have L2: "wal_run w (log_of ws2) (l_wal l2)"
    "\<forall>(now, w)\<in>set ws2. write_ok w \<and> write_data w = Inr (data_of w)" by simp_all
  from crash_image_entries [OF L1(2) log_inv_fresh sync L2(1) crash]
  obtain m e j where m: "m \<le> length ws2" and e: "entry_ok e" "j < length (serialize_entry e)"
    and ok: "list_all entry_ok (log_of ws1 @ log_of ws2)"
    and d: "d = log_bytes (log_of (ws1 @ take m ws2)) @ take j (serialize_entry e)"
    by (auto simp: log_of_append simp del: log_bytes_simps)
  have okm: "list_all entry_ok (log_of (ws1 @ take m ws2))"
    using ok by (auto simp: list_all_iff log_of_append simp flip: log_of_append(2) dest: in_set_takeD)
  have good: "\<forall>(now, w)\<in>set (ws1 @ take m ws2). write_ok w \<and> write_data w = Inr (data_of w)"
    using L1(3) L2(2) by (auto dest: in_set_takeD)
  from fits total_size_take [of ws1 m ws2] have "2 * (0 + total_size (ws1 @ take m ws2)) \<le> sz'" by simp
  from recover_log [OF good fresh_lane(3) this _ fresh_lane(2)] obtain l' where
    l': "apply_entries recover_entry (log_of (ws1 @ take m ws2)) ?l = (Inr (), l')"
    "lane_store l' = store_after (ws1 @ take m ws2) empty_store" by (auto simp: fresh_lane)
  have "lane_recover io' ?l = replay_loop recover_entry d ?l"
    using recover(1) by (simp add: lane_recover_def wal_replay_def new_wal_def Let_def)
  with recover(2) have "replay_loop recover_entry d ?l = (r, l3)" by simp
  with apply_entries_replay [OF okm e l'(1) [unfolded d]] l'(2)
  have "lane_store l3 = store_after (ws1 @ take m ws2) empty_store
    \<and> (r = Inr () \<or> r = Inl (Wrap ''failed to deserialize entry'' UnexpectedEOF))"
    unfolding d by (simp del: log_bytes_simps)
  with m show ?thesis by blast
qed

section \<open>What recovery cannot hold\<close>

lemma put_node_size:
  assumes "node_ok n" and "serialize_node n = Inr bs" and "\<not> mt_frozen m" and "mt_data m (node_key (n_ID n)) = None"
  shows "put_node (wire_node n) m =
    (if mt_size m + (5 + int (length (n_ID n)) + int (length bs)) > mt_maxSize m
     then (Inl (Err ''memtable size limit exceeded''), m)
     else (Inr (), m\<lparr>mt_data := (mt_data m)(node_key (n_ID n) \<mapsto> SvBytes (Some bs)),
       mt_size := mt_size m + (5 + int (length (n_ID n)) + int (length bs)), mt_count := mt_count m + 1\<rparr>))"
  using assms by (simp add: put_node_def mt_put_def Let_def slice_len_def)
    (simp add: wire_node_def slice_len_def)

lemma recover_nodes_aux:
  assumes "\<forall>(now, n)\<in>set ns. node_ok n \<and> serialize_node n = Inr (data_of (WNode n))"
    and "distinct (map (n_ID \<circ> snd) ns)" and "\<not> mt_frozen (l_active l)"
    and "\<forall>(now, n)\<in>set ns. mt_data (l_active l) (node_key (n_ID n)) = None"
  shows "fst (apply_entries recover_entry (log_of (map (\<lambda>(now, n). (now, WNode n)) ns)) l) =
    (if mt_size (l_active l) + total_size (map (\<lambda>(now, n). (now, WNode n)) ns) \<le> mt_maxSize (l_active l)
       \<or> ns = []
     then Inr () else Inl (Wrap ''failed to apply entry'' (Err ''memtable size limit exceeded'')))"
  using assms
proof (induction ns arbitrary: l)
  case Nil
  then show ?case by (simp add: log_of_def)
next
  case (Cons a ns)
  obtain now n where a: "a = (now, n)" by force
  let ?m = "l_active l" and ?bs = "data_of (WNode n)"
  have n: "node_ok n" "serialize_node n = Inr ?bs" and m: "\<not> mt_frozen ?m" "mt_data ?m (node_key (n_ID n)) = None"
    using Cons.prems by (auto simp: a)
  note P = put_node_size [OF n m]
  have des: "deserialize_node ?bs = Inr (wire_node n)" using deserialize_serialize_node [OF n(2,1)] .
  have size: "write_size (WNode n) = 5 + int (length (n_ID n)) + int (length ?bs)" by (simp add: write_size_def)
  let ?ws = "map (\<lambda>(now, n). (now, WNode n)) ns"
  have tot: "total_size (map (\<lambda>(now, n). (now, WNode n)) (a # ns)) = write_size (WNode n) + total_size ?ws"
    by (simp add: a total_size_def)
  show ?case
  proof (cases "mt_size ?m + write_size (WNode n) > mt_maxSize ?m")
    case True
    then have "recover_entry (sealed (write_entry now (WNode n))) l = (Inl (Err ''memtable size limit exceeded''), l)"
      using P des size by (simp add: recover_entry_def sealed_write_entry on_active_def)
    moreover have "\<not> mt_size ?m + (write_size (WNode n) + total_size ?ws) \<le> mt_maxSize ?m"
      using True total_size_nonneg [of ?ws] by simp
    ultimately show ?thesis
      unfolding tot by (simp add: a log_of_def wrapE_def)
  next
    case False
    let ?m' = "?m\<lparr>mt_data := (mt_data ?m)(node_key (n_ID n) \<mapsto> SvBytes (Some ?bs)),
       mt_size := mt_size ?m + write_size (WNode n), mt_count := mt_count ?m + 1\<rparr>"
    let ?l = "l\<lparr>l_active := ?m'\<rparr>"
    have step: "recover_entry (sealed (write_entry now (WNode n))) l = (Inr (), ?l)"
      using P des size False by (simp add: recover_entry_def sealed_write_entry on_active_def)
    have other: "n_ID n' \<noteq> n_ID n" if "(t, n') \<in> set ns" for t n'
      using Cons.prems(2) that by (force simp: a)
    have "\<forall>(now, n')\<in>set ns. mt_data (l_active ?l) (node_key (n_ID n')) = None"
      using Cons.prems(4) by (auto simp: a node_table.key_inject dest: other)
    from Cons.IH [OF _ _ _ this] Cons.prems
    have "fst (apply_entries recover_entry (log_of ?ws) ?l) =
      (if mt_size (l_active ?l) + total_size ?ws \<le> mt_maxSize (l_active ?l) \<or> ns = []
       then Inr () else Inl (Wrap ''failed to apply entry'' (Err ''memtable size limit exceeded'')))"
      by simp
    with step False show ?thesis
      unfolding tot by (auto simp: a log_of_def add.assoc total_size_def)
  qed
qed

definition demo_node :: node where
  "demo_node = \<lparr>n_ID = [0x61], n_Labels = [], n_Properties = None, n_Version = 1,
     n_CreatedAt = time_unix 0, n_UpdatedAt = time_unix 0\<rparr>"

lemma demo_node_facts:
  "node_ok demo_node" "n_ID demo_node = [0x61]"
  "\<exists>bs. serialize_node demo_node = Inr bs \<and> length bs = 37"
  by (simp_all add: demo_node_def node_ok_def wire_props_ok_def str_ok_def props_ok_def props_of_def
      serialize_node_def)

lemma demo_write:
  "\<exists>l. write_node io_fine 0 demo_node (new_write_lane 0 1000 (new_wal 0 False 4096 None)) = (Inr (), l)
    \<and> wal_sync io_fine (l_wal l) = (Inr (), snd (wal_sync io_fine (l_wal l)))
    \<and> w_durable (snd (wal_sync io_fine (l_wal l))) \<le> length (wal_content (snd (wal_sync io_fine (l_wal l))))"
proof -
  from demo_node_facts(3) obtain bs where bs: "serialize_node demo_node = Inr bs" "length bs = 37" by blast
  show ?thesis
    by (simp add: write_node_def new_write_lane_def bs log_write_def wal_append_def new_wal_def new_bufio_def
        Let_def bufio_write.simps length_serialize_entry or_return_def demo_node_facts on_active_def
        on_error_def put_node_def mt_put_def mt_new_def slice_len_def node_key_def lit_def
        check_node_rotation_def wal_sync_def wal_flush_def bufio_flush_def wal_fsync_def io_fine_def
        wal_room_def file_write_def wal_content_def set_content_def)
qed

theorem lane_recovers_durable_writes_witness:
  "\<exists>l w d l3. lane_run (new_write_lane 0 1000 (new_wal 0 False 4096 None)) [(0, WNode demo_node)] l
     \<and> wal_sync io_fine (l_wal l) = (Inr (), w) \<and> crash_image w d
     \<and> snd (lane_recover io_fine (new_write_lane 0 1000 (new_wal 0 False 4096 (Some d)))) = l3
     \<and> lane_store l3 = store_after [(0, WNode demo_node)] empty_store"
proof -
  from demo_write obtain l w where l: "write_node io_fine 0 demo_node
      (new_write_lane 0 1000 (new_wal 0 False 4096 None)) = (Inr (), l)"
    and w: "wal_sync io_fine (l_wal l) = (Inr (), w)" "w_durable w \<le> length (wal_content w)" by auto
  from demo_node_facts have ok: "write_ok (WNode demo_node)"
    by (auto simp: data_of_def str_ok_def)
  have run: "lane_run (new_write_lane 0 1000 (new_wal 0 False 4096 None)) [(0, WNode demo_node)] l"
    using lane_run.put [OF lane_run.start ok, of io_fine 0] l by simp
  have crash: "crash_image (l_wal (l\<lparr>l_wal := w\<rparr>)) (wal_content w)"
    using w(2) by (auto simp: crash_image_def)
  have fits: "2 * total_size ([(0, WNode demo_node)] @ []) \<le> 1000"
    using demo_node_facts by (auto simp: total_size_def write_size_def data_of_def)
  have "io_open_ok io_fine" by (simp add: io_fine_def)
  from lane_recovers_durable_writes [OF run w(1) lane_run.start crash fits this, where dio = False
      and bsz' = 4096] run w(1) crash
  show ?thesis by (auto simp: prod_eq_iff)
qed

text \<open>
  Recovery needs everything the log holds in one table: a log of nodes with distinct
  identifiers is recovered into a fresh lane exactly when their keys and encodings together
  fit the configured table size, although the lane that wrote them rotates its tables and so
  accepts any number.
\<close>

theorem recovery_fits_one_table:
  assumes "\<forall>(now, n)\<in>set ns. node_ok n \<and> serialize_node n = Inr (data_of (WNode n))"
    and "distinct (map (n_ID \<circ> snd) ns)" and "0 \<le> sz"
  shows "fst (apply_entries recover_entry (log_of (map (\<lambda>(now, n). (now, WNode n)) ns)) (new_write_lane i sz w)) =
    (if total_size (map (\<lambda>(now, n). (now, WNode n)) ns) \<le> sz then Inr ()
     else Inl (Wrap ''failed to apply entry'' (Err ''memtable size limit exceeded'')))"
  using recover_nodes_aux [OF assms(1,2), of "new_write_lane i sz w"] assms(3)
  by (auto simp: new_write_lane_def mt_new_def total_size_def)

theorem recovery_fits_one_table_witness:
  "fst (apply_entries recover_entry (log_of [(0, WNode demo_node)]) (new_write_lane 0 42 (new_wal 0 False 16 None))) =
     Inl (Wrap ''failed to apply entry'' (Err ''memtable size limit exceeded''))"
  using recovery_fits_one_table [of "[(0, demo_node)]" 42 0 "new_wal 0 False 16 None"] demo_node_facts
  by (auto simp: data_of_def total_size_def write_size_def)

text \<open>
  C35: A node write succeeds exactly when the node fits an empty table; otherwise the lane
  has rotated its tables, nothing is stored, and the entry is in the log all the same.
\<close>

theorem write_node_succeeds_iff:
  assumes "\<not> l_stopped l" and "serialize_node n = Inr bs"
    and log: "wal_append io now EntryTypeNode (n_ID n) bs (l_wal l) = (Inr (), w)"
    and m: "mt_inv (l_active l)" "mt_maxSize (l_active l) = l_memtableSize l"
      "mt_data (l_active l) (node_key (n_ID n)) \<noteq> Some SvNil"
    and run: "write_node io now n l = (r, l')"
  shows "(r = Inr () \<longleftrightarrow> 5 + int (length (n_ID n)) + int (length bs) \<le> l_memtableSize l)
    \<and> (r \<noteq> Inr () \<longrightarrow> r = Inl (Wrap ''failed to write node'' (Err ''memtable size limit exceeded''))
          \<and> same_store l l') \<and> l_wal l' = w"
proof -
  let ?sz = "5 + int (length (n_ID n)) + int (length bs)"
  let ?l = "l\<lparr>l_wal := w\<rparr>"
  let ?put = "mt_put (node_key (n_ID n)) (Some bs)"
  have nonneg: "0 \<le> mt_size (l_active l)" using m(1) data_size_nonneg by (simp add: mt_inv_def)
  have frame: "l_wal l2 = l_wal l1" if "check_node_rotation l1 = (r', l2)" for l1 l2 r'
    using check_rotation_store(1) [OF that] by (simp add: lane_frame_def)
  have fresh: "?put (mt_new (l_memtableSize l)) =
     (if ?sz > l_memtableSize l then (Inl (Err ''memtable size limit exceeded''), mt_new (l_memtableSize l))
      else (Inr (), (mt_new (l_memtableSize l))\<lparr>mt_data := [node_key (n_ID n) \<mapsto> SvBytes (Some bs)],
         mt_size := ?sz, mt_count := 1\<rparr>))"
    by (simp add: mt_put_def Let_def mt_new_def slice_len_def)
  from assms have run': "on_error (on_active (put_node n) ?l)
      (\<lambda>l. or_return ''failed to write node'' (on_active (put_node n) (rotate_memtable l)) check_node_rotation)
      check_node_rotation = (r, l')"
    by (simp add: write_node_def log_write_def or_return_def)
  obtain p m' where p: "?put (l_active l) = (p, m')" by force
  show ?thesis
  proof (cases p)
    case (Inr u)
    then have "?sz \<le> l_memtableSize l"
      using p m nonneg by (auto simp: mt_put_def Let_def slice_len_def split: if_splits)
    moreover have "check_node_rotation (l\<lparr>l_wal := w, l_active := m'\<rparr>) = (r, l')"
      using run' p Inr assms(2) by (simp add: on_active_def put_node_def on_error_def)
    ultimately show ?thesis
      using frame by (auto simp: check_node_rotation_def)
  next
    case (Inl e)
    then have e: "\<not> is_panic e" "m' = l_active l"
      using p m(3) by (auto simp: mt_put_def Let_def split: if_splits option.splits stored.splits)
    let ?r = "rotate_memtable ?l"
    have "or_return ''failed to write node'' (on_active (put_node n) ?r) check_node_rotation = (r, l')"
      using run' p Inl e assms(2) by (simp add: on_active_def put_node_def on_error_def)
    then have rest: "or_return ''failed to write node''
        (case ?put (mt_new (l_memtableSize l)) of (r, m) \<Rightarrow> (r, ?r\<lparr>l_active := m\<rparr>)) check_node_rotation = (r, l')"
      using assms(2) by (simp add: on_active_def put_node_def rotate_tables)
    have same: "?r\<lparr>l_active := mt_new (l_memtableSize l)\<rparr> = ?r"
      by (simp add: rotate_memtable_def)
    have store: "same_store l ?r"
      by (rule same_store_trans [OF same_store_wal rotate_same_store])
    show ?thesis
    proof (cases "?sz > l_memtableSize l")
      case True
      with fresh rest same have "r = Inl (Wrap ''failed to write node'' (Err ''memtable size limit exceeded''))"
        "l' = ?r" by (simp_all add: or_return_def wrapE_def)
      with True store show ?thesis by simp
    next
      case False
      with fresh rest frame show ?thesis by (auto simp: or_return_def check_node_rotation_def)
    qed
  qed
qed

theorem write_node_succeeds_iff_witness:
  "\<exists>bs w. serialize_node demo_node = Inr bs
     \<and> wal_append io_fine 0 EntryTypeNode [0x61] bs (new_wal 0 False 4096 None) = (Inr (), w)
     \<and> fst (write_node io_fine 0 demo_node (new_write_lane 0 42 (new_wal 0 False 4096 None))) \<noteq> Inr ()"
proof -
  from demo_node_facts(3) obtain bs where bs: "serialize_node demo_node = Inr bs" "length bs = 37" by blast
  have "\<exists>w. wal_append io_fine 0 EntryTypeNode [0x61] bs (new_wal 0 False 4096 None) = (Inr (), w)"
    by (simp add: wal_append_def new_wal_def new_bufio_def Let_def bufio_write.simps length_serialize_entry bs
        io_fine_def wal_room_def)
  then obtain w where w: "wal_append io_fine 0 EntryTypeNode [0x61] bs (new_wal 0 False 4096 None) = (Inr (), w)" ..
  obtain r l' where run: "write_node io_fine 0 demo_node (new_write_lane 0 42 (new_wal 0 False 4096 None)) = (r, l')"
    by force
  let ?l = "new_write_lane 0 42 (new_wal 0 False 4096 None)"
  have "\<not> l_stopped ?l" "mt_inv (l_active ?l)" "mt_maxSize (l_active ?l) = l_memtableSize ?l"
    "mt_data (l_active ?l) (node_key (n_ID demo_node)) \<noteq> Some SvNil"
    by (simp_all add: new_write_lane_def) (simp_all add: mt_new_def)
  from write_node_succeeds_iff [OF this(1) bs(1) _ this(2-4) run] w run bs
  show ?thesis by (auto simp: demo_node_facts)
qed

end
