(* ===== verification/Lru_Cache.thy ===== *)
theory Lru_Cache
  imports Complex_Main Prelude "HOL-Library.AList"
begin

text \<open>
  \<open>pkg/cache/lru.go\<close>.  The eviction list is a list of elements, front first; an element has
  an identity, since \<open>items\<close> maps a key to a pointer to it.  Every operation holds the mutex
  for what it changes, so it is a state transformer.  Sizes are \<open>int64\<close> sums of lengths of
  data in memory, so they are integers; the counters are 64-bit words.  A \<open>float64\<close> rate is
  the exact quotient.
\<close>

section \<open>State and operations\<close>

record 'v centry =
  ce_Key :: bytes
  ce_Value :: 'v
  ce_Size :: int
  ce_Version :: u64

record 'v lru =
  lr_maxSize :: int
  lr_currentSize :: int
  lr_items :: "(bytes \<times> nat) list"
  lr_list :: "(nat \<times> 'v centry) list"
  lr_next :: nat
  lr_hits :: u64
  lr_misses :: u64
  lr_evictions :: u64

definition new_lru :: "int \<Rightarrow> 'v lru" where
  "new_lru maxSize = \<lparr>lr_maxSize = maxSize, lr_currentSize = 0, lr_items = [], lr_list = [],
     lr_next = 0, lr_hits = 0, lr_misses = 0, lr_evictions = 0\<rparr>"

definition lru_entry :: "'v lru \<Rightarrow> bytes \<Rightarrow> 'v centry option" where
  \<comment> \<open>\<open>c.items[key]\<close> and the entry its element holds\<close>
  "lru_entry c key = (case map_of (lr_items c) key of None \<Rightarrow> None | Some i \<Rightarrow> map_of (lr_list c) i)"

definition lru_get :: "bytes \<Rightarrow> 'v lru \<Rightarrow> 'v option \<times> 'v lru" where
  "lru_get key c =
     (case lru_entry c key of
        None \<Rightarrow> (None, c\<lparr>lr_misses := lr_misses c + 1\<rparr>)
      | Some e \<Rightarrow> (Some (ce_Value e), c\<lparr>lr_hits := lr_hits c + 1\<rparr>))"

definition list_remove :: "nat \<Rightarrow> (nat \<times> 'v centry) list \<Rightarrow> (nat \<times> 'v centry) list" where
  "list_remove i xs = filter (\<lambda>(j, _). j \<noteq> i) xs"

definition remove_element :: "nat \<times> 'v centry \<Rightarrow> 'v lru \<Rightarrow> 'v lru" where
  "remove_element elem c =
     c\<lparr>lr_list := list_remove (fst elem) (lr_list c),
       lr_items := AList.delete (ce_Key (snd elem)) (lr_items c),
       lr_currentSize := lr_currentSize c + - ce_Size (snd elem)\<rparr>"

definition evict_oldest :: "'v lru \<Rightarrow> 'v lru" where
  "evict_oldest c =
     (if lr_list c = [] then c
      else (remove_element (last (lr_list c)) c)\<lparr>lr_evictions := lr_evictions c + 1\<rparr>)"

lemma list_remove_last_less: "xs \<noteq> [] \<Longrightarrow> length (list_remove (fst (last xs)) xs) < length xs"
  by (auto simp: list_remove_def intro!: length_filter_less [of "last xs"])

text \<open>\<open>for c.currentSize.Load()+size > c.maxSize && c.evictList.Len() > 0\<close>\<close>

function evict_for :: "int \<Rightarrow> 'v lru \<Rightarrow> 'v lru" where
  "evict_for sz c =
     (if lr_currentSize c + sz > lr_maxSize c \<and> lr_list c \<noteq> [] then evict_for sz (evict_oldest c) else c)"
  by pat_completeness auto
termination
  by (relation "measure (\<lambda>(_, c). length (lr_list c))")
    (auto simp: evict_oldest_def remove_element_def list_remove_last_less)

declare evict_for.simps [simp del]

definition lru_put :: "bytes \<Rightarrow> 'v \<Rightarrow> int \<Rightarrow> 'v lru \<Rightarrow> unit res \<times> 'v lru" where
  "lru_put key val sz c =
     (case map_of (lr_items c) key of
        Some i \<Rightarrow>
          (case map_of (lr_list c) i of
             Some e \<Rightarrow>
               let e' = e\<lparr>ce_Value := val, ce_Size := sz, ce_Version := ce_Version e + 1\<rparr>
               in (Inr (), c\<lparr>lr_currentSize := lr_currentSize c + (sz - ce_Size e),
                             lr_list := (i, e') # list_remove i (lr_list c)\<rparr>)
           | None \<Rightarrow> (Inl (Panic ''nil element''), c))
      | None \<Rightarrow>
          let c = evict_for sz c
          in if sz > lr_maxSize c then (Inl (Err ''entry size exceeds cache max size''), c)
             else (Inr (), c\<lparr>lr_list := (lr_next c, \<lparr>ce_Key = key, ce_Value = val, ce_Size = sz,
                                             ce_Version = 1\<rparr>) # lr_list c,
                             lr_items := AList.update key (lr_next c) (lr_items c),
                             lr_next := Suc (lr_next c),
                             lr_currentSize := lr_currentSize c + sz\<rparr>))"

definition lru_invalidate :: "bytes \<Rightarrow> 'v lru \<Rightarrow> 'v lru" where
  "lru_invalidate key c =
     (case map_of (lr_items c) key of
        None \<Rightarrow> c
      | Some i \<Rightarrow> (case map_of (lr_list c) i of None \<Rightarrow> c | Some e \<Rightarrow> remove_element (i, e) c))"

definition lru_clear :: "'v lru \<Rightarrow> 'v lru" where
  "lru_clear c = c\<lparr>lr_items := [], lr_list := [], lr_currentSize := 0\<rparr>"

definition lru_resize :: "int \<Rightarrow> 'v lru \<Rightarrow> 'v lru" where
  "lru_resize newSize c = evict_for 0 (c\<lparr>lr_maxSize := newSize\<rparr>)"

definition lru_contains :: "'v lru \<Rightarrow> bytes \<Rightarrow> bool" where
  "lru_contains c key = (map_of (lr_items c) key \<noteq> None)"

definition lru_peek :: "'v lru \<Rightarrow> bytes \<Rightarrow> 'v option" where
  "lru_peek c key = map_option ce_Value (lru_entry c key)"

definition lru_len :: "'v lru \<Rightarrow> nat" where
  "lru_len c = length (lr_items c)"

definition lru_size :: "'v lru \<Rightarrow> int" where
  "lru_size c = lr_currentSize c"

record cache_stats =
  cs_Size :: int
  cs_MaxSize :: int
  cs_Entries :: nat
  cs_Hits :: u64
  cs_Misses :: u64
  cs_Evictions :: u64
  cs_HitRate :: rat
  cs_Utilization :: rat

definition hit_rate :: "u64 \<Rightarrow> u64 \<Rightarrow> rat" where
  "hit_rate hits misses =
     (let total = hits + misses in if total > 0 then of_nat (unat hits) / of_nat (unat total) else 0)"

definition lru_stats :: "'v lru \<Rightarrow> cache_stats" where
  "lru_stats c =
     \<lparr>cs_Size = lr_currentSize c, cs_MaxSize = lr_maxSize c, cs_Entries = length (lr_items c),
      cs_Hits = lr_hits c, cs_Misses = lr_misses c, cs_Evictions = lr_evictions c,
      cs_HitRate = hit_rate (lr_hits c) (lr_misses c),
      cs_Utilization =
        (if lr_maxSize c > 0 then of_int (lr_currentSize c) / of_int (lr_maxSize c) else 0)\<rparr>"

section \<open>The invariant\<close>

definition keys_of :: "(nat \<times> 'v centry) list \<Rightarrow> bytes list" where
  "keys_of xs = map (ce_Key \<circ> snd) xs"

definition sizes_of :: "(nat \<times> 'v centry) list \<Rightarrow> int" where
  "sizes_of xs = sum_list (map (ce_Size \<circ> snd) xs)"

text \<open>
  The map and the list hold the same elements, each key once; the size is the sum of the
  entries' sizes.
\<close>

definition lru_inv :: "'v lru \<Rightarrow> bool" where
  "lru_inv c \<longleftrightarrow> distinct (map fst (lr_list c)) \<and> distinct (keys_of (lr_list c))
     \<and> (\<forall>i\<in>fst ` set (lr_list c). i < lr_next c)
     \<and> distinct (map fst (lr_items c)) \<and> length (lr_items c) = length (lr_list c)
     \<and> (\<forall>p\<in>set (lr_list c). map_of (lr_items c) (ce_Key (snd p)) = Some (fst p))
     \<and> lr_currentSize c = sizes_of (lr_list c)"

lemma lru_items_iff:
  assumes "lru_inv c"
  shows "map_of (lr_items c) k = Some i \<longleftrightarrow> (\<exists>e. (i, e) \<in> set (lr_list c) \<and> ce_Key e = k)"
proof -
  let ?its = "lr_items c" and ?l = "lr_list c"
  have sub: "set (keys_of ?l) \<subseteq> fst ` set ?its"
    using assms by (auto simp: lru_inv_def keys_of_def dest!: map_of_SomeD) force
  have "card (set (keys_of ?l)) = length ?l" "card (fst ` set ?its) = length ?its"
    using assms distinct_card [of "keys_of ?l"] distinct_card [of "map fst ?its"]
    by (simp_all add: lru_inv_def keys_of_def)
  with assms have "card (set (keys_of ?l)) = card (fst ` set ?its)" by (simp add: lru_inv_def)
  with sub have eq: "set (keys_of ?l) = fst ` set ?its" by (simp add: card_subset_eq)
  show ?thesis
  proof
    assume k: "map_of ?its k = Some i"
    then have "k \<in> set (keys_of ?l)" unfolding eq by (force dest: map_of_SomeD)
    then obtain j e where "(j, e) \<in> set ?l" "ce_Key e = k" by (auto simp: keys_of_def)
    moreover with assms have "map_of ?its k = Some j" by (auto simp: lru_inv_def)
    ultimately show "\<exists>e. (i, e) \<in> set ?l \<and> ce_Key e = k" using k by auto
  qed (use assms in \<open>auto simp: lru_inv_def\<close>)
qed

lemma lru_entry_iff:
  assumes "lru_inv c"
  shows "lru_entry c k = Some e \<longleftrightarrow> e \<in> snd ` set (lr_list c) \<and> ce_Key e = k"
proof
  assume "lru_entry c k = Some e"
  then obtain i where i: "map_of (lr_items c) k = Some i" "map_of (lr_list c) i = Some e"
    by (auto simp: lru_entry_def split: option.splits)
  then obtain e' where "(i, e') \<in> set (lr_list c)" "ce_Key e' = k"
    using lru_items_iff [OF assms] by blast
  moreover with i assms have "e' = e" by (simp add: lru_inv_def)
  ultimately show "e \<in> snd ` set (lr_list c) \<and> ce_Key e = k" by force
next
  assume "e \<in> snd ` set (lr_list c) \<and> ce_Key e = k"
  then obtain i where i: "(i, e) \<in> set (lr_list c)" "ce_Key e = k" by auto
  with assms show "lru_entry c k = Some e"
    by (auto simp: lru_entry_def lru_inv_def)
qed

lemma lru_inv_new: "lru_inv (new_lru maxSize)"
  by (simp add: lru_inv_def new_lru_def keys_of_def sizes_of_def)

lemma list_remove_other: "i \<notin> fst ` set xs \<Longrightarrow> list_remove i xs = xs"
  by (force simp: list_remove_def filter_id_conv)

lemma remove_split:
  assumes "distinct (map fst xs)" and "(i, e) \<in> set xs"
  obtains as bs where "xs = as @ (i, e) # bs" "list_remove i xs = as @ bs"
proof -
  from assms(2) obtain as bs where xs: "xs = as @ (i, e) # bs" by (meson split_list)
  with assms(1) have "i \<notin> fst ` set as" "i \<notin> fst ` set bs" by auto
  then have "list_remove i as = as" "list_remove i bs = bs" by (simp_all add: list_remove_other)
  then have "list_remove i xs = as @ bs" by (simp add: xs list_remove_def)
  with that xs show thesis by blast
qed

lemma sizes_of_remove:
  "distinct (map fst xs) \<Longrightarrow> (i, e) \<in> set xs \<Longrightarrow> sizes_of (list_remove i xs) = sizes_of xs - ce_Size e"
  by (erule (1) remove_split) (simp add: sizes_of_def)

lemma length_remove:
  "distinct (map fst xs) \<Longrightarrow> (i, e) \<in> set xs \<Longrightarrow> length (list_remove i xs) = length xs - 1"
  by (erule (1) remove_split) simp

lemma length_delete:
  "distinct (map fst al) \<Longrightarrow> map_of al k = Some v \<Longrightarrow> length (AList.delete k al) = length al - 1"
proof (induction al)
  case (Cons p al)
  show ?case
  proof (cases "fst p = k")
    case True
    with Cons.prems have "k \<notin> fst ` set al" by auto
    then have "AList.delete k al = al" by (rule delete_id)
    with True show ?thesis by (cases p) (simp add: AList.delete_eq)
  next
    case False
    with Cons have "map_of al k = Some v" by (cases p) auto
    with Cons False show ?thesis by (cases al) (auto simp: AList.delete_eq)
  qed
qed simp

lemma remove_element_inv:
  assumes inv: "lru_inv c" and mem: "(i, e) \<in> set (lr_list c)"
  shows "lru_inv (remove_element (i, e) c)"
proof -
  have it: "map_of (lr_items c) (ce_Key e) = Some i" using assms by (auto simp: lru_inv_def)
  have keys: "ce_Key e' \<noteq> ce_Key e" if "(j, e') \<in> set (lr_list c)" "j \<noteq> i" for j e'
  proof
    assume "ce_Key e' = ce_Key e"
    with that(1) inv have "map_of (lr_items c) (ce_Key e) = Some j" by (auto simp: lru_inv_def)
    with it that(2) show False by simp
  qed
  have "distinct (keys_of (list_remove i (lr_list c)))"
    using inv by (auto simp: lru_inv_def keys_of_def list_remove_def distinct_map_filter)
  moreover have "distinct (map fst (list_remove i (lr_list c)))"
    using inv by (auto simp: lru_inv_def list_remove_def distinct_map_filter)
  ultimately show ?thesis
    using inv mem it keys length_delete [of "lr_items c" "ce_Key e" i] length_remove [of "lr_list c" i e]
      sizes_of_remove [of "lr_list c" i e]
    by (auto simp: lru_inv_def remove_element_def list_remove_def delete_conv' distinct_delete)
qed

lemma lru_inv_stats [simp]:
  "lru_inv (c\<lparr>lr_hits := h\<rparr>) = lru_inv c" "lru_inv (c\<lparr>lr_misses := h\<rparr>) = lru_inv c"
  "lru_inv (c\<lparr>lr_evictions := h\<rparr>) = lru_inv c" "lru_inv (c\<lparr>lr_maxSize := s\<rparr>) = lru_inv c"
  by (simp_all add: lru_inv_def)

text \<open>Evicting drops the last element, whatever it is.\<close>

lemma remove_last:
  assumes "distinct (map fst xs)" and "xs \<noteq> []"
  shows "list_remove (fst (last xs)) xs = butlast xs"
proof -
  from assms(2) obtain ys y where xs: "xs = ys @ [y]" by (metis rev_exhaust)
  with assms(1) have "list_remove (fst y) ys = ys" by (intro list_remove_other) auto
  then show ?thesis by (simp add: xs list_remove_def split_beta)
qed

lemma evict_oldest_eq:
  assumes "lru_inv c" and "lr_list c \<noteq> []"
  shows "lru_inv (evict_oldest c)" "lr_list (evict_oldest c) = butlast (lr_list c)"
    "lr_maxSize (evict_oldest c) = lr_maxSize c"
proof -
  obtain i e where l: "last (lr_list c) = (i, e)" by force
  with assms(2) have "(i, e) \<in> set (lr_list c)" by (metis last_in_set)
  from remove_element_inv [OF assms(1) this] l assms(2) show "lru_inv (evict_oldest c)"
    by (simp add: evict_oldest_def)
  show "lr_list (evict_oldest c) = butlast (lr_list c)" "lr_maxSize (evict_oldest c) = lr_maxSize c"
    using assms remove_last [of "lr_list c"] by (simp_all add: evict_oldest_def remove_element_def lru_inv_def)
qed

text \<open>
  The loop keeps the longest prefix of the list (the most recently written entries) that
  leaves the room, taking entries from the back.
\<close>

lemma evict_for_spec:
  assumes "lru_inv c"
  shows "lru_inv (evict_for sz c)" "lr_maxSize (evict_for sz c) = lr_maxSize c"
    "\<exists>n\<le>length (lr_list c). lr_list (evict_for sz c) = take n (lr_list c)
       \<and> (n = 0 \<or> sizes_of (take n (lr_list c)) + sz \<le> lr_maxSize c)
       \<and> (\<forall>m. n < m \<and> m \<le> length (lr_list c) \<longrightarrow> sizes_of (take m (lr_list c)) + sz > lr_maxSize c)"
proof -
  have "lru_inv (evict_for sz c) \<and> lr_maxSize (evict_for sz c) = lr_maxSize c
    \<and> (\<exists>n\<le>length (lr_list c). lr_list (evict_for sz c) = take n (lr_list c)
       \<and> (n = 0 \<or> sizes_of (take n (lr_list c)) + sz \<le> lr_maxSize c)
       \<and> (\<forall>m. n < m \<and> m \<le> length (lr_list c) \<longrightarrow> sizes_of (take m (lr_list c)) + sz > lr_maxSize c))"
    using assms
  proof (induction sz c rule: evict_for.induct)
    case (1 sz c)
    show ?case
    proof (cases "lr_currentSize c + sz > lr_maxSize c \<and> lr_list c \<noteq> []")
      case False
      with "1.prems" show ?thesis
        by (subst (1 2 3) evict_for.simps) (auto simp: lru_inv_def intro!: exI [of _ "length (lr_list c)"])
    next
      case True
      note E = evict_oldest_eq [OF "1.prems" conjunct2 [OF True]]
      from "1.IH" [OF True E(1)] obtain n where IH: "lru_inv (evict_for sz (evict_oldest c))"
        "lr_maxSize (evict_for sz (evict_oldest c)) = lr_maxSize c"
        "n \<le> length (lr_list c) - 1" "lr_list (evict_for sz (evict_oldest c)) = take n (butlast (lr_list c))"
        "n = 0 \<or> sizes_of (take n (butlast (lr_list c))) + sz \<le> lr_maxSize c"
        "\<forall>m. n < m \<and> m \<le> length (lr_list c) - 1 \<longrightarrow> sizes_of (take m (butlast (lr_list c))) + sz > lr_maxSize c"
        by (auto simp: E)
      have tk: "take m (butlast (lr_list c)) = take m (lr_list c)" if "m \<le> length (lr_list c) - 1" for m
        using that by (cases "lr_list c" rule: rev_cases) simp_all
      have full: "sizes_of (take m (lr_list c)) + sz > lr_maxSize c" if "m = length (lr_list c)" for m
        using that True "1.prems" by (simp add: lru_inv_def)
      have step: "evict_for sz c = evict_for sz (evict_oldest c)"
        using True by (subst evict_for.simps) simp
      have "\<forall>m. n < m \<and> m \<le> length (lr_list c) \<longrightarrow> sizes_of (take m (lr_list c)) + sz > lr_maxSize c"
      proof (intro allI impI)
        fix m assume m: "n < m \<and> m \<le> length (lr_list c)"
        show "sizes_of (take m (lr_list c)) + sz > lr_maxSize c"
        proof (cases "m = length (lr_list c)")
          case False
          with m have "m \<le> length (lr_list c) - 1" by linarith
          with IH(6) m tk show ?thesis by metis
        qed (rule full)
      qed
      with IH tk step show ?thesis
        by (intro conjI exI [of _ n]) auto
    qed
  qed
  then show "lru_inv (evict_for sz c)" "lr_maxSize (evict_for sz c) = lr_maxSize c"
    "\<exists>n\<le>length (lr_list c). lr_list (evict_for sz c) = take n (lr_list c)
       \<and> (n = 0 \<or> sizes_of (take n (lr_list c)) + sz \<le> lr_maxSize c)
       \<and> (\<forall>m. n < m \<and> m \<le> length (lr_list c) \<longrightarrow> sizes_of (take m (lr_list c)) + sz > lr_maxSize c)"
    by blast+
qed

lemma lru_get_inv: "lru_inv c \<Longrightarrow> lru_inv (snd (lru_get k c))"
  by (auto simp: lru_get_def split: option.splits)

lemma lru_invalidate_inv: "lru_inv c \<Longrightarrow> lru_inv (lru_invalidate k c)"
  by (auto simp: lru_invalidate_def intro!: remove_element_inv dest: map_of_SomeD split: option.splits)

lemma lru_clear_inv: "lru_inv (lru_clear c)"
  by (simp add: lru_inv_def lru_clear_def keys_of_def sizes_of_def)

lemma lru_resize_inv: "lru_inv c \<Longrightarrow> lru_inv (lru_resize n c)"
  by (simp add: lru_resize_def evict_for_spec(1))

section \<open>Put\<close>

definition lru_view :: "'v lru \<Rightarrow> bytes \<rightharpoonup> 'v" where
  "lru_view c k = map_option ce_Value (lru_entry c k)"

lemma lru_view_iff:
  "lru_inv c \<Longrightarrow> lru_view c k = Some v \<longleftrightarrow> (\<exists>e\<in>snd ` set (lr_list c). ce_Key e = k \<and> ce_Value e = v)"
  by (auto simp: lru_view_def lru_entry_iff)

lemma update_append: "map_of al k = None \<Longrightarrow> AList.update k v al = al @ [(k, v)]"
  by (induction al) (auto split: if_splits)

lemma lru_view_None: "lru_inv c \<Longrightarrow> lru_view c k = None \<longleftrightarrow> k \<notin> set (keys_of (lr_list c))"
  using lru_view_iff [of c k] by (cases "lru_view c k") (force simp: keys_of_def)+

lemma lru_entry_None: "lru_inv c \<Longrightarrow> map_of (lr_items c) k = None \<longleftrightarrow> k \<notin> set (keys_of (lr_list c))"
  using lru_items_iff [of c k] by (cases "map_of (lr_items c) k") (force simp: keys_of_def)+

text \<open>An update of a cached key: a new version at the front, whatever its size.\<close>

lemma lru_put_update:
  assumes inv: "lru_inv c" and e: "lru_entry c key = Some e"
  shows "\<exists>i as bs. lr_list c = as @ (i, e) # bs
    \<and> lru_put key val sz c = (Inr (), c\<lparr>lr_currentSize := lr_currentSize c + (sz - ce_Size e),
        lr_list := (i, e\<lparr>ce_Value := val, ce_Size := sz, ce_Version := ce_Version e + 1\<rparr>) # as @ bs\<rparr>)
    \<and> lru_inv (snd (lru_put key val sz c))"
proof -
  from e obtain i where i: "map_of (lr_items c) key = Some i" "map_of (lr_list c) i = Some e"
    by (auto simp: lru_entry_def split: option.splits)
  then have mem: "(i, e) \<in> set (lr_list c)" by (simp add: map_of_SomeD)
  from inv have "distinct (map fst (lr_list c))" by (simp add: lru_inv_def)
  from remove_split [OF this mem] obtain as bs where
    l: "lr_list c = as @ (i, e) # bs" "list_remove i (lr_list c) = as @ bs" .
  let ?e = "e\<lparr>ce_Value := val, ce_Size := sz, ce_Version := ce_Version e + 1\<rparr>"
  have put: "lru_put key val sz c = (Inr (), c\<lparr>lr_currentSize := lr_currentSize c + (sz - ce_Size e),
        lr_list := (i, ?e) # as @ bs\<rparr>)"
    using i l(2) by (simp add: lru_put_def Let_def)
  moreover have "lru_inv (snd (lru_put key val sz c))"
  proof -
    from inv have df: "distinct (map fst (as @ (i, e) # bs))" and dk: "distinct (keys_of (as @ (i, e) # bs))"
      and lt: "\<forall>j\<in>fst ` set (as @ (i, e) # bs). j < lr_next c"
      and it: "distinct (map fst (lr_items c))" "length (lr_items c) = length (as @ (i, e) # bs)"
        "\<forall>p\<in>set (as @ (i, e) # bs). map_of (lr_items c) (ce_Key (snd p)) = Some (fst p)"
      and cs: "lr_currentSize c = sizes_of (as @ (i, e) # bs)"
      unfolding lru_inv_def l(1) by blast+
    have "distinct (map fst ((i, ?e) # as @ bs))" using df by simp
    moreover have "distinct (keys_of ((i, ?e) # as @ bs))" using dk by (simp add: keys_of_def)
    moreover have "\<forall>j\<in>fst ` set ((i, ?e) # as @ bs). j < lr_next c" using lt by simp
    moreover have "length (lr_items c) = length ((i, ?e) # as @ bs)" using it(2) by simp
    moreover have "\<forall>p\<in>set ((i, ?e) # as @ bs). map_of (lr_items c) (ce_Key (snd p)) = Some (fst p)"
      using it(3) by (simp del: map_of_eq_Some_iff)
    moreover have "lr_currentSize c + (sz - ce_Size e) = sizes_of ((i, ?e) # as @ bs)"
      using cs by (simp add: sizes_of_def)
    ultimately show ?thesis
      unfolding put lru_inv_def using it(1) by simp
  qed
  ultimately show ?thesis using l(1) by blast
qed

text \<open>A new key: room is made from the back, and the entry goes to the front.\<close>

lemma lru_put_new:
  assumes inv: "lru_inv c" and new: "lru_entry c key = None"
  shows "lru_put key val sz c =
     (if sz > lr_maxSize c then (Inl (Err ''entry size exceeds cache max size''), evict_for sz c)
      else (Inr (), (evict_for sz c)\<lparr>
        lr_list := (lr_next (evict_for sz c), \<lparr>ce_Key = key, ce_Value = val, ce_Size = sz, ce_Version = 1\<rparr>)
          # lr_list (evict_for sz c),
        lr_items := AList.update key (lr_next (evict_for sz c)) (lr_items (evict_for sz c)),
        lr_next := Suc (lr_next (evict_for sz c)),
        lr_currentSize := lr_currentSize (evict_for sz c) + sz\<rparr>))"
    and "lru_inv (snd (lru_put key val sz c))"
    and "key \<notin> set (keys_of (lr_list (evict_for sz c)))"
proof -
  have none: "key \<notin> set (keys_of (lr_list c))"
    using new lru_view_None [OF inv, of key] by (simp add: lru_view_def)
  then have "map_of (lr_items c) key = None" using lru_entry_None [OF inv] by blast
  then show put: "lru_put key val sz c =
     (if sz > lr_maxSize c then (Inl (Err ''entry size exceeds cache max size''), evict_for sz c)
      else (Inr (), (evict_for sz c)\<lparr>
        lr_list := (lr_next (evict_for sz c), \<lparr>ce_Key = key, ce_Value = val, ce_Size = sz, ce_Version = 1\<rparr>)
          # lr_list (evict_for sz c),
        lr_items := AList.update key (lr_next (evict_for sz c)) (lr_items (evict_for sz c)),
        lr_next := Suc (lr_next (evict_for sz c)),
        lr_currentSize := lr_currentSize (evict_for sz c) + sz\<rparr>))"
    by (simp add: lru_put_def Let_def evict_for_spec(2) [OF inv])
  note E = evict_for_spec [OF inv, of sz]
  from E(3) obtain n where "lr_list (evict_for sz c) = take n (lr_list c)" by blast
  with none show notin: "key \<notin> set (keys_of (lr_list (evict_for sz c)))"
    by (auto simp: keys_of_def dest: in_set_takeD)
  have fresh: "map_of (lr_items (evict_for sz c)) key = None" using lru_entry_None [OF E(1)] notin by blast
  then have "AList.update key i (lr_items (evict_for sz c)) = lr_items (evict_for sz c) @ [(key, i)]" for i
    by (rule update_append)
  with fresh E(1) notin show "lru_inv (snd (lru_put key val sz c))"
    unfolding put by (auto simp: lru_inv_def keys_of_def sizes_of_def map_of_eq_None_iff map_add_def
        split: option.splits)
qed

lemma lru_put_inv: "lru_inv c \<Longrightarrow> lru_inv (snd (lru_put key val sz c))"
  by (cases "lru_entry c key") (blast dest: lru_put_update lru_put_new(2))+

section \<open>The interface\<close>

text \<open>
  What a client relies on: a lookup gives the view; a put may forget other keys but never
  changes what they give; a put that fails leaves the key out; an invalidated key is gone.
  So a cache whose values all satisfy \<open>P\<close> keeps doing so.
\<close>

locale cache_laws =
  fixes view :: "'c \<Rightarrow> bytes \<rightharpoonup> 'v"
    and get :: "bytes \<Rightarrow> 'c \<Rightarrow> 'v option \<times> 'c"
    and put :: "bytes \<Rightarrow> 'v \<Rightarrow> int \<Rightarrow> 'c \<Rightarrow> unit res \<times> 'c"
    and invalidate :: "bytes \<Rightarrow> 'c \<Rightarrow> 'c"
    and inv :: "'c \<Rightarrow> bool"
  assumes get_view: "inv c \<Longrightarrow> fst (get k c) = view c k"
    and get_same: "inv c \<Longrightarrow> view (snd (get k c)) = view c \<and> inv (snd (get k c))"
    and put_inv: "inv c \<Longrightarrow> inv (snd (put k v sz c))"
    and put_own: "inv c \<Longrightarrow> view (snd (put k v sz c)) k = (if succeeds (fst (put k v sz c)) then Some v else None)"
    and put_other: "inv c \<Longrightarrow> j \<noteq> k \<Longrightarrow> view (snd (put k v sz c)) j = Some x \<Longrightarrow> view c j = Some x"
    and invalidate_inv: "inv c \<Longrightarrow> inv (invalidate k c)"
    and invalidate_view: "inv c \<Longrightarrow> view (invalidate k c) = (view c)(k := None)"
begin

lemma put_keeps:
  assumes "inv c" and "\<And>j x. view c j = Some x \<Longrightarrow> P j x" and "P k v"
    and "view (snd (put k v sz c)) j = Some x"
  shows "P j x"
  using assms put_own [OF assms(1), of k v sz] put_other [OF assms(1), of j k v sz x]
  by (cases "j = k") (auto split: if_splits)

text \<open>After an invalidation the property may change at the key.\<close>

lemma invalidate_keeps:
  assumes "inv c" and "\<And>j x. view c j = Some x \<Longrightarrow> P j x" and "\<And>j x. j \<noteq> k \<Longrightarrow> P j x \<Longrightarrow> Q j x"
    and "view (invalidate k c) j = Some x"
  shows "Q j x"
  using assms(2-4) invalidate_view [OF assms(1), of k] by (auto split: if_splits)

lemma get_hit: "inv c \<Longrightarrow> get k c = (Some v, c') \<Longrightarrow> view c k = Some v"
  using get_view [of c k] by simp

end

lemma lru_view_stats [simp]:
  "lru_view (c\<lparr>lr_hits := h\<rparr>) = lru_view c" "lru_view (c\<lparr>lr_misses := h\<rparr>) = lru_view c"
  by (simp_all add: lru_view_def lru_entry_def fun_eq_iff split: option.splits)

lemma lru_view_put_update:
  assumes inv: "lru_inv c" and e: "lru_entry c key = Some e"
  shows "lru_view (snd (lru_put key val sz c)) = (lru_view c)(key \<mapsto> val)"
proof
  fix k
  from lru_put_update [OF assms, of val sz] obtain i as bs where l: "lr_list c = as @ (i, e) # bs"
    and put: "lru_put key val sz c = (Inr (), c\<lparr>lr_currentSize := lr_currentSize c + (sz - ce_Size e),
        lr_list := (i, e\<lparr>ce_Value := val, ce_Size := sz, ce_Version := ce_Version e + 1\<rparr>) # as @ bs\<rparr>)"
    and inv': "lru_inv (snd (lru_put key val sz c))" by blast
  have ek: "ce_Key e = key" using e lru_entry_iff [OF inv] by blast
  from inv have "distinct (keys_of (as @ (i, e) # bs))" by (simp add: lru_inv_def l)
  then have "key \<notin> set (keys_of (as @ bs))" by (simp add: keys_of_def ek)
  show "lru_view (snd (lru_put key val sz c)) k = ((lru_view c)(key \<mapsto> val)) k"
  proof (cases "k = key")
    case True
    have "lru_view (snd (lru_put key val sz c)) key = Some val"
      by (rule iffD2 [OF lru_view_iff [OF inv']]) (simp add: put ek)
    with True show ?thesis by simp
  next
    case False
    have "lru_view (snd (lru_put key val sz c)) k = Some v \<longleftrightarrow> lru_view c k = Some v" for v
      unfolding lru_view_iff [OF inv] lru_view_iff [OF inv'] using False by (auto simp: put l ek)
    with False show ?thesis by (metis fun_upd_other not_Some_eq)
  qed
qed

lemma lru_view_put_new:
  assumes inv: "lru_inv c" and new: "lru_entry c key = None"
  shows "lru_view (snd (lru_put key val sz c)) key = (if succeeds (fst (lru_put key val sz c)) then Some val else None)"
    and "j \<noteq> key \<Longrightarrow> lru_view (snd (lru_put key val sz c)) j = Some x \<Longrightarrow> lru_view c j = Some x"
proof -
  note P = lru_put_new(1,2) [OF inv new, of val sz] lru_put_new(3) [OF inv new, of sz]
  note E = evict_for_spec [OF inv, of sz]
  from E(3) obtain n where n: "lr_list (evict_for sz c) = take n (lr_list c)" by blast
  show "lru_view (snd (lru_put key val sz c)) key = (if succeeds (fst (lru_put key val sz c)) then Some val else None)"
  proof (cases "sz > lr_maxSize c")
    case True
    then show ?thesis using P(3) lru_view_None [OF E(1)] by (simp add: P(1))
  next
    case False
    then have ok: "succeeds (fst (lru_put key val sz c))" by (simp add: P(1))
    have "lru_view (snd (lru_put key val sz c)) key = Some val"
      by (rule iffD2 [OF lru_view_iff [OF P(2)]]) (use False in \<open>simp add: P(1)\<close>)
    with ok show ?thesis by simp
  qed
  assume "j \<noteq> key" "lru_view (snd (lru_put key val sz c)) j = Some x"
  then have "\<exists>e\<in>snd ` set (take n (lr_list c)). ce_Key e = j \<and> ce_Value e = x"
    unfolding lru_view_iff [OF P(2)] unfolding P(1) by (auto simp: n split: if_splits)
  then show "lru_view c j = Some x"
    unfolding lru_view_iff [OF inv] by (auto dest: in_set_takeD)
qed

lemma lru_view_invalidate:
  assumes inv: "lru_inv c"
  shows "lru_view (lru_invalidate k c) = (lru_view c)(k := None)"
proof (cases "lru_entry c k")
  case None
  then have "lru_invalidate k c = c" by (auto simp: lru_invalidate_def lru_entry_def split: option.splits)
  with None show ?thesis by (auto simp: lru_view_def fun_eq_iff)
next
  case (Some e)
  then obtain i where i: "map_of (lr_items c) k = Some i" "map_of (lr_list c) i = Some e"
    by (auto simp: lru_entry_def split: option.splits)
  then have mem: "(i, e) \<in> set (lr_list c)" by (simp add: map_of_SomeD)
  have ek: "ce_Key e = k" using Some lru_entry_iff [OF inv] by blast
  have inv': "lru_inv (remove_element (i, e) c)" by (rule remove_element_inv [OF inv mem])
  from inv have d: "distinct (map fst (lr_list c))" by (simp add: lru_inv_def)
  from remove_split [OF d mem] obtain as bs where
    l: "lr_list c = as @ (i, e) # bs" "list_remove i (lr_list c) = as @ bs" .
  from inv have "distinct (keys_of (as @ (i, e) # bs))" by (simp add: lru_inv_def l)
  then have gone: "k \<notin> set (keys_of (as @ bs))" by (simp add: keys_of_def ek)
  have inval: "lru_invalidate k c = remove_element (i, e) c" by (simp add: lru_invalidate_def i)
  have rem: "lr_list (remove_element (i, e) c) = as @ bs" by (simp add: remove_element_def l(2))
  show ?thesis
  proof
    fix j
    show "lru_view (lru_invalidate k c) j = ((lru_view c)(k := None)) j"
    proof (cases "j = k")
      case True
      from gone have "lru_view (remove_element (i, e) c) k = None"
        by (intro iffD2 [OF lru_view_None [OF inv']]) (simp add: remove_element_def l(2))
      with True show ?thesis by (simp add: inval)
    next
      case False
      have "lru_view (remove_element (i, e) c) j = Some v \<longleftrightarrow> lru_view c j = Some v" for v
        unfolding lru_view_iff [OF inv] lru_view_iff [OF inv'] l(1) rem using False ek by auto
      with False show ?thesis unfolding inval by (metis fun_upd_other not_Some_eq)
    qed
  qed
qed

interpretation lru_cache: cache_laws lru_view lru_get lru_put lru_invalidate lru_inv
proof
  show "fst (lru_get k c) = lru_view c k" for k and c :: "'a lru"
    by (simp add: lru_get_def lru_view_def split: option.splits)
  show "lru_inv c \<Longrightarrow> lru_view (snd (lru_get k c)) = lru_view c \<and> lru_inv (snd (lru_get k c))" for k and c :: "'a lru"
    using lru_get_inv [of c k] by (auto simp: lru_get_def split: option.splits)
  show "lru_inv c \<Longrightarrow> lru_view (snd (lru_put k v sz c)) k = (if succeeds (fst (lru_put k v sz c)) then Some v else None)"
    for k v sz and c :: "'a lru"
  proof (cases "lru_entry c k")
    case (Some e)
    assume "lru_inv c"
    with Some show ?thesis
      using lru_view_put_update [of c k e v sz] lru_put_update [of c k e v sz] by auto
  qed (rule lru_view_put_new)
  show "lru_inv c \<Longrightarrow> j \<noteq> k \<Longrightarrow> lru_view (snd (lru_put k v sz c)) j = Some x \<Longrightarrow> lru_view c j = Some x"
    for j k v sz x and c :: "'a lru"
    using lru_view_put_update [of c k _ v sz] lru_view_put_new(2) [of c k j v sz x] by (cases "lru_entry c k") auto
qed (simp_all add: lru_put_inv lru_invalidate_inv lru_view_invalidate)

section \<open>Runs\<close>

inductive lru_reach :: "int \<Rightarrow> 'v lru \<Rightarrow> bool" for maxSize where
  new: "lru_reach maxSize (new_lru maxSize)"
| get: "lru_reach maxSize c \<Longrightarrow> lru_reach maxSize (snd (lru_get k c))"
| put: "lru_reach maxSize c \<Longrightarrow> lru_reach maxSize (snd (lru_put k v sz c))"
| invalidate: "lru_reach maxSize c \<Longrightarrow> lru_reach maxSize (lru_invalidate k c)"
| clear: "lru_reach maxSize c \<Longrightarrow> lru_reach maxSize (lru_clear c)"
| resize: "lru_reach maxSize c \<Longrightarrow> lru_reach maxSize (lru_resize n c)"

inductive_cases lru_reach_elim: "lru_reach maxSize c"

lemma lru_reach_inv: "lru_reach maxSize c \<Longrightarrow> lru_inv c"
  by (induction rule: lru_reach.induct)
    (auto intro: lru_inv_new lru_get_inv lru_put_inv lru_invalidate_inv lru_clear_inv lru_resize_inv)

text \<open>
  C20: The cache's accounting.  In every state that any sequence of operations reaches, the
  recency list holds each key once, the map finds exactly those keys, and the reported size
  is the sum of the sizes of the entries in the list.
\<close>

theorem lru_accounting:
  assumes "lru_reach maxSize c"
  shows "distinct (keys_of (lr_list c))
    \<and> (lru_contains c k \<longleftrightarrow> k \<in> set (keys_of (lr_list c)))
    \<and> (lru_peek c k = Some v \<longleftrightarrow> (\<exists>e\<in>snd ` set (lr_list c). ce_Key e = k \<and> ce_Value e = v))
    \<and> lru_len c = length (lr_list c) \<and> lru_size c = sizes_of (lr_list c)"
proof -
  have inv: "lru_inv c" using lru_reach_inv [OF assms] .
  then have "distinct (keys_of (lr_list c))" "lru_len c = length (lr_list c)" "lru_size c = sizes_of (lr_list c)"
    by (simp_all add: lru_inv_def lru_len_def lru_size_def)
  moreover have "lru_contains c k \<longleftrightarrow> k \<in> set (keys_of (lr_list c))"
    unfolding lru_contains_def lru_entry_None [OF inv] by simp
  moreover have "lru_peek c k = Some v \<longleftrightarrow> (\<exists>e\<in>snd ` set (lr_list c). ce_Key e = k \<and> ce_Value e = v)"
    using lru_view_iff [OF inv, of k v] by (simp add: lru_peek_def lru_view_def)
  ultimately show ?thesis by blast
qed

theorem lru_accounting_witness:
  "lru_size (snd (lru_put [1] True 5 (new_lru 10))) = 5 \<and> lru_len (snd (lru_put [1] True 5 (new_lru 10))) = 1"
proof -
  have "lru_reach 10 (snd (lru_put [1] True 5 (new_lru 10)))"
    by (intro lru_reach.intros)
  note A = lru_accounting [OF this]
  have "lr_list (snd (lru_put [1] True 5 (new_lru 10))) =
      [(0, \<lparr>ce_Key = [1], ce_Value = True, ce_Size = 5, ce_Version = 1\<rparr>)]"
    by (simp add: lru_put_def new_lru_def evict_for.simps Let_def)
  with A show ?thesis by (simp add: sizes_of_def)
qed

text \<open>
  Eviction.  Putting a new key keeps the longest prefix of the recency list that leaves
  room for it (the entries evicted are the oldest, and no more than needed), puts the entry
  at the front and leaves the size within the maximum.  An entry larger than the whole
  cache is refused, but only after everything was evicted.
\<close>

theorem lru_put_evicts_oldest:
  assumes "lru_reach maxSize c" and "\<not> lru_contains c key" and "lru_put key val sz c = (r, c')"
    and "\<forall>e\<in>snd ` set (lr_list c). 0 \<le> ce_Size e"
  shows "if sz \<le> lr_maxSize c then r = Inr () \<and> lru_size c' \<le> lr_maxSize c
      \<and> (\<exists>n i. lr_list c' = (i, \<lparr>ce_Key = key, ce_Value = val, ce_Size = sz, ce_Version = 1\<rparr>) # take n (lr_list c)
          \<and> n \<le> length (lr_list c)
          \<and> (\<forall>m. n < m \<and> m \<le> length (lr_list c) \<longrightarrow> sizes_of (take m (lr_list c)) + sz > lr_maxSize c))
    else r = Inl (Err ''entry size exceeds cache max size'') \<and> lr_list c' = []"
proof -
  have inv: "lru_inv c" using lru_reach_inv [OF assms(1)] .
  have new: "lru_entry c key = None"
    using assms(2) by (simp add: lru_contains_def lru_entry_def)
  note P = lru_put_new(1,2) [OF inv new, of val sz]
  note E = evict_for_spec [OF inv, of sz]
  from E(3) obtain n where n: "n \<le> length (lr_list c)" "lr_list (evict_for sz c) = take n (lr_list c)"
    "n = 0 \<or> sizes_of (take n (lr_list c)) + sz \<le> lr_maxSize c"
    "\<forall>m. n < m \<and> m \<le> length (lr_list c) \<longrightarrow> sizes_of (take m (lr_list c)) + sz > lr_maxSize c" by blast
  have nonneg: "0 \<le> sizes_of (take n (lr_list c))"
    unfolding sizes_of_def using assms(4) by (intro sum_list_nonneg) (auto dest!: in_set_takeD)
  show ?thesis
  proof (cases "sz \<le> lr_maxSize c")
    case True
    then have put: "r = Inr ()" "lr_list c' = (lr_next (evict_for sz c),
        \<lparr>ce_Key = key, ce_Value = val, ce_Size = sz, ce_Version = 1\<rparr>) # take n (lr_list c)"
      "lru_inv c'"
      using P assms(3) n(2) by auto
    have "lru_size c' \<le> lr_maxSize c"
      using put(2,3) n(3) True by (auto simp: lru_inv_def lru_size_def sizes_of_def)
    with True put n(1,4) show ?thesis by auto
  next
    case False
    with n(3) nonneg have "n = 0" by auto
    with False P(1) assms(3) n(2) show ?thesis by auto
  qed
qed

theorem lru_put_evicts_oldest_witness:
  "\<exists>c' n i. lru_put [2] False 7 (snd (lru_put [1] True 5 (new_lru 10))) = (Inr (), c') \<and> lru_size c' \<le> 10
     \<and> lr_list c' = (i, \<lparr>ce_Key = [2], ce_Value = False, ce_Size = 7, ce_Version = 1\<rparr>)
         # take n (lr_list (snd (lru_put [1] True 5 (new_lru 10))))"
proof -
  let ?c = "snd (lru_put [1] True 5 (new_lru 10))"
  have reach: "lru_reach 10 ?c" by (intro lru_reach.intros)
  have c: "?c = \<lparr>lr_maxSize = 10, lr_currentSize = 5, lr_items = [([1], 0)],
      lr_list = [(0, \<lparr>ce_Key = [1], ce_Value = True, ce_Size = 5, ce_Version = 1\<rparr>)], lr_next = 1,
      lr_hits = 0, lr_misses = 0, lr_evictions = 0\<rparr>"
    by (simp add: lru_put_def new_lru_def evict_for.simps Let_def)
  obtain r c' where put: "lru_put [2] False 7 ?c = (r, c')" by force
  have "\<not> lru_contains ?c [2]" "\<forall>e\<in>snd ` set (lr_list ?c). 0 \<le> ce_Size e"
    unfolding c by (simp_all add: lru_contains_def)
  from lru_put_evicts_oldest [OF reach this(1) put this(2)] put show ?thesis
    by (auto simp: c)
qed

text \<open>
  An update of a cached key never evicts and never fails: the entry takes the new value
  and size whatever the maximum is, its version grows by one, and every other key keeps its
  value.  So the size can exceed the maximum until the next new key.
\<close>

theorem lru_put_existing:
  assumes "lru_reach maxSize c" and "lru_entry c key = Some e" and "lru_put key val sz c = (r, c')"
  shows "r = Inr () \<and> lru_size c' = lru_size c + sz - ce_Size e
    \<and> lru_entry c' key = Some (e\<lparr>ce_Value := val, ce_Size := sz, ce_Version := ce_Version e + 1\<rparr>)
    \<and> lru_peek c' = (lru_peek c)(key \<mapsto> val) \<and> lru_len c' = lru_len c"
proof -
  have inv: "lru_inv c" using lru_reach_inv [OF assms(1)] .
  from lru_put_update [OF inv assms(2), of val sz] assms(3) obtain i as bs where l: "lr_list c = as @ (i, e) # bs"
    and c': "r = Inr ()" "c' = c\<lparr>lr_currentSize := lr_currentSize c + (sz - ce_Size e),
        lr_list := (i, e\<lparr>ce_Value := val, ce_Size := sz, ce_Version := ce_Version e + 1\<rparr>) # as @ bs\<rparr>"
    and inv': "lru_inv c'" by auto
  have ek: "ce_Key e = key" using assms(2) lru_entry_iff [OF inv] by blast
  have "lru_entry c' key = Some (e\<lparr>ce_Value := val, ce_Size := sz, ce_Version := ce_Version e + 1\<rparr>)"
    by (rule iffD2 [OF lru_entry_iff [OF inv']]) (simp add: c'(2) ek)
  moreover have "lru_peek c' = (lru_peek c)(key \<mapsto> val)"
    using lru_view_put_update [OF inv assms(2), of val sz] assms(3)
    by (simp add: lru_view_def [abs_def] lru_peek_def [abs_def])
  ultimately show ?thesis using c' by (simp add: lru_size_def lru_len_def)
qed

theorem lru_put_existing_witness:
  "lru_size (snd (lru_put [1] True 100 (snd (lru_put [1] True 5 (new_lru 10))))) = 100
   \<and> lr_maxSize (snd (lru_put [1] True 100 (snd (lru_put [1] True 5 (new_lru 10))))) = 10"
proof -
  let ?c = "snd (lru_put [1] True 5 (new_lru 10))"
  have reach: "lru_reach 10 ?c" by (intro lru_reach.intros)
  have e: "lru_entry ?c [1] = Some \<lparr>ce_Key = [1], ce_Value = True, ce_Size = 5, ce_Version = 1\<rparr>"
    "lru_size ?c = 5"
    by (simp_all add: lru_put_def new_lru_def evict_for.simps Let_def lru_entry_def lru_size_def)
  obtain r c' where put: "lru_put [1] True 100 ?c = (r, c')" by force
  from lru_put_existing [OF reach e(1) put] put e(2) have "lru_size (snd (lru_put [1] True 100 ?c)) = 100" by simp
  moreover have "lr_maxSize (snd (lru_put [1] True 100 ?c)) = 10"
    by (simp add: lru_put_def new_lru_def evict_for.simps Let_def list_remove_def)
  ultimately show ?thesis by blast
qed

end
