(* ===== verification/Multilevel_Cache.thy ===== *)
theory Multilevel_Cache
  imports Lru_Cache Graph_Types "HOL-Library.Signed_Division"
begin

text \<open>
  \<open>pkg/cache/multilevel.go\<close>: three LRU caches over values of several dynamic types, and the
  counters.  A cached value is the record it points to; the engine caches clones only.
\<close>

section \<open>State and operations\<close>

datatype cval = CNode node | CEdge edge | CIds "bytes list" | CBytes slice | COther string

datatype tier = TierHot | TierConnection | TierData | TierOther int

record cache_metrics =
  cm_l0Hits :: u64
  cm_l0Misses :: u64
  cm_l1Hits :: u64
  cm_l1Misses :: u64
  cm_l2Hits :: u64
  cm_l2Misses :: u64
  cm_totalHits :: u64
  cm_totalMisses :: u64
  cm_invalidations :: u64

record mlc =
  mc_hot :: "cval lru"
  mc_connection :: "cval lru"
  mc_data :: "cval lru"
  mc_versions :: "(bytes \<times> u64) list"
  mc_totalSize :: int
  mc_metrics :: cache_metrics

definition zero_metrics :: cache_metrics where
  "zero_metrics = \<lparr>cm_l0Hits = 0, cm_l0Misses = 0, cm_l1Hits = 0, cm_l1Misses = 0, cm_l2Hits = 0,
     cm_l2Misses = 0, cm_totalHits = 0, cm_totalMisses = 0, cm_invalidations = 0\<rparr>"

definition new_mlc :: "int \<Rightarrow> int \<Rightarrow> int \<Rightarrow> mlc" where
  "new_mlc hotSize connectionSize dataSize =
     \<lparr>mc_hot = new_lru hotSize, mc_connection = new_lru connectionSize, mc_data = new_lru dataSize,
      mc_versions = [], mc_totalSize = hotSize + connectionSize + dataSize, mc_metrics = zero_metrics\<rparr>"

definition percent :: "int \<Rightarrow> int \<Rightarrow> int" where
  \<comment> \<open>\<open>size * p / 100\<close> on \<open>int64\<close>: the product wraps, the quotient rounds towards zero\<close>
  "percent sz p = signed_take_bit 63 (sz * p) sdiv 100"

definition new_mlc_from_size :: "int \<Rightarrow> mlc" where
  "new_mlc_from_size totalSize =
     \<lparr>mc_hot = new_lru (percent totalSize 40), mc_connection = new_lru (percent totalSize 30),
      mc_data = new_lru (percent totalSize 30), mc_versions = [], mc_totalSize = totalSize,
      mc_metrics = zero_metrics\<rparr>"

fun estimate_value :: "pval \<Rightarrow> int" where
  "estimate_value (PString v) = int (length v)"
| "estimate_value (PBytes v) = int (length v)"
| "estimate_value (PInt64 _) = 8"
| "estimate_value (PFloat64 _) = 8"
| "estimate_value (PBool _) = 8"
| "estimate_value _ = 16"

definition estimate_props :: "props option \<Rightarrow> int \<Rightarrow> int" where
  "estimate_props m sz = foldl (\<lambda>sz (key, value). sz + int (length key) + estimate_value value) sz (props_of m)"

definition estimate_node_size :: "node \<Rightarrow> int" where
  "estimate_node_size n =
     estimate_props (n_Properties n) (int (length (n_ID n)) + int (length (n_Labels n)) * 16) + 64"

definition estimate_edge_size :: "edge \<Rightarrow> int" where
  "estimate_edge_size e =
     estimate_props (e_Properties e)
       (int (length (e_ID e)) + int (length (e_FromNodeID e)) + int (length (e_ToNodeID e))
        + int (length (e_Type e))) + 64"

definition mlc_put :: "bytes \<Rightarrow> cval \<Rightarrow> tier \<Rightarrow> mlc \<Rightarrow> unit res \<times> mlc" where
  "mlc_put key val t c =
     (let sz = (case val of CNode n \<Rightarrow> estimate_node_size n | CEdge e \<Rightarrow> estimate_edge_size e
                 | CBytes v \<Rightarrow> int (length (slice_bytes v)) | _ \<Rightarrow> 64)
      in case t of
           TierConnection \<Rightarrow>
             (case lru_put key val sz (mc_connection c) of (r, l) \<Rightarrow> (r, c\<lparr>mc_connection := l\<rparr>))
         | TierData \<Rightarrow> (case lru_put key val sz (mc_data c) of (r, l) \<Rightarrow> (r, c\<lparr>mc_data := l\<rparr>))
         | _ \<Rightarrow> (case lru_put key val sz (mc_hot c) of (r, l) \<Rightarrow> (r, c\<lparr>mc_hot := l\<rparr>)))"

definition l0_hit :: "cache_metrics \<Rightarrow> cache_metrics" where
  "l0_hit m = m\<lparr>cm_l0Hits := cm_l0Hits m + 1, cm_totalHits := cm_totalHits m + 1\<rparr>"
definition l0_miss :: "cache_metrics \<Rightarrow> cache_metrics" where
  "l0_miss m = m\<lparr>cm_l0Misses := cm_l0Misses m + 1, cm_totalMisses := cm_totalMisses m + 1\<rparr>"
definition l1_hit :: "cache_metrics \<Rightarrow> cache_metrics" where
  "l1_hit m = m\<lparr>cm_l1Hits := cm_l1Hits m + 1, cm_totalHits := cm_totalHits m + 1\<rparr>"
definition l1_miss :: "cache_metrics \<Rightarrow> cache_metrics" where
  "l1_miss m = m\<lparr>cm_l1Misses := cm_l1Misses m + 1, cm_totalMisses := cm_totalMisses m + 1\<rparr>"
definition l2_hit :: "cache_metrics \<Rightarrow> cache_metrics" where
  "l2_hit m = m\<lparr>cm_l2Hits := cm_l2Hits m + 1, cm_totalHits := cm_totalHits m + 1\<rparr>"
definition l2_miss :: "cache_metrics \<Rightarrow> cache_metrics" where
  "l2_miss m = m\<lparr>cm_l2Misses := cm_l2Misses m + 1, cm_totalMisses := cm_totalMisses m + 1\<rparr>"

definition mlc_get :: "bytes \<Rightarrow> mlc \<Rightarrow> (cval option \<times> tier) \<times> mlc" where
  "mlc_get key c =
     (case lru_get key (mc_hot c) of
        (Some v, h) \<Rightarrow> ((Some v, TierHot), c\<lparr>mc_hot := h, mc_metrics := l0_hit (mc_metrics c)\<rparr>)
      | (None, h) \<Rightarrow>
          let c = c\<lparr>mc_hot := h\<rparr>
          in case lru_get key (mc_connection c) of
            (Some v, l) \<Rightarrow> ((Some v, TierConnection), c\<lparr>mc_connection := l, mc_metrics := l1_hit (mc_metrics c)\<rparr>)
          | (None, l) \<Rightarrow>
              let c = c\<lparr>mc_connection := l\<rparr>
              in case lru_get key (mc_data c) of
                (Some v, d) \<Rightarrow> ((Some v, TierData), c\<lparr>mc_data := d, mc_metrics := l2_hit (mc_metrics c)\<rparr>)
              | (None, d) \<Rightarrow>
                  ((None, TierHot), c\<lparr>mc_data := d,
                     mc_metrics := (mc_metrics c)\<lparr>cm_totalMisses := cm_totalMisses (mc_metrics c) + 1\<rparr>\<rparr>))"

text \<open>The typed lookups assert the dynamic type, which panics on any other.\<close>

definition bad_assertion :: "string \<Rightarrow> 'a res" where
  "bad_assertion ty = Inl (Panic (''interface conversion: interface {} is not '' @ ty))"

definition mlc_get_node :: "bytes \<Rightarrow> mlc \<Rightarrow> node option res \<times> mlc" where
  "mlc_get_node nodeID c =
     (case lru_get nodeID (mc_hot c) of
        (Some v, h) \<Rightarrow>
          (case v of CNode n \<Rightarrow> Inr (Some n) | _ \<Rightarrow> bad_assertion ''*graph.Node'',
           c\<lparr>mc_hot := h, mc_metrics := l0_hit (mc_metrics c)\<rparr>)
      | (None, h) \<Rightarrow> (Inr None, c\<lparr>mc_hot := h, mc_metrics := l0_miss (mc_metrics c)\<rparr>))"

definition mlc_put_node :: "bytes \<Rightarrow> node \<Rightarrow> mlc \<Rightarrow> unit res \<times> mlc" where
  "mlc_put_node key n c =
     (case lru_put key (CNode n) (estimate_node_size n) (mc_hot c) of (r, h) \<Rightarrow> (r, c\<lparr>mc_hot := h\<rparr>))"

definition mlc_put_node_by_id :: "node \<Rightarrow> mlc \<Rightarrow> unit res \<times> mlc" where
  "mlc_put_node_by_id n c =
     (case lru_put (n_ID n) (CNode n) (estimate_node_size n) (mc_hot c) of (r, h) \<Rightarrow> (r, c\<lparr>mc_hot := h\<rparr>))"

definition mlc_get_edge :: "bytes \<Rightarrow> mlc \<Rightarrow> edge option res \<times> mlc" where
  "mlc_get_edge edgeID c =
     (case lru_get edgeID (mc_data c) of
        (Some v, d) \<Rightarrow>
          (case v of CEdge e \<Rightarrow> Inr (Some e) | _ \<Rightarrow> bad_assertion ''*graph.Edge'',
           c\<lparr>mc_data := d, mc_metrics := l2_hit (mc_metrics c)\<rparr>)
      | (None, d) \<Rightarrow> (Inr None, c\<lparr>mc_data := d, mc_metrics := l2_miss (mc_metrics c)\<rparr>))"

definition mlc_put_edge :: "bytes \<Rightarrow> edge \<Rightarrow> mlc \<Rightarrow> unit res \<times> mlc" where
  "mlc_put_edge key e c =
     (case lru_put key (CEdge e) (estimate_edge_size e) (mc_data c) of (r, d) \<Rightarrow> (r, c\<lparr>mc_data := d\<rparr>))"

definition mlc_put_edge_by_id :: "edge \<Rightarrow> mlc \<Rightarrow> unit res \<times> mlc" where
  "mlc_put_edge_by_id e c =
     (case lru_put (e_ID e) (CEdge e) (estimate_edge_size e) (mc_data c) of (r, d) \<Rightarrow> (r, c\<lparr>mc_data := d\<rparr>))"

definition connection_key :: "bytes \<Rightarrow> direction \<Rightarrow> bytes" where
  "connection_key nodeID d = nodeID @ lit '':'' @ direction_string d"

definition get_connection_list :: "bytes \<Rightarrow> direction \<Rightarrow> mlc \<Rightarrow> bytes list option res \<times> mlc" where
  "get_connection_list nodeID d c =
     (case lru_get (connection_key nodeID d) (mc_connection c) of
        (Some v, l) \<Rightarrow>
          (case v of CIds ids \<Rightarrow> Inr (Some ids) | _ \<Rightarrow> bad_assertion ''[]string'',
           c\<lparr>mc_connection := l, mc_metrics := l1_hit (mc_metrics c)\<rparr>)
      | (None, l) \<Rightarrow> (Inr None, c\<lparr>mc_connection := l, mc_metrics := l1_miss (mc_metrics c)\<rparr>))"

definition put_connection_list :: "bytes \<Rightarrow> direction \<Rightarrow> bytes list \<Rightarrow> mlc \<Rightarrow> unit res \<times> mlc" where
  "put_connection_list nodeID d edgeIDs c =
     (case lru_put (connection_key nodeID d) (CIds edgeIDs) (int (length edgeIDs * 8)) (mc_connection c) of
        (r, l) \<Rightarrow> (r, c\<lparr>mc_connection := l\<rparr>))"

definition count_invalidation :: "mlc \<Rightarrow> mlc" where
  "count_invalidation c =
     c\<lparr>mc_metrics := (mc_metrics c)\<lparr>cm_invalidations := cm_invalidations (mc_metrics c) + 1\<rparr>\<rparr>"

definition invalidate_node :: "bytes \<Rightarrow> mlc \<Rightarrow> mlc" where
  "invalidate_node nodeID c =
     (let c = c\<lparr>mc_hot := lru_invalidate nodeID (mc_hot c), mc_data := lru_invalidate nodeID (mc_data c)\<rparr>;
          c = c\<lparr>mc_connection := lru_invalidate (connection_key nodeID DirectionBoth)
                 (lru_invalidate (connection_key nodeID DirectionIn)
                   (lru_invalidate (connection_key nodeID DirectionOut) (mc_connection c)))\<rparr>;
          v = (case map_of (mc_versions c) nodeID of None \<Rightarrow> 0 | Some v \<Rightarrow> v)
      in count_invalidation (c\<lparr>mc_versions := AList.update nodeID (v + 1) (mc_versions c)\<rparr>))"

definition invalidate_node_by_key :: "bytes \<Rightarrow> mlc \<Rightarrow> mlc" where
  "invalidate_node_by_key key c =
     count_invalidation (c\<lparr>mc_hot := lru_invalidate key (mc_hot c), mc_data := lru_invalidate key (mc_data c)\<rparr>)"

definition invalidate_edge :: "bytes \<Rightarrow> mlc \<Rightarrow> mlc" where
  "invalidate_edge edgeID c = count_invalidation (c\<lparr>mc_data := lru_invalidate edgeID (mc_data c)\<rparr>)"

definition invalidate_edge_by_key :: "bytes \<Rightarrow> mlc \<Rightarrow> mlc" where
  "invalidate_edge_by_key key c = count_invalidation (c\<lparr>mc_data := lru_invalidate key (mc_data c)\<rparr>)"

definition mlc_clear :: "mlc \<Rightarrow> mlc" where
  "mlc_clear c = c\<lparr>mc_hot := lru_clear (mc_hot c), mc_connection := lru_clear (mc_connection c),
     mc_data := lru_clear (mc_data c)\<rparr>"

definition mlc_resize :: "int \<Rightarrow> mlc \<Rightarrow> mlc" where
  "mlc_resize newTotalSize c =
     c\<lparr>mc_totalSize := newTotalSize, mc_hot := lru_resize (percent newTotalSize 40) (mc_hot c),
       mc_connection := lru_resize (percent newTotalSize 30) (mc_connection c),
       mc_data := lru_resize (percent newTotalSize 30) (mc_data c)\<rparr>"

fun warm_up :: "node list \<Rightarrow> mlc \<Rightarrow> mlc" where
  "warm_up [] c = c"
| "warm_up (n # ns) c = warm_up ns (snd (mlc_put_node_by_id n c))"

record mlc_stats =
  ms_TotalSize :: int
  ms_TotalCount :: nat
  ms_HotTier :: cache_stats
  ms_ConnectionTier :: cache_stats
  ms_DataTier :: cache_stats
  ms_L0HitRate :: rat
  ms_L1HitRate :: rat
  ms_L2HitRate :: rat
  ms_OverallHitRate :: rat
  ms_Invalidations :: u64

definition mlc_stats_of :: "mlc \<Rightarrow> mlc_stats" where
  "mlc_stats_of c =
     (let m = mc_metrics c
      in \<lparr>ms_TotalSize = mc_totalSize c,
          ms_TotalCount = lru_len (mc_hot c) + lru_len (mc_connection c) + lru_len (mc_data c),
          ms_HotTier = lru_stats (mc_hot c), ms_ConnectionTier = lru_stats (mc_connection c),
          ms_DataTier = lru_stats (mc_data c), ms_L0HitRate = hit_rate (cm_l0Hits m) (cm_l0Misses m),
          ms_L1HitRate = hit_rate (cm_l1Hits m) (cm_l1Misses m),
          ms_L2HitRate = hit_rate (cm_l2Hits m) (cm_l2Misses m),
          ms_OverallHitRate = hit_rate (cm_totalHits m) (cm_totalMisses m),
          ms_Invalidations = cm_invalidations m\<rparr>)"

section \<open>Keys\<close>

lemma connection_key_inject:
  assumes "d \<in> {DirectionOut, DirectionIn, DirectionBoth}" and "d' \<in> {DirectionOut, DirectionIn, DirectionBoth}"
  shows "connection_key i d = connection_key j d' \<longleftrightarrow> i = j \<and> d = d'"
proof
  have rev_eq: "rev (connection_key k e) = rev (direction_string e) @ 58 # rev k" for k e
    by (simp add: connection_key_def lit_def)
  have tw: "takeWhile (\<lambda>b. b \<noteq> 58) (rev (connection_key k e)) = rev (direction_string e)"
    and dw: "dropWhile (\<lambda>b. b \<noteq> 58) (rev (connection_key k e)) = 58 # rev k"
    if "e \<in> {DirectionOut, DirectionIn, DirectionBoth}" for k e
    using direction_string_no_colon [OF that]
    by (auto simp: rev_eq takeWhile_append dropWhile_append)
  assume eq: "connection_key i d = connection_key j d'"
  then have "rev (direction_string d) = rev (direction_string d')" "58 # rev i = 58 # rev j"
    using tw [OF assms(1), of i] tw [OF assms(2), of j] dw [OF assms(1), of i] dw [OF assms(2), of j] by simp_all
  with direction_string_inject [OF assms] show "i = j \<and> d = d'" by simp
qed simp

section \<open>What each tier holds\<close>

text \<open>
  The views of the three tiers, and the property that the engine keeps: nodes under their
  key in the hot tier, edges in the data tier, identifier lists in the connection tier.
\<close>

definition mlc_inv :: "mlc \<Rightarrow> bool" where
  "mlc_inv c \<longleftrightarrow> lru_inv (mc_hot c) \<and> lru_inv (mc_connection c) \<and> lru_inv (mc_data c)"

definition tiers_hold :: "(bytes \<Rightarrow> node \<Rightarrow> bool) \<Rightarrow> (bytes \<Rightarrow> edge \<Rightarrow> bool) \<Rightarrow> mlc \<Rightarrow> bool" where
  "tiers_hold P Q c \<longleftrightarrow> mlc_inv c
     \<and> (\<forall>k v. lru_view (mc_hot c) k = Some v \<longrightarrow> (\<exists>n. v = CNode n \<and> P k n))
     \<and> (\<forall>k v. lru_view (mc_data c) k = Some v \<longrightarrow> (\<exists>e. v = CEdge e \<and> Q k e))
     \<and> (\<forall>k v. lru_view (mc_connection c) k = Some v \<longrightarrow> (\<exists>ids. v = CIds ids))"

lemma tiers_holdD:
  assumes "tiers_hold P Q c"
  shows "lru_view (mc_hot c) k = Some v \<Longrightarrow> \<exists>n. v = CNode n \<and> P k n"
    "lru_view (mc_data c) k = Some v \<Longrightarrow> \<exists>e. v = CEdge e \<and> Q k e"
    "lru_view (mc_connection c) k = Some v \<Longrightarrow> \<exists>ids. v = CIds ids"
  using assms unfolding tiers_hold_def by meson+

lemma lru_view_new [simp]: "lru_view (new_lru sz) k = None"
  by (simp add: lru_view_def lru_entry_def new_lru_def)

lemma tiers_hold_new: "tiers_hold P Q (new_mlc_from_size sz)"
  by (simp add: tiers_hold_def mlc_inv_def new_mlc_from_size_def lru_inv_new)

lemma tiers_hold_mono:
  "tiers_hold P Q c \<Longrightarrow> (\<And>k n. P k n \<Longrightarrow> P' k n) \<Longrightarrow> (\<And>k e. Q k e \<Longrightarrow> Q' k e) \<Longrightarrow> tiers_hold P' Q' c"
  unfolding tiers_hold_def by meson

lemma mlc_get_node_ok:
  assumes "tiers_hold P Q c" and "mlc_get_node k c = (r, c')"
  shows "tiers_hold P Q c' \<and> (r = Inr None \<or> (\<exists>n. r = Inr (Some n) \<and> P k n))"
proof -
  obtain o' h where g: "lru_get k (mc_hot c) = (o', h)" by force
  have inv: "lru_inv (mc_hot c)" using assms(1) by (simp add: tiers_hold_def mlc_inv_def)
  have h: "lru_view h = lru_view (mc_hot c)" "lru_inv h" "o' = lru_view (mc_hot c) k"
    using lru_cache.get_same [OF inv, of k] lru_cache.get_view [OF inv, of k] g by simp_all
  show ?thesis
  proof (cases o')
    case None
    with assms g h show ?thesis by (auto simp: mlc_get_node_def tiers_hold_def mlc_inv_def)
  next
    case (Some v)
    with h(3) tiers_holdD(1) [OF assms(1), of k v] obtain n where "v = CNode n" "P k n" by auto
    with Some assms g h show ?thesis by (auto simp: mlc_get_node_def tiers_hold_def mlc_inv_def)
  qed
qed

lemma mlc_get_edge_ok:
  assumes "tiers_hold P Q c" and "mlc_get_edge k c = (r, c')"
  shows "tiers_hold P Q c' \<and> (r = Inr None \<or> (\<exists>e. r = Inr (Some e) \<and> Q k e))"
proof -
  obtain o' h where g: "lru_get k (mc_data c) = (o', h)" by force
  have inv: "lru_inv (mc_data c)" using assms(1) by (simp add: tiers_hold_def mlc_inv_def)
  have h: "lru_view h = lru_view (mc_data c)" "lru_inv h" "o' = lru_view (mc_data c) k"
    using lru_cache.get_same [OF inv, of k] lru_cache.get_view [OF inv, of k] g by simp_all
  show ?thesis
  proof (cases o')
    case None
    with assms g h show ?thesis by (auto simp: mlc_get_edge_def tiers_hold_def mlc_inv_def)
  next
    case (Some v)
    with h(3) tiers_holdD(2) [OF assms(1), of k v] obtain e where "v = CEdge e" "Q k e" by auto
    with Some assms g h show ?thesis by (auto simp: mlc_get_edge_def tiers_hold_def mlc_inv_def)
  qed
qed

lemma mlc_put_node_ok:
  assumes "tiers_hold P Q c" and "P k n" and "mlc_put_node k n c = (r, c')"
  shows "tiers_hold P Q c'"
proof -
  obtain h where g: "lru_put k (CNode n) (estimate_node_size n) (mc_hot c) = (r, h)" and c': "c' = c\<lparr>mc_hot := h\<rparr>"
    using assms(3) by (auto simp: mlc_put_node_def split: prod.splits)
  have inv: "lru_inv (mc_hot c)" using assms(1) by (simp add: tiers_hold_def mlc_inv_def)
  have "\<exists>n. v = CNode n \<and> P j n" if "lru_view h j = Some v" for j v
    by (rule lru_cache.put_keeps [OF inv, of "\<lambda>j v. \<exists>n. v = CNode n \<and> P j n" k "CNode n"
          "estimate_node_size n" j v]) (use assms(1,2) that in \<open>auto simp: tiers_hold_def g\<close>)
  with lru_put_inv [OF inv, of k "CNode n" "estimate_node_size n"] assms(1) show ?thesis
    by (simp add: tiers_hold_def mlc_inv_def c' g)
qed

lemma mlc_put_node_by_id_eq: "mlc_put_node_by_id n = mlc_put_node (n_ID n) n"
  by (simp add: mlc_put_node_by_id_def mlc_put_node_def fun_eq_iff)

lemma mlc_put_edge_ok:
  assumes "tiers_hold P Q c" and "Q k e" and "mlc_put_edge k e c = (r, c')"
  shows "tiers_hold P Q c'"
proof -
  obtain h where g: "lru_put k (CEdge e) (estimate_edge_size e) (mc_data c) = (r, h)" and c': "c' = c\<lparr>mc_data := h\<rparr>"
    using assms(3) by (auto simp: mlc_put_edge_def split: prod.splits)
  have inv: "lru_inv (mc_data c)" using assms(1) by (simp add: tiers_hold_def mlc_inv_def)
  have "\<exists>e. v = CEdge e \<and> Q j e" if "lru_view h j = Some v" for j v
    by (rule lru_cache.put_keeps [OF inv, of "\<lambda>j v. \<exists>e. v = CEdge e \<and> Q j e" k "CEdge e"
          "estimate_edge_size e" j v]) (use assms(1,2) that in \<open>auto simp: tiers_hold_def g\<close>)
  with lru_put_inv [OF inv, of k "CEdge e" "estimate_edge_size e"] assms(1) show ?thesis
    by (simp add: tiers_hold_def mlc_inv_def c' g)
qed

lemma mlc_put_edge_by_id_eq: "mlc_put_edge_by_id e = mlc_put_edge (e_ID e) e"
  by (simp add: mlc_put_edge_by_id_def mlc_put_edge_def fun_eq_iff)

lemma put_connection_list_ok:
  assumes "tiers_hold P Q c" and "put_connection_list i d ids c = (r, c')"
  shows "tiers_hold P Q c'"
proof -
  let ?k = "connection_key i d"
  obtain h where g: "lru_put ?k (CIds ids) (int (length ids * 8)) (mc_connection c) = (r, h)"
    and c': "c' = c\<lparr>mc_connection := h\<rparr>"
    using assms(2) by (auto simp: put_connection_list_def split: prod.splits)
  have inv: "lru_inv (mc_connection c)" using assms(1) by (simp add: tiers_hold_def mlc_inv_def)
  have "\<exists>ids. v = CIds ids" if "lru_view h j = Some v" for j v
    by (rule lru_cache.put_keeps [OF inv, of "\<lambda>j v. \<exists>ids. v = CIds ids" ?k "CIds ids"
          "int (length ids * 8)" j v]) (use assms(1) that in \<open>auto simp: tiers_hold_def g simp del: of_nat_mult\<close>)
  with lru_put_inv [OF inv, of ?k "CIds ids" "int (length ids * 8)"] assms(1) show ?thesis
    by (simp add: tiers_hold_def mlc_inv_def c' g del: of_nat_mult)
qed

text \<open>An invalidated node may change: the hot tier no longer holds it.\<close>

lemma invalidate_node_views:
  assumes "mlc_inv c"
  shows "lru_view (mc_hot (invalidate_node i c)) = (lru_view (mc_hot c))(i := None)"
    "lru_view (mc_data (invalidate_node i c)) = (lru_view (mc_data c))(i := None)"
    "lru_view (mc_connection (invalidate_node i c)) = (lru_view (mc_connection c))
       (connection_key i DirectionOut := None, connection_key i DirectionIn := None,
        connection_key i DirectionBoth := None)"
    "mlc_inv (invalidate_node i c)"
  using assms
  by (simp_all add: invalidate_node_def count_invalidation_def Let_def mlc_inv_def lru_view_invalidate
      lru_invalidate_inv)

lemma invalidate_node_ok:
  assumes "tiers_hold P Q c" and "\<And>k n. k \<noteq> i \<Longrightarrow> P k n \<Longrightarrow> P' k n"
  shows "tiers_hold P' Q (invalidate_node i c)"
proof -
  from assms(1) have "mlc_inv c" by (simp add: tiers_hold_def)
  note V = invalidate_node_views [OF this]
  show ?thesis
    using assms(2) tiers_holdD [OF assms(1)] unfolding tiers_hold_def V(1-3)
    by (simp add: V(4)) blast
qed

section \<open>Properties\<close>

text \<open>
  C37: Invalidating a node removes what is under its identifier in the hot and in the data tier
  (there an edge of that identifier) and its connection lists of all three directions.  Nothing
  under another identifier is touched in any tier, since the keys of connection lists are
  distinct for distinct nodes and directions; the sizes of the tiers stay exact, the version
  of the node and the count of invalidations go up by one.
\<close>

theorem invalidate_node_exact:
  assumes "mlc_inv c" and "c' = invalidate_node i c"
  shows "fst (mlc_get_node i c') = Inr None \<and> fst (mlc_get_edge i c') = Inr None
    \<and> (\<forall>d\<in>{DirectionOut, DirectionIn, DirectionBoth}. fst (get_connection_list i d c') = Inr None)
    \<and> (\<forall>j. j \<noteq> i \<longrightarrow> fst (mlc_get_node j c') = fst (mlc_get_node j c) \<and> fst (mlc_get_edge j c') = fst (mlc_get_edge j c)
         \<and> (\<forall>d\<in>{DirectionOut, DirectionIn, DirectionBoth}. fst (get_connection_list j d c') = fst (get_connection_list j d c)))
    \<and> mlc_inv c' \<and> cm_invalidations (mc_metrics c') = cm_invalidations (mc_metrics c) + 1
    \<and> map_of (mc_versions c') = (map_of (mc_versions c))(i \<mapsto> (case map_of (mc_versions c) i of None \<Rightarrow> 1 | Some v \<Rightarrow> v + 1))"
proof -
  note V = invalidate_node_views [OF assms(1), of i, folded assms(2)]
  have node: "fst (mlc_get_node j c) = (case lru_view (mc_hot c) j of None \<Rightarrow> Inr None
      | Some v \<Rightarrow> (case v of CNode n \<Rightarrow> Inr (Some n) | _ \<Rightarrow> bad_assertion ''*graph.Node''))"
    if "mlc_inv c" for j c
    using lru_cache.get_view [of "mc_hot c" j] that
    by (auto simp: mlc_get_node_def mlc_inv_def split: prod.splits option.splits)
  have edge: "fst (mlc_get_edge j c) = (case lru_view (mc_data c) j of None \<Rightarrow> Inr None
      | Some v \<Rightarrow> (case v of CEdge e \<Rightarrow> Inr (Some e) | _ \<Rightarrow> bad_assertion ''*graph.Edge''))"
    if "mlc_inv c" for j c
    using lru_cache.get_view [of "mc_data c" j] that
    by (auto simp: mlc_get_edge_def mlc_inv_def split: prod.splits option.splits)
  have conn: "fst (get_connection_list j d c) = (case lru_view (mc_connection c) (connection_key j d) of None \<Rightarrow> Inr None
      | Some v \<Rightarrow> (case v of CIds n \<Rightarrow> Inr (Some n) | _ \<Rightarrow> bad_assertion ''[]string''))"
    if "mlc_inv c" for j d c
    using lru_cache.get_view [of "mc_connection c" "connection_key j d"] that
    by (auto simp: get_connection_list_def mlc_inv_def split: prod.splits option.splits)
  have books: "cm_invalidations (mc_metrics c') = cm_invalidations (mc_metrics c) + 1"
    "map_of (mc_versions c') = (map_of (mc_versions c))(i \<mapsto> (case map_of (mc_versions c) i of None \<Rightarrow> 1 | Some v \<Rightarrow> v + 1))"
    by (simp_all add: assms(2) invalidate_node_def count_invalidation_def Let_def update_conv' split: option.split)
  show ?thesis
    unfolding node [OF V(4)] node [OF assms(1)] edge [OF V(4)] edge [OF assms(1)] conn [OF V(4)] conn [OF assms(1)] V(1-3)
    using V(4) books by (auto simp: connection_key_inject)
qed

text \<open>A cache with a node, an edge and a connection list under one identifier, and with another node.\<close>

definition held :: "bytes \<Rightarrow> 'v \<Rightarrow> bytes \<Rightarrow> 'v \<Rightarrow> 'v lru" where
  "held k v k' v' = (new_lru 1000)\<lparr>lr_currentSize := 128, lr_items := [(k, 0), (k', 1)], lr_next := 2,
     lr_list := [(1, \<lparr>ce_Key = k', ce_Value = v', ce_Size = 64, ce_Version = 1\<rparr>),
                 (0, \<lparr>ce_Key = k, ce_Value = v, ce_Size = 64, ce_Version = 1\<rparr>)]\<rparr>"

definition busy_cache :: "node \<Rightarrow> edge \<Rightarrow> mlc" where
  "busy_cache n e = (new_mlc_from_size 3000)\<lparr>mc_hot := held [1] (CNode n) [2] (CNode n),
     mc_data := held [1] (CEdge e) [2] (CEdge e),
     mc_connection := held (connection_key [1] DirectionIn) (CIds [[1]]) (connection_key [2] DirectionIn) (CIds [[2]])\<rparr>"

lemma lru_inv_held: "k \<noteq> k' \<Longrightarrow> lru_inv (held k v k' v')"
  by (simp add: held_def lru_inv_def new_lru_def keys_of_def sizes_of_def)

lemma busy_cache_inv: "mlc_inv (busy_cache n e)"
  by (simp add: busy_cache_def mlc_inv_def lru_inv_held connection_key_def)

lemma held_get: "k \<noteq> k' \<Longrightarrow> fst (lru_get k (held k v k' v')) = Some v \<and> fst (lru_get k' (held k v k' v')) = Some v'"
  by (simp add: lru_get_def lru_entry_def held_def)

lemma busy_cache_hits:
  "fst (mlc_get_node [1] (busy_cache n e)) = Inr (Some n)" "fst (mlc_get_node [2] (busy_cache n e)) = Inr (Some n)"
  "fst (mlc_get_edge [1] (busy_cache n e)) = Inr (Some e)" "fst (mlc_get_edge [2] (busy_cache n e)) = Inr (Some e)"
  "fst (get_connection_list [1] DirectionIn (busy_cache n e)) = Inr (Some [[1]])"
  "fst (get_connection_list [2] DirectionIn (busy_cache n e)) = Inr (Some [[2]])"
  by (simp_all add: busy_cache_def mlc_get_node_def mlc_get_edge_def get_connection_list_def lru_get_def lru_entry_def held_def
      connection_key_def)

theorem invalidate_node_exact_witness:
  "\<exists>c n e. fst (mlc_get_node [1] c) = Inr (Some n) \<and> fst (mlc_get_edge [1] c) = Inr (Some e)
     \<and> fst (get_connection_list [1] DirectionIn c) = Inr (Some [[1]])
     \<and> fst (mlc_get_node [1] (invalidate_node [1] c)) = Inr None \<and> fst (mlc_get_edge [1] (invalidate_node [1] c)) = Inr None
     \<and> fst (get_connection_list [1] DirectionIn (invalidate_node [1] c)) = Inr None
     \<and> fst (mlc_get_node [2] (invalidate_node [1] c)) = Inr (Some n)
     \<and> fst (get_connection_list [2] DirectionIn (invalidate_node [1] c)) = Inr (Some [[2]])"
proof -
  fix n e
  from invalidate_node_exact [OF busy_cache_inv [of n e] refl, of "[1]"] busy_cache_hits [of n e] show ?thesis
    by (intro exI [of _ "busy_cache n e"] exI [of _ n] exI [of _ e]) simp
qed

end
