(* ===== verification/Sstable_Format.thy ===== *)
theory Sstable_Format
  imports Codec
begin

text \<open>
  \<open>pkg/sstable/format.go\<close>: the footer, block handles and index entries of a table file.
\<close>

section \<open>Footer\<close>

definition FooterSize :: nat where "FooterSize = 48"
definition MagicNumber :: u64 where "MagicNumber = 0x5353544142314556"
definition Version :: u32 where "Version = 1"
definition BlockSize :: nat where "BlockSize = 64 * 1024"
definition CompressionNone :: byte where "CompressionNone = 0"
definition CompressionSnappy :: byte where "CompressionSnappy = 1"
definition CompressionLZ4 :: byte where "CompressionLZ4 = 2"

record footer =
  ft_IndexBlockOffset :: u64
  ft_IndexBlockSize :: u64
  ft_BloomFilterOffset :: u64
  ft_BloomFilterSize :: u64
  ft_MagicNumber :: u64
  ft_Version :: u32
  ft_Checksum :: u32

definition footer_body :: "footer \<Rightarrow> bytes" where
  \<comment> \<open>\<open>footerData[:44]\<close>\<close>
  "footer_body f = le_enc 8 (ft_IndexBlockOffset f) @ le_enc 8 (ft_IndexBlockSize f)
     @ le_enc 8 (ft_BloomFilterOffset f) @ le_enc 8 (ft_BloomFilterSize f)
     @ le_enc 8 (ft_MagicNumber f) @ le_enc 4 (ft_Version f)"

definition encode_footer :: "footer \<Rightarrow> bytes" where
  "encode_footer f = footer_body f @ le_enc 4 (ft_Checksum f)"

definition sub_bytes :: "bytes \<Rightarrow> nat \<Rightarrow> nat \<Rightarrow> bytes" where
  \<comment> \<open>\<open>data[lo:hi]\<close>\<close>
  "sub_bytes data lo hi = take (hi - lo) (drop lo data)"

definition decode_footer :: "bytes \<Rightarrow> footer res" where
  "decode_footer data =
     (if length data \<noteq> FooterSize then Inl (Err ''invalid footer size'')
      else
        let f = \<lparr>ft_IndexBlockOffset = le_dec (sub_bytes data 0 8),
                 ft_IndexBlockSize = le_dec (sub_bytes data 8 16),
                 ft_BloomFilterOffset = le_dec (sub_bytes data 16 24),
                 ft_BloomFilterSize = le_dec (sub_bytes data 24 32),
                 ft_MagicNumber = le_dec (sub_bytes data 32 40),
                 ft_Version = le_dec (sub_bytes data 40 44),
                 ft_Checksum = le_dec (sub_bytes data 44 48)\<rparr>
        in if ft_MagicNumber f \<noteq> MagicNumber then Inl (Err ''invalid magic number'')
           else if ft_Version f \<noteq> Version then Inl (Err ''unsupported version'')
           else Inr f)"

lemma sub_bytes_append:
  "length xs = lo \<Longrightarrow> length ys = hi - lo \<Longrightarrow> sub_bytes (xs @ ys @ zs) lo hi = ys"
  by (simp add: sub_bytes_def)

lemma length_footer_body [simp]: "length (footer_body f) = 44"
  by (simp add: footer_body_def)

lemma length_encode_footer [simp]: "length (encode_footer f) = FooterSize"
  by (simp add: encode_footer_def FooterSize_def)

lemma footer_fields:
  "le_dec (sub_bytes (encode_footer f) 0 8) = ft_IndexBlockOffset f"
  "le_dec (sub_bytes (encode_footer f) 8 16) = ft_IndexBlockSize f"
  "le_dec (sub_bytes (encode_footer f) 16 24) = ft_BloomFilterOffset f"
  "le_dec (sub_bytes (encode_footer f) 24 32) = ft_BloomFilterSize f"
  "le_dec (sub_bytes (encode_footer f) 32 40) = ft_MagicNumber f"
  "le_dec (sub_bytes (encode_footer f) 40 44) = ft_Version f"
  "le_dec (sub_bytes (encode_footer f) 44 48) = ft_Checksum f"
  by (simp_all add: encode_footer_def footer_body_def sub_bytes_def)

lemma decode_encode_footer:
  "decode_footer (encode_footer f) =
     (if ft_MagicNumber f \<noteq> MagicNumber then Inl (Err ''invalid magic number'')
      else if ft_Version f \<noteq> Version then Inl (Err ''unsupported version'') else Inr f)"
  by (simp add: decode_footer_def footer_fields Let_def)

section \<open>Block handles and index entries\<close>

record block_handle =
  bh_Offset :: u64
  bh_Size :: u64

definition encode_handle :: "block_handle \<Rightarrow> bytes" where
  "encode_handle bh = le_enc 8 (bh_Offset bh) @ le_enc 8 (bh_Size bh)"

definition decode_handle :: "bytes \<Rightarrow> block_handle res" where
  "decode_handle data =
     (if length data < 16 then Inl (Err ''insufficient data for block handle'')
      else Inr \<lparr>bh_Offset = le_dec (sub_bytes data 0 8), bh_Size = le_dec (sub_bytes data 8 16)\<rparr>)"

lemma decode_encode_handle [simp]: "decode_handle (encode_handle bh @ rest) = Inr bh"
  by (simp add: decode_handle_def encode_handle_def sub_bytes_def)

record index_entry =
  ie_Key :: bytes
  ie_Handle :: block_handle

text \<open>
  \<open>4+keyLen+16\<close> is computed in \<open>uint32\<close>: for a key of \<open>2^32 - 20\<close> bytes or more it wraps, the
  buffer comes out short, and the slice \<open>buf[4:4+keyLen]\<close> is out of range.  (The branch
  \<open>4+keyLen < 4\<close> covers the keys for which that sum wraps as well.)
\<close>

definition encode_index_entry :: "index_entry \<Rightarrow> bytes res" where
  "encode_index_entry entry =
     (let keyLen = len32 (ie_Key entry);
          bufLen = unat (4 + keyLen + 16);
          keyEnd = unat (4 + keyLen)
      in if bufLen < 4 \<or> keyEnd < 4 \<or> keyEnd > bufLen then Inl (Panic ''slice bounds out of range'')
         else Inr (le_enc 4 keyLen @ take (unat keyLen) (ie_Key entry)
                   @ take (bufLen - keyEnd) (encode_handle (ie_Handle entry))))"

definition decode_index_entry :: "bytes \<Rightarrow> (index_entry \<times> nat) res" where
  "decode_index_entry data =
     (if length data < 4 then Inl (Err ''insufficient data for index entry'')
      else
        let keyLen = le_dec (take 4 data) :: u32
        in if length data < unat (4 + keyLen + 16) then Inl (Err ''insufficient data for index entry'')
           else if unat (4 + keyLen) < 4 \<or> unat (4 + keyLen) > length data then
             Inl (Panic ''slice bounds out of range'')
           else
             let key = sub_bytes data 4 (unat (4 + keyLen))
             in bindE (decode_handle (drop (unat (4 + keyLen)) data)) (\<lambda>handle.
                  Inr (\<lparr>ie_Key = key, ie_Handle = handle\<rparr>, unat (4 + keyLen + 16))))"

definition index_key_ok :: "index_entry \<Rightarrow> bool" where
  "index_key_ok e \<longleftrightarrow> length (ie_Key e) + 20 < 2 ^ 32"

lemma unat_add_small:
  "length xs + 20 < 2 ^ 32 \<Longrightarrow> unat (4 + len32 xs) = 4 + length xs"
  "length xs + 20 < 2 ^ 32 \<Longrightarrow> unat (20 + len32 xs) = 20 + length xs"
  by (simp_all add: unat_word_ariths unat_len32)

text \<open>What the entry of a key within the limit looks like.\<close>

definition index_bytes :: "index_entry \<Rightarrow> bytes" where
  "index_bytes e = le_enc 4 (len32 (ie_Key e)) @ ie_Key e @ encode_handle (ie_Handle e)"

lemma length_encode_handle [simp]: "length (encode_handle bh) = 16"
  by (simp add: encode_handle_def)

lemma encode_index_entry_ok: "index_key_ok e \<Longrightarrow> encode_index_entry e = Inr (index_bytes e)"
  by (simp add: encode_index_entry_def index_key_ok_def unat_add_small unat_len32 index_bytes_def Let_def)

lemma length_index_bytes [simp]: "length (index_bytes e) = 20 + length (ie_Key e)"
  by (simp add: index_bytes_def)

lemma decode_index_bytes:
  "index_key_ok e \<Longrightarrow> decode_index_entry (index_bytes e @ rest) = Inr (e, 20 + length (ie_Key e))"
proof -
  assume ok: "index_key_ok e"
  have k: "le_dec (take 4 (index_bytes e @ rest)) = len32 (ie_Key e)"
    by (simp add: index_bytes_def)
  have h: "drop (4 + length (ie_Key e)) (index_bytes e @ rest) = encode_handle (ie_Handle e) @ rest"
    by (simp add: index_bytes_def)
  have s: "sub_bytes (index_bytes e @ rest) 4 (4 + length (ie_Key e)) = ie_Key e"
    by (simp add: index_bytes_def sub_bytes_def)
  show ?thesis
    using ok by (simp add: decode_index_entry_def k h s Let_def index_key_ok_def unat_add_small
        del: take_append drop_append)
qed

text \<open>One step of the index reader's loop: the entry, and \<open>indexData[dataOffset+bytesRead:]\<close>.\<close>

definition index_step :: "bytes \<Rightarrow> (index_entry \<times> bytes) res" where
  "index_step data =
     bindE (wrapE ''failed to decode index entry'' (decode_index_entry data)) (\<lambda>(entry, bytesRead).
       Inr (entry, drop bytesRead data))"

interpretation index_codec: stream_codec index_bytes index_step "\<lambda>e. e" index_key_ok "\<lambda>_. True"
  by unfold_locales (simp_all add: index_step_def decode_index_bytes)

lemma mod_wrap: "m \<le> x \<Longrightarrow> x < 2 * m \<Longrightarrow> x mod m = x - (m :: nat)"
  by (simp add: le_mod_geq)

lemma unat_plus32: "unat (a + b :: u32) = (unat a + unat b) mod 2 ^ 32"
  by (simp add: unat_word_ariths)

lemma encode_index_wraps:
  assumes "str_ok (ie_Key e)" and "2 ^ 32 \<le> length (ie_Key e) + 20"
  shows "encode_index_entry e = Inl (Panic ''slice bounds out of range'')"
proof -
  let ?n = "length (ie_Key e)"
  have n: "?n < 2 ^ 32" and l: "unat (len32 (ie_Key e)) = ?n" using assms(1) by (simp_all add: str_ok_def)
  have "unat (20 + len32 (ie_Key e)) = (20 + ?n) mod 2 ^ 32"
    unfolding unat_plus32 l by simp
  also have "\<dots> = 20 + ?n - 2 ^ 32"
    by (rule mod_wrap) (use n assms(2) in simp_all)
  finally have b: "unat (20 + len32 (ie_Key e)) = 20 + ?n - 2 ^ 32" .
  have "unat (4 + len32 (ie_Key e)) = (4 + ?n) mod 2 ^ 32"
    unfolding unat_plus32 l by simp
  then have "unat (4 + len32 (ie_Key e)) < 4 \<or> unat (4 + len32 (ie_Key e)) = 4 + ?n"
    using mod_wrap [of "2 ^ 32" "4 + ?n"] n by (cases "4 + ?n < 2 ^ 32") auto
  with b n show ?thesis
    by (auto simp: encode_index_entry_def Let_def)
qed

section \<open>Properties\<close>

text \<open>
  C39: The footer.  A 48-byte footer decodes to what was encoded exactly when it carries the
  magic number and the version of this format, and is refused with the matching error
  otherwise; a block handle always decodes to itself.
\<close>

theorem footer_and_handle_roundtrip:
  "decode_footer (encode_footer f) =
     (if ft_MagicNumber f \<noteq> MagicNumber then Inl (Err ''invalid magic number'')
      else if ft_Version f \<noteq> Version then Inl (Err ''unsupported version'') else Inr f)
   \<and> length (encode_footer f) = 48
   \<and> (\<forall>f'. decode_footer data = Inr f' \<longrightarrow> encode_footer f' = data)
   \<and> decode_handle (encode_handle bh @ rest) = Inr bh"
proof -
  have enc: "encode_footer f' = data" if dec: "decode_footer data = Inr f'" for f'
  proof -
    from dec have len: "length data = 48" by (auto simp: decode_footer_def FooterSize_def split: if_splits)
    have part: "length (sub_bytes data lo hi) = hi - lo" if "lo \<le> hi" "hi \<le> 48" for lo hi
      using that len by (simp add: sub_bytes_def)
    have u64: "le_enc 8 (le_dec (sub_bytes data lo (lo + 8)) :: u64) = sub_bytes data lo (lo + 8)" if "lo + 8 \<le> 48" for lo
      using part [of lo "lo + 8"] that le_enc_dec [of "sub_bytes data lo (lo + 8)", where 'a = 64] by simp
    have u32: "le_enc 4 (le_dec (sub_bytes data lo (lo + 4)) :: u32) = sub_bytes data lo (lo + 4)" if "lo + 4 \<le> 48" for lo
      using part [of lo "lo + 4"] that le_enc_dec [of "sub_bytes data lo (lo + 4)", where 'a = 32] by simp
    have join: "sub_bytes data lo mid @ sub_bytes data mid hi = sub_bytes data lo hi" if "lo \<le> mid" "mid \<le> hi" for lo mid hi
    proof -
      from that obtain a b where "mid = lo + a" "hi = lo + a + b" by (auto simp: le_iff_add add.assoc)
      then show ?thesis by (simp add: sub_bytes_def take_add add.commute)
    qed
    have whole: "sub_bytes data 0 48 = data" using len by (simp add: sub_bytes_def)
    show ?thesis
      using dec u64 [of 0] u64 [of 8] u64 [of 16] u64 [of 24] u64 [of 32] u32 [of 40] u32 [of 44] whole
      by (auto simp: decode_footer_def encode_footer_def footer_body_def Let_def join split: if_splits)
  qed
  then have "\<forall>f'. decode_footer data = Inr f' \<longrightarrow> encode_footer f' = data" by blast
  then show ?thesis by (simp only: decode_encode_footer decode_encode_handle length_encode_footer FooterSize_def)
qed

theorem footer_and_handle_roundtrip_witness:
  "\<exists>f data. decode_footer (encode_footer f) = Inr f \<and> decode_footer data = Inr f \<and> encode_footer f = data
     \<and> decode_footer (encode_footer (f\<lparr>ft_Version := 2\<rparr>)) = Inl (Err ''unsupported version'')"
proof -
  let ?f = "\<lparr>ft_IndexBlockOffset = 7, ft_IndexBlockSize = 4, ft_BloomFilterOffset = 11, ft_BloomFilterSize = 1,
    ft_MagicNumber = MagicNumber, ft_Version = Version, ft_Checksum = 5\<rparr>"
  have "decode_footer (encode_footer ?f) = Inr ?f"
    "decode_footer (encode_footer (?f\<lparr>ft_Version := 2\<rparr>)) = Inl (Err ''unsupported version'')"
    by (simp_all add: footer_and_handle_roundtrip Version_def)
  with footer_and_handle_roundtrip [of ?f "encode_footer ?f"] show ?thesis by blast
qed

text \<open>
  C40: Index entries.  The entry of a key shorter than \<open>2 ^ 32 - 20\<close> bytes decodes, whatever
  follows it, to itself and its length; for a longer key (that still has a 32-bit length) the
  32-bit sum of the sizes wraps around and encoding panics.
\<close>

theorem index_entry_roundtrip:
  assumes "length (ie_Key e) < 2 ^ 32"
  shows "if length (ie_Key e) + 20 < 2 ^ 32
    then \<exists>bs. encode_index_entry e = Inr bs \<and> length bs = 20 + length (ie_Key e)
      \<and> decode_index_entry (bs @ rest) = Inr (e, length bs)
    else encode_index_entry e = Inl (Panic ''slice bounds out of range'')"
proof (cases "length (ie_Key e) + 20 < 2 ^ 32")
  case True
  then have "index_key_ok e" by (simp add: index_key_ok_def)
  from encode_index_entry_ok [OF this] decode_index_bytes [OF this, of rest] True show ?thesis by simp
next
  case False
  with encode_index_wraps [of e] assms show ?thesis by (simp add: str_ok_def)
qed

theorem index_entry_roundtrip_witness:
  "\<exists>bs. encode_index_entry \<lparr>ie_Key = [1, 2], ie_Handle = \<lparr>bh_Offset = 3, bh_Size = 4\<rparr>\<rparr> = Inr bs \<and> length bs = 22
     \<and> decode_index_entry (bs @ [9]) = Inr (\<lparr>ie_Key = [1, 2], ie_Handle = \<lparr>bh_Offset = 3, bh_Size = 4\<rparr>\<rparr>, 22)"
  using index_entry_roundtrip [of "\<lparr>ie_Key = [1, 2], ie_Handle = \<lparr>bh_Offset = 3, bh_Size = 4\<rparr>\<rparr>" "[9]"] by auto

end
