(* ===== verification/Sstable_Writer.thy ===== *)
theory Sstable_Writer
  imports Bufio Crc32 Sstable_Format
begin

text \<open>
  \<open>pkg/sstable/writer.go\<close>.  The Bloom filter (\<open>bits-and-blooms/bloom\<close>) is a parameter: a
  record of its operations on an abstract filter type.  What the code relies on is
  \<open>bloom_ok\<close>: a filter never denies a key that was added, and what \<open>GobEncode\<close> writes,
  \<open>GobDecode\<close> reads back as a filter that answers the same.
\<close>

section \<open>The Bloom filter\<close>

record 'b bloom =
  bl_new :: "nat \<Rightarrow> 'b"
  bl_add :: "bytes \<Rightarrow> 'b \<Rightarrow> 'b"
  bl_test :: "bytes \<Rightarrow> 'b \<Rightarrow> bool"
  bl_encode :: "'b \<Rightarrow> bytes res"
  bl_decode :: "bytes \<Rightarrow> 'b res"

definition bloom_ok :: "'b bloom \<Rightarrow> bool" where
  "bloom_ok B \<longleftrightarrow>
     (\<forall>k b. bl_test B k (bl_add B k b)) \<and>
     (\<forall>k j b. bl_test B k b \<longrightarrow> bl_test B k (bl_add B j b)) \<and>
     (\<forall>b d. bl_encode B b = Inr d \<longrightarrow> (\<exists>b'. bl_decode B d = Inr b' \<and> (\<forall>k. bl_test B k b' = bl_test B k b)))"

text \<open>A filter of eight bits, one per residue of the key's length.\<close>

definition tiny_bloom :: "byte bloom" where
  "tiny_bloom = \<lparr>bl_new = (\<lambda>_. 0), bl_add = (\<lambda>k w. w OR push_bit (length k mod 8) 1),
     bl_test = (\<lambda>k w. bit w (length k mod 8)), bl_encode = (\<lambda>w. Inr [w]),
     bl_decode = (\<lambda>d. case d of [w] \<Rightarrow> Inr w | _ \<Rightarrow> Inl (Err ''gob''))\<rparr>"

lemma tiny_bloom_ok: "bloom_ok tiny_bloom"
  by (simp add: bloom_ok_def tiny_bloom_def bit_simps)

section \<open>State and operations\<close>

record 'b sst_writer =
  sw_file :: bytes
  sw_open :: bool
  sw_room :: "nat option"
  sw_writer :: bufio
  sw_block :: bytes
  sw_offset :: u64
  sw_index :: "index_entry list"
  sw_bloom :: 'b
  sw_lastKey :: bytes
  sw_count :: u64
  sw_closed :: bool

text \<open>\<open>NewWriter\<close>, after the file was created; \<open>room\<close> is what the device will take.\<close>

definition new_writer :: "'b bloom \<Rightarrow> nat option \<Rightarrow> nat \<Rightarrow> 'b sst_writer" where
  "new_writer B room expectedEntries =
     \<lparr>sw_file = [], sw_open = True, sw_room = room, sw_writer = new_bufio (256 * 1024), sw_block = [],
      sw_offset = 0, sw_index = [], sw_bloom = bl_new B expectedEntries, sw_lastKey = [],
      sw_count = 0, sw_closed = False\<rparr>"

definition create_writer :: "'b bloom \<Rightarrow> wal_io \<Rightarrow> nat \<Rightarrow> 'b sst_writer res" where
  \<comment> \<open>\<open>NewWriter\<close> with its error paths\<close>
  "create_writer B io expectedEntries =
     (if \<not> io_mkdir_ok io then Inl (Wrap ''failed to create directory'' (Err ''mkdir''))
      else if \<not> io_open_ok io then Inl (Wrap ''failed to create SSTable file'' (Err ''open''))
      else Inr (new_writer B (io_room io) expectedEntries))"

definition sw_put :: "string \<Rightarrow> bytes \<Rightarrow> 'b sst_writer \<Rightarrow> unit res \<times> 'b sst_writer" where
  \<comment> \<open>\<open>if _, err := w.writer.Write(p); err != nil { return wrap(err) }\<close>\<close>
  "sw_put msg p w =
     (case bufio_write (if sw_open w then sw_room w else Some 0) p (sw_writer w) (sw_file w) of
        (ok, b, f, room) \<Rightarrow>
          (if ok then Inr () else Inl (Wrap msg (Err ''write'')),
           w\<lparr>sw_writer := b, sw_file := f, sw_room := (if sw_open w then room else sw_room w)\<rparr>))"

definition flush_block :: "'b sst_writer \<Rightarrow> unit res \<times> 'b sst_writer" where
  "flush_block w =
     (if sw_block w = [] then (Inr (), w)
      else
        let checksum = crc32 (sw_block w);
            blockOffset = sw_offset w;
            blockSize = word_of_nat (length (sw_block w) + 1 + 4)
        in bindS (sw_put ''failed to write block'' (sw_block w) w) (\<lambda>_ w.
           bindS (sw_put ''failed to write compression type'' [CompressionNone] w) (\<lambda>_ w.
           bindS (sw_put ''failed to write checksum'' (le_enc 4 checksum) w) (\<lambda>_ w.
           (Inr (), w\<lparr>sw_index := sw_index w @
                        [\<lparr>ie_Key = sw_lastKey w, ie_Handle = \<lparr>bh_Offset = blockOffset, bh_Size = blockSize\<rparr>\<rparr>],
                      sw_offset := sw_offset w + blockSize, sw_block := []\<rparr>)))))"

text \<open>
  The entry's size is computed in \<open>uint32\<close>; when it wraps the buffer is too short for the
  copies and a slice expression panics.
\<close>

definition encode_kv :: "bytes \<Rightarrow> bytes \<Rightarrow> bytes res" where
  "encode_kv key value =
     (let keyLen = len32 key; valueLen = len32 value; entrySize = 4 + keyLen + 4 + valueLen
      in if 8 + unat keyLen + unat valueLen > unat entrySize then Inl (Panic ''slice bounds out of range'')
         else Inr (le_enc 4 keyLen @ take (unat keyLen) key @ le_enc 4 valueLen @ take (unat valueLen) value))"

definition sst_add :: "'b bloom \<Rightarrow> bytes \<Rightarrow> bytes \<Rightarrow> 'b sst_writer \<Rightarrow> unit res \<times> 'b sst_writer" where
  "sst_add B key value w =
     (if sw_closed w then (Inl (Err ''writer is closed''), w)
      else if sw_lastKey w \<noteq> [] \<and> key \<le> sw_lastKey w then
        (Inl (Err ''keys must be added in sorted order''), w)
      else
        let w = w\<lparr>sw_bloom := bl_add B key (sw_bloom w)\<rparr>;
            entrySize = 4 + len32 key + 4 + len32 value
        in bindS (if length (sw_block w) + unat entrySize > BlockSize then flush_block w else (Inr (), w)) (\<lambda>_ w.
           bindS (encode_kv key value, w) (\<lambda>buf w.
           (Inr (), w\<lparr>sw_block := sw_block w @ buf, sw_lastKey := key, sw_count := sw_count w + 1\<rparr>))))"

fun encode_entries :: "index_entry list \<Rightarrow> bytes res" where
  "encode_entries [] = Inr []"
| "encode_entries (e # es) =
     bindE (encode_index_entry e) (\<lambda>d. bindE (encode_entries es) (\<lambda>ds. Inr (d @ ds)))"

definition encode_index_block :: "'b sst_writer \<Rightarrow> bytes res" where
  "encode_index_block w =
     bindE (encode_entries (sw_index w)) (\<lambda>data. Inr (le_enc 4 (len32 (sw_index w)) @ data))"

definition make_footer :: "u64 \<Rightarrow> u64 \<Rightarrow> u64 \<Rightarrow> u64 \<Rightarrow> footer" where
  "make_footer indexOffset indexSize bloomOffset bloomSize =
     (let f = \<lparr>ft_IndexBlockOffset = indexOffset, ft_IndexBlockSize = indexSize,
               ft_BloomFilterOffset = bloomOffset, ft_BloomFilterSize = bloomSize,
               ft_MagicNumber = MagicNumber, ft_Version = Version, ft_Checksum = 0\<rparr>
      in f\<lparr>ft_Checksum := crc32 (take 44 (encode_footer f))\<rparr>)"

text \<open>The last steps of \<open>Close\<close>: flush the buffer, sync, close the file.\<close>

definition sw_finish :: "wal_io \<Rightarrow> 'b sst_writer \<Rightarrow> unit res \<times> 'b sst_writer" where
  "sw_finish io w =
     (case bufio_flush (if sw_open w then sw_room w else Some 0) (sw_writer w) (sw_file w) of
        (ok, b, f, room) \<Rightarrow>
          let w = w\<lparr>sw_writer := b, sw_file := f, sw_room := (if sw_open w then room else sw_room w)\<rparr>
          in if \<not> ok then (Inl (Wrap ''failed to flush writer'' (Err ''write'')), w)
             else if \<not> (sw_open w \<and> io_sync_ok io) then (Inl (Wrap ''failed to sync file'' (Err ''fsync'')), w)
             else if \<not> io_close_ok io then
               (Inl (Wrap ''failed to close file'' (Err ''close'')), w\<lparr>sw_open := False\<rparr>)
             else (Inr (), w\<lparr>sw_open := False, sw_closed := True\<rparr>))"

definition sst_close :: "'b bloom \<Rightarrow> wal_io \<Rightarrow> 'b sst_writer \<Rightarrow> unit res \<times> 'b sst_writer" where
  "sst_close B io w =
     (if sw_closed w then (Inr (), w)
      else
        bindS (flush_block w) (\<lambda>_ w.
        let indexOffset = sw_offset w
        in bindS (encode_index_block w, w) (\<lambda>indexData w.
        bindS (sw_put ''failed to write index block'' indexData w) (\<lambda>_ w.
        let indexSize = word_of_nat (length indexData);
            w = w\<lparr>sw_offset := sw_offset w + indexSize\<rparr>;
            bloomOffset = sw_offset w
        in bindS (wrapE ''failed to encode bloom filter'' (bl_encode B (sw_bloom w)), w) (\<lambda>bloomData w.
        bindS (sw_put ''failed to write bloom filter'' bloomData w) (\<lambda>_ w.
        let bloomSize = word_of_nat (length bloomData);
            w = w\<lparr>sw_offset := sw_offset w + bloomSize\<rparr>;
            footer = make_footer indexOffset indexSize bloomOffset bloomSize
        in bindS (sw_put ''failed to write footer'' (encode_footer footer) w) (\<lambda>_ w.
        sw_finish io w)))))))"

definition entries_count :: "'b sst_writer \<Rightarrow> u64" where
  "entries_count w = sw_count w"

definition writer_file_size :: "'b sst_writer \<Rightarrow> u64" where
  "writer_file_size w = sw_offset w"

section \<open>Entries of a block\<close>

definition kv_bytes :: "bytes \<times> bytes \<Rightarrow> bytes" where
  "kv_bytes kv = le_enc 4 (len32 (fst kv)) @ fst kv @ le_enc 4 (len32 (snd kv)) @ snd kv"

definition kv_ok :: "bytes \<times> bytes \<Rightarrow> bool" where
  "kv_ok kv \<longleftrightarrow> length (fst kv) + length (snd kv) + 8 < 2 ^ 32"

lemma kv_ok_str: "kv_ok kv \<Longrightarrow> str_ok (fst kv) \<and> str_ok (snd kv)"
  by (simp add: kv_ok_def str_ok_def)

lemma entry_size:
  assumes "kv_ok (k, v)"
  shows "unat (4 + len32 k + 4 + len32 v) = 8 + length k + length v"
proof -
  have "unat (8 + len32 k) = 8 + length k"
    using assms unfolding unat_plus32 by (simp add: kv_ok_def unat_len32)
  then have "unat (8 + len32 k + len32 v) = 8 + length k + length v"
    using assms unfolding unat_plus32 [of "8 + len32 k"] by (simp add: kv_ok_def unat_len32)
  then show ?thesis by (simp add: add.commute add.left_commute)
qed

lemma encode_kv_ok: "kv_ok (k, v) \<Longrightarrow> encode_kv k v = Inr (kv_bytes (k, v))"
  using entry_size [of k v] kv_ok_str [of "(k, v)"]
  by (simp add: encode_kv_def Let_def kv_bytes_def)

lemma length_kv_bytes [simp]: "length (kv_bytes kv) = 8 + length (fst kv) + length (snd kv)"
  by (simp add: kv_bytes_def)

lemma encode_entries_ok:
  "list_all index_key_ok es \<Longrightarrow> encode_entries es = Inr (concat (map index_bytes es))"
  by (induction es) (simp_all add: encode_index_entry_ok)

section \<open>What the writer writes\<close>

type_synonym kv = "bytes \<times> bytes"

definition data_bytes :: "kv list \<Rightarrow> bytes" where
  "data_bytes kvs = concat (map kv_bytes kvs)"

lemma data_bytes_simps [simp]:
  "data_bytes [] = []" "data_bytes (kv # kvs) = kv_bytes kv @ data_bytes kvs"
  "data_bytes (xs @ ys) = data_bytes xs @ data_bytes ys"
  by (simp_all add: data_bytes_def)

lemma data_bytes_Nil [simp]: "data_bytes kvs = [] \<longleftrightarrow> kvs = []"
  by (cases kvs) (auto dest: arg_cong [where f = length])

definition block_image :: "kv list \<Rightarrow> bytes" where
  "block_image b = data_bytes b @ [CompressionNone] @ le_enc 4 (crc32 (data_bytes b))"

lemma length_block_image: "length (block_image b) = length (data_bytes b) + 5"
  by (simp add: block_image_def)

fun index_from :: "nat \<Rightarrow> kv list list \<Rightarrow> index_entry list" where
  "index_from off [] = []"
| "index_from off (b # bs) =
     \<lparr>ie_Key = fst (last b), ie_Handle = \<lparr>bh_Offset = word_of_nat off,
        bh_Size = word_of_nat (length (block_image b))\<rparr>\<rparr> # index_from (off + length (block_image b)) bs"

definition blocks_image :: "kv list list \<Rightarrow> bytes" where
  "blocks_image bs = concat (map block_image bs)"

lemma blocks_image_simps [simp]:
  "blocks_image [] = []" "blocks_image (b # bs) = block_image b @ blocks_image bs"
  "blocks_image (bs @ cs) = blocks_image bs @ blocks_image cs"
  by (simp_all add: blocks_image_def)

lemma index_from_append:
  "index_from off (bs @ cs) = index_from off bs @ index_from (off + length (blocks_image bs)) cs"
  by (induction bs arbitrary: off) (simp_all add: add.assoc)

lemma length_index_from [simp]: "length (index_from off bs) = length bs"
  by (induction bs arbitrary: off) simp_all

definition sw_log :: "'b sst_writer \<Rightarrow> bytes" where
  "sw_log w = sw_file w @ b_buf (sw_writer w)"

lemma sw_put_ok:
  assumes "sw_put msg p w = (Inr u, w')"
  shows "sw_log w' = sw_log w @ p"
    "\<exists>b f room. w' = w\<lparr>sw_writer := b, sw_file := f, sw_room := room\<rparr>"
proof -
  obtain ok b f room where bw: "bufio_write (if sw_open w then sw_room w else Some 0) p (sw_writer w) (sw_file w)
      = (ok, b, f, room)" by (metis prod_cases4)
  with assms have ok: ok and w': "w' = w\<lparr>sw_writer := b, sw_file := f,
      sw_room := (if sw_open w then room else sw_room w)\<rparr>"
    by (simp_all add: sw_put_def split: if_splits)
  from bufio_write_spec [OF bw] ok show "sw_log w' = sw_log w @ p" by (auto simp: w' sw_log_def)
  show "\<exists>b f room. w' = w\<lparr>sw_writer := b, sw_file := f, sw_room := room\<rparr>" unfolding w' by blast
qed

lemma sw_log_update [simp]:
  "sw_log (w\<lparr>sw_index := i, sw_offset := off, sw_block := blk\<rparr>) = sw_log w"
  "sw_log (w\<lparr>sw_bloom := bl\<rparr>) = sw_log w" "sw_log (w\<lparr>sw_offset := off\<rparr>) = sw_log w"
  "sw_log (w\<lparr>sw_block := blk, sw_lastKey := k, sw_count := c\<rparr>) = sw_log w"
  by (simp_all add: sw_log_def)

text \<open>
  The invariant after adding \<open>kvs\<close>: they are split into blocks already written and the one
  being filled.
\<close>

definition sw_inv :: "'b bloom \<Rightarrow> kv list list \<Rightarrow> kv list \<Rightarrow> 'b sst_writer \<Rightarrow> bool" where
  "sw_inv B bs cur w \<longleftrightarrow> [] \<notin> set bs \<and> sw_log w = blocks_image bs
     \<and> sw_index w = index_from 0 bs \<and> sw_block w = data_bytes cur
     \<and> sw_offset w = word_of_nat (length (blocks_image bs))
     \<and> sw_lastKey w = (if concat bs @ cur = [] then [] else fst (last (concat bs @ cur)))
     \<and> \<not> sw_closed w \<and> (\<forall>kv\<in>set (concat bs @ cur). bl_test B (fst kv) (sw_bloom w))"

lemma sw_inv_new: "sw_inv B [] [] (new_writer B room n)"
  by (simp add: sw_inv_def new_writer_def sw_log_def new_bufio_def)

lemma flush_block_inv:
  assumes run: "flush_block w = (Inr u, w')" and inv: "sw_inv B bs cur w"
  shows "sw_inv B (if cur = [] then bs else bs @ [cur]) [] w'"
proof (cases "cur = []")
  case True
  with assms show ?thesis by (auto simp: flush_block_def sw_inv_def)
next
  case False
  with inv have blk: "sw_block w = data_bytes cur" "data_bytes cur \<noteq> []" by (simp_all add: sw_inv_def)
  from run blk obtain w1 w2 w3 where
    p1: "sw_put ''failed to write block'' (sw_block w) w = (Inr (), w1)"
    and p2: "sw_put ''failed to write compression type'' [CompressionNone] w1 = (Inr (), w2)"
    and p3: "sw_put ''failed to write checksum'' (le_enc 4 (crc32 (sw_block w))) w2 = (Inr (), w3)"
    and w': "w' = w3\<lparr>sw_index := sw_index w3 @ [\<lparr>ie_Key = sw_lastKey w3, ie_Handle = \<lparr>bh_Offset = sw_offset w,
         bh_Size = word_of_nat (length (sw_block w) + 1 + 4)\<rparr>\<rparr>],
       sw_offset := sw_offset w3 + word_of_nat (length (sw_block w) + 1 + 4), sw_block := []\<rparr>"
    by (auto simp: flush_block_def Let_def bindE_iff)
  have log: "sw_log w3 = sw_log w @ block_image cur"
    using sw_put_ok(1) [OF p1] sw_put_ok(1) [OF p2] sw_put_ok(1) [OF p3] blk by (simp add: block_image_def)
  have same: "sw_index w3 = sw_index w" "sw_lastKey w3 = sw_lastKey w" "sw_offset w3 = sw_offset w"
    "sw_closed w3 = sw_closed w" "sw_bloom w3 = sw_bloom w"
    using sw_put_ok(2) [OF p1] sw_put_ok(2) [OF p2] sw_put_ok(2) [OF p3] by auto
  have "last (concat bs @ cur) = last cur" using False by simp
  with inv False blk show ?thesis
    by (simp add: sw_inv_def w' same log index_from_append length_block_image add.commute)
qed

lemma sw_put_bloom: "sw_put msg p w = (r, w') \<Longrightarrow> sw_bloom w' = sw_bloom w"
  by (auto simp: sw_put_def split: prod.splits)

lemma flush_block_bloom: "flush_block w = (Inr u, w') \<Longrightarrow> sw_bloom w' = sw_bloom w"
  by (auto simp: flush_block_def Let_def bindE_iff dest!: sw_put_bloom split: if_splits)

lemma sst_add_inv:
  assumes run: "sst_add B k v w = (Inr u, w')" and inv: "sw_inv B bs cur w" and B: "bloom_ok B"
    and ok: "kv_ok (k, v)"
  shows "sw_inv B bs (cur @ [(k, v)]) w' \<or> cur \<noteq> [] \<and> sw_inv B (bs @ [cur]) [(k, v)] w'"
    and "sw_lastKey w = [] \<or> sw_lastKey w < k"
proof -
  let ?w = "w\<lparr>sw_bloom := bl_add B k (sw_bloom w)\<rparr>"
  let ?full = "length (sw_block ?w) + unat (4 + len32 k + 4 + len32 v) > BlockSize"
  from run have guard: "\<not> (sw_lastKey w \<noteq> [] \<and> k \<le> sw_lastKey w)"
    by (auto simp: sst_add_def split: if_split_asm)
  from run guard obtain w1 where "(if ?full then flush_block ?w else (Inr (), ?w)) = (Inr (), w1)"
    and w': "w' = w1\<lparr>sw_block := sw_block w1 @ kv_bytes (k, v), sw_lastKey := k, sw_count := sw_count w1 + 1\<rparr>"
    using encode_kv_ok [OF ok]
    by (simp only: sst_add_def bindE_iff Let_def split: if_split_asm) auto
  then have w1: "w1 = ?w \<or> flush_block ?w = (Inr (), w1)"
    by (metis Pair_inject)
  from guard show "sw_lastKey w = [] \<or> sw_lastKey w < k" by auto
  have inv': "sw_inv B bs cur ?w"
    using inv B by (auto simp: sw_inv_def bloom_ok_def)
  have test: "bl_test B k (sw_bloom ?w)" using B by (simp add: bloom_ok_def)
  have fl: "sw_inv B cs c w1 \<Longrightarrow> bl_test B k (sw_bloom w1) \<Longrightarrow> sw_inv B cs (c @ [(k, v)]) w'" for cs c
    by (auto simp: sw_inv_def w')
  have bloom: "sw_bloom w1 = sw_bloom ?w"
    using w1 flush_block_bloom by blast
  from w1 show "sw_inv B bs (cur @ [(k, v)]) w' \<or> cur \<noteq> [] \<and> sw_inv B (bs @ [cur]) [(k, v)] w'"
  proof
    assume "w1 = ?w"
    with fl [of bs cur] inv' test show ?thesis by simp
  next
    assume "flush_block ?w = (Inr (), w1)"
    from flush_block_inv [OF this inv'] fl bloom test show ?thesis
      by (cases "cur = []") (fastforce dest: fl)+
  qed
qed

fun add_all :: "'b bloom \<Rightarrow> kv list \<Rightarrow> 'b sst_writer \<Rightarrow> unit res \<times> 'b sst_writer" where
  "add_all B [] w = (Inr (), w)"
| "add_all B ((k, v) # kvs) w = bindS (sst_add B k v w) (\<lambda>_ w. add_all B kvs w)"

lemma add_all_inv:
  assumes "add_all B kvs w = (Inr u, w')" and "sw_inv B bs cur w" and "bloom_ok B" and "list_all kv_ok kvs"
  shows "\<exists>bs' cur'. sw_inv B bs' cur' w' \<and> concat bs' @ cur' = concat bs @ cur @ kvs"
  using assms
proof (induction kvs arbitrary: w bs cur)
  case Nil
  then show ?case by auto
next
  case (Cons kv kvs)
  obtain k v where kv: "kv = (k, v)" by force
  from Cons.prems kv obtain w1 where w1: "sst_add B k v w = (Inr (), w1)" "add_all B kvs w1 = (Inr u, w')"
    by (auto simp: bindE_iff)
  have ok: "kv_ok (k, v)" "list_all kv_ok kvs" using Cons.prems kv by simp_all
  from sst_add_inv(1) [OF w1(1) Cons.prems(2,3) ok(1)] show ?case
  proof
    assume "sw_inv B bs (cur @ [(k, v)]) w1"
    from Cons.IH [OF w1(2) this Cons.prems(3) ok(2)] kv show ?thesis by simp
  next
    assume "cur \<noteq> [] \<and> sw_inv B (bs @ [cur]) [(k, v)] w1"
    from Cons.IH [OF w1(2) conjunct2 [OF this] Cons.prems(3) ok(2)] kv show ?thesis by simp
  qed
qed

section \<open>The file\<close>

definition index_image :: "kv list list \<Rightarrow> bytes" where
  "index_image bs = le_enc 4 (len32 bs) @ concat (map index_bytes (index_from 0 bs))"

definition table_footer :: "kv list list \<Rightarrow> bytes \<Rightarrow> footer" where
  "table_footer bs bloomData =
     (let i = length (blocks_image bs); n = length (index_image bs)
      in make_footer (word_of_nat i) (word_of_nat n) (word_of_nat (i + n)) (word_of_nat (length bloomData)))"

definition table_image :: "kv list list \<Rightarrow> bytes \<Rightarrow> bytes" where
  "table_image bs bloomData =
     blocks_image bs @ index_image bs @ bloomData @ encode_footer (table_footer bs bloomData)"

lemma index_keys_ok:
  "[] \<notin> set bs \<Longrightarrow> list_all kv_ok (concat bs) \<Longrightarrow> \<forall>kv\<in>set (concat bs). length (fst kv) + 20 < 2 ^ 32 \<Longrightarrow>
   list_all index_key_ok (index_from off bs)"
proof (induction bs arbitrary: off)
  case Nil
  then show ?case by simp
next
  case (Cons b bs)
  then have "last b \<in> set b" by (cases b) simp_all
  moreover have "list_all index_key_ok (index_from (off + length (block_image b)) bs)"
    using Cons.prems by (intro Cons.IH) auto
  moreover have "length (fst (last b)) + 20 < 2 ^ 32"
    using Cons.prems(3) calculation(1) by auto
  ultimately show ?case by (simp add: index_key_ok_def [of "\<lparr>ie_Key = _, ie_Handle = _\<rparr>"])
qed

lemma sw_finish_ok:
  assumes "sw_finish io w = (Inr u, w')"
  shows "sw_file w' = sw_log w \<and> sw_closed w'"
  using assms
  by (auto simp: sw_finish_def sw_log_def Let_def dest!: bufio_flush_ok split: prod.splits if_splits)

lemma len32_cong: "length xs = length ys \<Longrightarrow> len32 xs = len32 ys"
  by (simp add: len32_def)

lemma sst_close_image:
  assumes run: "sst_close B io w = (Inr u, w')" and inv: "sw_inv B bs cur w"
    and ok: "list_all kv_ok (concat bs @ cur)" "\<forall>kv\<in>set (concat bs @ cur). length (fst kv) + 20 < 2 ^ 32"
  shows "\<exists>bs' d. [] \<notin> set bs' \<and> concat bs' = concat bs @ cur \<and> bl_encode B (sw_bloom w) = Inr d
    \<and> sw_file w' = table_image bs' d \<and> sw_closed w'"
proof -
  define bs' where "bs' = (if cur = [] then bs else bs @ [cur])"
  have cc: "concat bs' = concat bs @ cur" by (simp add: bs'_def)
  from inv have nc: "\<not> sw_closed w" by (simp add: sw_inv_def)
  from run nc obtain w1 idx w2 d w3 w4 where
    w1: "flush_block w = (Inr (), w1)" and idx: "encode_index_block w1 = Inr idx"
    and w2: "sw_put ''failed to write index block'' idx w1 = (Inr (), w2)"
    and d: "bl_encode B (sw_bloom w2) = Inr d"
    and w3: "sw_put ''failed to write bloom filter'' d (w2\<lparr>sw_offset := sw_offset w2 + word_of_nat (length idx)\<rparr>)
      = (Inr (), w3)"
    and w4: "sw_put ''failed to write footer'' (encode_footer (make_footer (sw_offset w1) (word_of_nat (length idx))
        (sw_offset w2 + word_of_nat (length idx)) (word_of_nat (length d))))
        (w3\<lparr>sw_offset := sw_offset w3 + word_of_nat (length d)\<rparr>) = (Inr (), w4)"
    and fin: "sw_finish io w4 = (Inr u, w')"
    by (auto simp: sst_close_def bindE_iff Let_def)
  have inv1: "sw_inv B bs' [] w1" using flush_block_inv [OF w1 inv] by (simp add: bs'_def)
  have "list_all index_key_ok (index_from 0 bs')"
    using inv1 ok by (intro index_keys_ok) (auto simp: sw_inv_def cc)
  then have idx': "idx = index_image bs'"
    using idx inv1 by (simp add: encode_index_block_def encode_entries_ok sw_inv_def index_image_def
        len32_cong [of "index_from 0 bs'" bs'])
  have off: "sw_offset w1 = word_of_nat (length (blocks_image bs'))" "sw_log w1 = blocks_image bs'"
    using inv1 by (simp_all add: sw_inv_def)
  have off2: "sw_offset w2 = sw_offset w1" "sw_bloom w2 = sw_bloom w1" using sw_put_ok(2) [OF w2] by auto
  have "sw_bloom w1 = sw_bloom w"
    using flush_block_bloom [OF w1] .
  with d off2 have d': "bl_encode B (sw_bloom w) = Inr d" by simp
  have "sw_log w4 = table_image bs' d"
    using sw_put_ok(1) [OF w2] sw_put_ok(1) [OF w3] sw_put_ok(1) [OF w4] off off2
    by (simp add: table_image_def table_footer_def Let_def idx')
  with sw_finish_ok [OF fin] inv1 cc d' show ?thesis
    by (intro exI [of _ bs'] exI [of _ d]) (auto simp: sw_inv_def)
qed

section \<open>When it succeeds\<close>

definition sw_healthy :: "'b sst_writer \<Rightarrow> bool" where
  "sw_healthy w \<longleftrightarrow> sw_room w = None \<and> sw_open w \<and> \<not> b_err (sw_writer w)"

lemma sw_put_healthy: "sw_healthy w \<Longrightarrow> \<exists>w'. sw_put msg p w = (Inr (), w') \<and> sw_healthy w'"
  using bufio_write_unlimited [of "sw_writer w" p "sw_file w"] by (auto simp: sw_put_def sw_healthy_def)

lemma sw_healthy_update [simp]:
  "sw_healthy (w\<lparr>sw_index := i, sw_offset := off, sw_block := blk\<rparr>) = sw_healthy w"
  "sw_healthy (w\<lparr>sw_bloom := bl\<rparr>) = sw_healthy w" "sw_healthy (w\<lparr>sw_offset := off\<rparr>) = sw_healthy w"
  "sw_healthy (w\<lparr>sw_block := blk, sw_lastKey := k, sw_count := c\<rparr>) = sw_healthy w"
  by (simp_all add: sw_healthy_def)

lemma flush_block_healthy: "sw_healthy w \<Longrightarrow> \<exists>w'. flush_block w = (Inr (), w') \<and> sw_healthy w' \<and> sw_lastKey w' = sw_lastKey w \<and> sw_closed w' = sw_closed w"
proof (cases "sw_block w = []")
  case False
  assume h: "sw_healthy w"
  from sw_put_healthy [OF h] obtain w1 where
    1: "sw_put ''failed to write block'' (sw_block w) w = (Inr (), w1)" "sw_healthy w1" by blast
  from sw_put_healthy [OF 1(2)] obtain w2 where
    2: "sw_put ''failed to write compression type'' [CompressionNone] w1 = (Inr (), w2)" "sw_healthy w2" by blast
  from sw_put_healthy [OF 2(2)] obtain w3 where
    3: "sw_put ''failed to write checksum'' (le_enc 4 (crc32 (sw_block w))) w2 = (Inr (), w3)" "sw_healthy w3" by blast
  from 1 2 3 sw_put_ok(2) [OF 1(1)] sw_put_ok(2) [OF 2(1)] sw_put_ok(2) [OF 3(1)] False show ?thesis
    by (auto simp: flush_block_def Let_def)
qed (simp add: flush_block_def)

lemma sst_add_healthy:
  assumes h: "sw_healthy w" and c: "\<not> sw_closed w" and ok: "kv_ok (k, v)"
  shows "if sw_lastKey w \<noteq> [] \<and> k \<le> sw_lastKey w
    then sst_add B k v w = (Inl (Err ''keys must be added in sorted order''), w)
    else \<exists>w'. sst_add B k v w = (Inr (), w') \<and> sw_healthy w' \<and> \<not> sw_closed w' \<and> sw_lastKey w' = k"
proof -
  let ?w = "w\<lparr>sw_bloom := bl_add B k (sw_bloom w)\<rparr>"
  from flush_block_healthy [of ?w] h c obtain w1 where
    "flush_block ?w = (Inr (), w1)" "sw_healthy w1" "\<not> sw_closed w1" by auto
  with h c encode_kv_ok [OF ok] show ?thesis by (auto simp: sst_add_def Let_def)
qed

text \<open>On an unlimited device, the writer takes exactly the strictly ascending key sequences.\<close>

lemma add_all_iff:
  assumes "sw_healthy w" and "\<not> sw_closed w" and "list_all kv_ok kvs" and "[] \<notin> fst ` set kvs"
  shows "succeeds (fst (add_all B kvs w)) \<longleftrightarrow>
      sorted_wrt (<) (map fst kvs) \<and> (\<forall>k\<in>fst ` set kvs. sw_lastKey w = [] \<or> sw_lastKey w < k)"
  using assms
proof (induction kvs arbitrary: w)
  case Nil
  then show ?case by simp
next
  case (Cons kv kvs)
  obtain k v where kv: "kv = (k, v)" by force
  have ok: "kv_ok (k, v)" and k: "k \<noteq> []" using Cons.prems kv by auto
  note A = sst_add_healthy [OF Cons.prems(1,2) ok, of B]
  show ?case
  proof (cases "sw_lastKey w \<noteq> [] \<and> k \<le> sw_lastKey w")
    case True
    with A show ?thesis by (auto simp: kv)
  next
    case False
    with A obtain w' where w': "sst_add B k v w = (Inr (), w')" "sw_healthy w'" "\<not> sw_closed w'"
      "sw_lastKey w' = k" by auto
    from Cons.IH [OF w'(2,3)] Cons.prems w' False k show ?thesis
      by (fastforce simp: kv intro: less_trans)
  qed
qed

end
