(* ===== verification/Sstable_Reader.thy ===== *)
theory Sstable_Reader
  imports Sstable_Writer
begin

text \<open>
  \<open>pkg/sstable/reader.go\<close>: opening a table file, lookup and scan.  The memory map is the
  file's content (its length is what \<open>Stat\<close> reported just before); \<open>int\<close> is 64 bits wide, so
  a \<open>uint32\<close> length read from the file never overflows an offset.
\<close>

section \<open>Opening\<close>

record 'b sst_reader =
  sr_mmap :: bytes
  sr_footer :: footer
  sr_index :: "index_entry list"
  sr_bloom :: 'b
  sr_closed :: bool

text \<open>
  \<open>if offset+size > uint64(fileSize) { return err }; mmap[offset : offset+size]\<close>: the sum is
  a \<open>uint64\<close>, so it can wrap and pass the check; then the slice bounds are reversed.
\<close>

definition map_slice :: "string \<Rightarrow> bytes \<Rightarrow> u64 \<Rightarrow> u64 \<Rightarrow> bytes res" where
  "map_slice msg m offset sz =
     (if unat (offset + sz) > length m then Inl (Err msg)
      else if unat offset > unat (offset + sz) then Inl (Panic ''slice bounds out of range'')
      else Inr (sub_bytes m (unat offset) (unat (offset + sz))))"

definition read_footer :: "bytes \<Rightarrow> footer res" where
  "read_footer m =
     (let footerData = drop (length m - FooterSize) m
      in bindE (decode_footer footerData) (\<lambda>f.
           if ft_Checksum f \<noteq> crc32 (take 44 footerData) then Inl (Err ''footer checksum mismatch'')
           else Inr f))"

definition read_index :: "bytes \<Rightarrow> footer \<Rightarrow> index_entry list res" where
  "read_index m f =
     bindE (map_slice ''index block out of bounds'' m (ft_IndexBlockOffset f) (ft_IndexBlockSize f)) (\<lambda>indexData.
       if length indexData < 4 then Inl (Err ''index block too small'')
       else let entryCount = unat (le_dec (take 4 indexData) :: u32)
            in bindE (dec_times entryCount index_step (drop 4 indexData)) (\<lambda>(entries, _). Inr entries))"

definition read_bloom :: "'b bloom \<Rightarrow> bytes \<Rightarrow> footer \<Rightarrow> 'b res" where
  "read_bloom B m f =
     bindE (map_slice ''bloom filter out of bounds'' m (ft_BloomFilterOffset f) (ft_BloomFilterSize f)) (\<lambda>bloomData.
       wrapE ''failed to decode bloom filter'' (bl_decode B bloomData))"

definition open_reader :: "'b bloom \<Rightarrow> wal_io \<Rightarrow> bytes option \<Rightarrow> 'b sst_reader res" where
  "open_reader B io content =
     (case content of
        None \<Rightarrow> Inl (Wrap ''failed to open SSTable'' (Err ''open''))
      | Some m \<Rightarrow>
          if \<not> io_open_ok io then Inl (Wrap ''failed to open SSTable'' (Err ''open''))
          else if \<not> io_stat_ok io then Inl (Wrap ''failed to stat file'' (Err ''stat''))
          else if length m < FooterSize then Inl (Err ''file too small to be valid SSTable'')
          else if \<not> io_mmap_ok io then Inl (Wrap ''failed to mmap file'' (Err ''mmap''))
          else
            bindE (wrapE ''failed to read footer'' (read_footer m)) (\<lambda>f.
            bindE (wrapE ''failed to read index'' (read_index m f)) (\<lambda>idx.
            bindE (wrapE ''failed to read bloom filter'' (read_bloom B m f)) (\<lambda>bl.
            Inr \<lparr>sr_mmap = m, sr_footer = f, sr_index = idx, sr_bloom = bl, sr_closed = False\<rparr>))))"

definition can_open :: "wal_io \<Rightarrow> bool" where
  "can_open io \<longleftrightarrow> io_open_ok io \<and> io_stat_ok io \<and> io_mmap_ok io"

section \<open>Lookup\<close>

function find_loop :: "index_entry list \<Rightarrow> bytes \<Rightarrow> int \<Rightarrow> int \<Rightarrow> int" where
  "find_loop idx key left right =
     (if left \<le> right then
        let mid = (left + right) div 2
        in if key \<le> ie_Key (idx ! nat mid) then find_loop idx key left (mid - 1)
           else find_loop idx key (mid + 1) right
      else left)"
  by pat_completeness auto
termination
  by (relation "measure (\<lambda>(_, _, left, right). nat (right + 1 - left))") auto

declare find_loop.simps [simp del]

definition find_block :: "index_entry list \<Rightarrow> bytes \<Rightarrow> block_handle option" where
  "find_block idx key =
     (let left = find_loop idx key 0 (int (length idx) - 1)
      in if left \<ge> int (length idx) then None else Some (ie_Handle (idx ! nat left)))"

definition unpack_block :: "bytes \<Rightarrow> bytes res" where
  \<comment> \<open>\<open>readBlock\<close> after the slice\<close>
  "unpack_block blockData =
     (if length blockData < 5 then Inl (Err ''invalid block size'')
      else
        let dataLen = length blockData - 1 - 4;
            data = take dataLen blockData;
            compressionType = blockData ! dataLen;
            checksum = le_dec (take 4 (drop (dataLen + 1) blockData)) :: u32
        in if checksum \<noteq> crc32 data then Inl (Err ''block checksum mismatch'')
           else if compressionType = CompressionNone then Inr data
           else if compressionType = CompressionSnappy \<or> compressionType = CompressionLZ4 then
             Inl (Err ''compression not yet implemented'')
           else Inl (Err ''unknown compression type''))"

definition read_block :: "'b sst_reader \<Rightarrow> block_handle \<Rightarrow> bytes res" where
  "read_block r handle =
     bindE (map_slice ''block out of bounds'' (sr_mmap r) (bh_Offset handle) (bh_Size handle)) unpack_block"

text \<open>
  The four reads at the top of both block loops; any that runs past the block ends the loop.
\<close>

definition block_next :: "bytes \<Rightarrow> ((bytes \<times> bytes) \<times> bytes) res" where
  "block_next blk =
     bindE (read_full 4 blk) (\<lambda>(b, blk).
     bindE (read_full (unat (le_dec b :: u32)) blk) (\<lambda>(key, blk).
     bindE (read_full 4 blk) (\<lambda>(b, blk).
     bindE (read_full (unat (le_dec b :: u32)) blk) (\<lambda>(val, blk).
     Inr ((key, val), blk)))))"

lemma block_next_consumes: "block_next blk = Inr (kv, rest) \<Longrightarrow> length rest < length blk"
  by (auto simp: block_next_def bindE_iff read_full_Inr_iff)

function search_block :: "bytes \<Rightarrow> bytes \<Rightarrow> bytes res" where
  "search_block blk key =
     (case block_next blk of
        Inl _ \<Rightarrow> Inl (Err ''key not found in block'')
      | Inr ((entryKey, val), rest) \<Rightarrow>
          if entryKey = key then (if length val = 0 then Inl (Err ''key deleted'') else Inr val)
          else if entryKey > key then Inl (Err ''key not found in block'')
          else search_block rest key)"
  by pat_completeness auto
termination
  by (relation "measure (\<lambda>(blk, _). length blk)") (auto dest: block_next_consumes)

declare search_block.simps [simp del]

definition sst_get :: "'b bloom \<Rightarrow> 'b sst_reader \<Rightarrow> bytes \<Rightarrow> bytes res" where
  "sst_get B r key =
     (if sr_closed r then Inl (Err ''reader is closed'')
      else if \<not> bl_test B key (sr_bloom r) then Inl (Err ''key not found (bloom filter)'')
      else case find_block (sr_index r) key of
        None \<Rightarrow> Inl (Err ''key not found (index)'')
      | Some handle \<Rightarrow>
          bindE (wrapE ''failed to read block'' (read_block r handle)) (\<lambda>blockData.
            search_block blockData key))"

section \<open>Scan\<close>

function scan_block :: "(bytes \<Rightarrow> bytes \<Rightarrow> 's \<Rightarrow> unit res \<times> 's) \<Rightarrow> bytes \<Rightarrow> 's \<Rightarrow> unit res \<times> 's" where
  "scan_block fn blk s =
     (case block_next blk of
        Inl _ \<Rightarrow> (Inr (), s)
      | Inr ((key, val), rest) \<Rightarrow>
          bindS (if length val > 0 then fn key val s else (Inr (), s)) (\<lambda>_ s. scan_block fn rest s))"
  by pat_completeness auto
termination
  by (relation "measure (\<lambda>(_, blk, _). length blk)") (auto dest: block_next_consumes)

declare scan_block.simps [simp del]

fun scan_blocks ::
  "(bytes \<Rightarrow> bytes \<Rightarrow> 's \<Rightarrow> unit res \<times> 's) \<Rightarrow> 'b sst_reader \<Rightarrow> index_entry list \<Rightarrow> 's \<Rightarrow> unit res \<times> 's" where
  "scan_blocks fn r [] s = (Inr (), s)"
| "scan_blocks fn r (e # es) s =
     (case wrapE ''failed to read block'' (read_block r (ie_Handle e)) of
        Inl er \<Rightarrow> (Inl er, s)
      | Inr blockData \<Rightarrow> bindS (scan_block fn blockData s) (\<lambda>_ s. scan_blocks fn r es s))"

definition sst_scan :: "(bytes \<Rightarrow> bytes \<Rightarrow> 's \<Rightarrow> unit res \<times> 's) \<Rightarrow> 'b sst_reader \<Rightarrow> 's \<Rightarrow> unit res \<times> 's" where
  "sst_scan fn r s =
     (if sr_closed r then (Inl (Err ''reader is closed''), s) else scan_blocks fn r (sr_index r) s)"

definition reader_close :: "bool \<Rightarrow> bool \<Rightarrow> 'b sst_reader \<Rightarrow> unit res \<times> 'b sst_reader" where
  \<comment> \<open>the first of the unmap and close errors, if there is one\<close>
  "reader_close unmap_ok close_ok r =
     (if sr_closed r then (Inr (), r)
      else (if \<not> unmap_ok then Inl (Err ''unmap'') else if \<not> close_ok then Inl (Err ''close'') else Inr (),
            r\<lparr>sr_closed := True\<rparr>))"

definition reader_file_size :: "'b sst_reader \<Rightarrow> nat" where
  "reader_file_size r = length (sr_mmap r)"

definition entry_count :: "'b sst_reader \<Rightarrow> nat" where
  "entry_count r = length (sr_index r)"

section \<open>The binary search\<close>

lemma find_loop_inv:
  assumes "sorted_wrt (\<lambda>a b. ie_Key a \<le> ie_Key b) idx"
    and "0 \<le> left" "left \<le> right + 1" "right < int (length idx)"
    and "\<forall>i. int i < left \<longrightarrow> ie_Key (idx ! i) < key"
    and "\<forall>i < length idx. right < int i \<longrightarrow> key \<le> ie_Key (idx ! i)"
  shows "0 \<le> find_loop idx key left right \<and> find_loop idx key left right \<le> int (length idx)
    \<and> (\<forall>i. int i < find_loop idx key left right \<longrightarrow> ie_Key (idx ! i) < key)
    \<and> (\<forall>i < length idx. find_loop idx key left right \<le> int i \<longrightarrow> key \<le> ie_Key (idx ! i))"
  using assms
proof (induction idx key left right rule: find_loop.induct)
  case (1 idx key left right)
  let ?mid = "(left + right) div 2"
  have mono: "ie_Key (idx ! i) \<le> ie_Key (idx ! j)" if "i \<le> j" "j < length idx" for i j
    using that "1.prems"(1) by (cases "i = j") (auto simp: sorted_wrt_iff_nth_less)
  show ?case
  proof (cases "left \<le> right")
    case False
    with "1.prems" show ?thesis by (subst (1 2 3 4) find_loop.simps) auto
  next
    case True
    with "1.prems" have mid: "left \<le> ?mid" "?mid \<le> right" "nat ?mid < length idx" by auto
    show ?thesis
    proof (cases "key \<le> ie_Key (idx ! nat ?mid)")
      case le: True
      have "\<forall>i < length idx. ?mid - 1 < int i \<longrightarrow> key \<le> ie_Key (idx ! i)"
        using le mono [of "nat ?mid"] mid "1.prems"(2) by (auto intro: order_trans)
      from "1.IH"(1) [OF True refl le "1.prems"(1,2) _ _ "1.prems"(5) this] mid "1.prems" True le
      show ?thesis by (subst (1 2 3 4) find_loop.simps) (simp add: Let_def)
    next
      case gt: False
      have "\<forall>i. int i < ?mid + 1 \<longrightarrow> ie_Key (idx ! i) < key"
      proof (intro allI impI)
        fix i assume "int i < ?mid + 1"
        then have "i \<le> nat ?mid" by linarith
        from mono [OF this mid(3)] gt show "ie_Key (idx ! i) < key" by simp
      qed
      from "1.IH"(2) [OF True refl gt "1.prems"(1) _ _ "1.prems"(4) this "1.prems"(6)] mid "1.prems" True gt
      show ?thesis by (subst (1 2 3 4) find_loop.simps) (simp add: Let_def)
    qed
  qed
qed

text \<open>It finds the first block whose last key is not below the one sought.\<close>

lemma find_block_split:
  assumes "sorted_wrt (\<lambda>a b. ie_Key a \<le> ie_Key b) idx"
  shows "find_block idx key =
    (case dropWhile (\<lambda>e. ie_Key e < key) idx of [] \<Rightarrow> None | e # _ \<Rightarrow> Some (ie_Handle e))"
proof -
  define L where "L = find_loop idx key 0 (int (length idx) - 1)"
  have L: "0 \<le> L" "L \<le> int (length idx)" "\<And>i. int i < L \<Longrightarrow> ie_Key (idx ! i) < key"
    "\<And>i. i < length idx \<Longrightarrow> L \<le> int i \<Longrightarrow> key \<le> ie_Key (idx ! i)"
    using find_loop_inv [OF assms, of 0 "int (length idx) - 1" key] by (auto simp: L_def)
  define l where "l = nat L"
  have l: "l \<le> length idx" "\<And>i. i < l \<Longrightarrow> ie_Key (idx ! i) < key"
    "\<And>i. i < length idx \<Longrightarrow> l \<le> i \<Longrightarrow> key \<le> ie_Key (idx ! i)" "L = int l"
    using L by (auto simp: l_def)
  have split: "idx = take l idx @ drop l idx" by simp
  have "\<forall>e \<in> set (take l idx). ie_Key e < key"
    using l(1,2) by (auto simp: in_set_conv_nth)
  then have dw: "dropWhile (\<lambda>e. ie_Key e < key) idx = dropWhile (\<lambda>e. ie_Key e < key) (drop l idx)"
    by (subst split) (simp add: dropWhile_append2 del: append_take_drop_id)
  show ?thesis
  proof (cases "l = length idx")
    case True
    with dw have none: "dropWhile (\<lambda>e. ie_Key e < key) idx = []" by simp
    show ?thesis
      unfolding none using True l(4) by (simp add: find_block_def flip: L_def)
  next
    case False
    with l(1) have "l < length idx" by simp
    then have "drop l idx = idx ! l # drop (Suc l) idx" by (simp add: Cons_nth_drop_Suc)
    with dw l(3) [of l] \<open>l < length idx\<close> l(4) show ?thesis
      by (simp add: find_block_def not_less flip: L_def)
  qed
qed

section \<open>Reading what was written\<close>

lemma block_next_kv: "kv_ok kv \<Longrightarrow> block_next (kv_bytes kv @ rest) = Inr (kv, rest)"
  using kv_ok_str [of kv] by (simp add: block_next_def kv_bytes_def)

lemma block_next_Nil [simp]: "block_next [] = Inl EOF"
  by (simp add: block_next_def read_full_def)

interpretation kv_codec: stream_codec kv_bytes block_next "\<lambda>kv. kv" kv_ok "\<lambda>_. True"
  by unfold_locales (simp_all add: block_next_kv)

definition lookup_result :: "bytes option \<Rightarrow> bytes res" where
  "lookup_result v = (case v of None \<Rightarrow> Inl (Err ''key not found in block'')
     | Some v \<Rightarrow> if v = [] then Inl (Err ''key deleted'') else Inr v)"

lemma search_block_sorted:
  "list_all kv_ok b \<Longrightarrow> sorted_wrt (<) (map fst b) \<Longrightarrow>
   search_block (data_bytes b) key = lookup_result (map_of b key)"
proof (induction b)
  case Nil
  then show ?case by (subst search_block.simps) (simp add: lookup_result_def)
next
  case (Cons kv b)
  obtain k v where kv: "kv = (k, v)" by force
  from Cons.prems have ok: "kv_ok (k, v)" and sorted: "\<forall>k'\<in>fst ` set b. k < k'" by (auto simp: kv)
  have step: "search_block (data_bytes (kv # b)) key =
      (if k = key then (if v = [] then Inl (Err ''key deleted'') else Inr v)
       else if k > key then Inl (Err ''key not found in block'')
       else search_block (data_bytes b) key)"
    by (subst search_block.simps) (simp add: kv block_next_kv [OF ok])
  show ?case
  proof (cases "key < k")
    case True
    with sorted have "map_of b key = None" by (force simp: map_of_eq_None_iff)
    with True step show ?thesis by (simp add: kv lookup_result_def)
  next
    case False
    with step Cons show ?thesis by (auto simp: kv lookup_result_def)
  qed
qed

lemma scan_block_kvs:
  "list_all kv_ok b \<Longrightarrow> scan_block fn (data_bytes b @ blk) s =
     bindS (fold (\<lambda>(k, v) r. bindS r (\<lambda>_ s. if v = [] then (Inr (), s) else fn k v s)) b (Inr (), s))
       (\<lambda>_ s. scan_block fn blk s)"
proof (induction b arbitrary: s)
  case Nil
  then show ?case by simp
next
  case (Cons kv b)
  obtain k v where kv: "kv = (k, v)" by force
  from Cons.prems have ok: "kv_ok (k, v)" by (simp add: kv)
  have stuck: "fold (\<lambda>(k, v) r. bindS r (\<lambda>_ s. if v = [] then (Inr (), s) else fn k v s)) b (Inl e, s')
      = (Inl e, s')" for e s' by (induction b) auto
  have step: "scan_block fn (data_bytes (kv # b) @ blk) s =
      bindS (if v = [] then (Inr (), s) else fn k v s) (\<lambda>_ s. scan_block fn (data_bytes b @ blk) s)"
    by (subst scan_block.simps) (simp add: kv block_next_kv [OF ok])
  obtain r s1 where r: "(if v = [] then (Inr (), s) else fn k v s) = (r, s1)" by force
  show ?case
  proof (cases r)
    case (Inl e)
    with step r show ?thesis by (simp add: kv stuck)
  next
    case (Inr u)
    with step r Cons show ?thesis by (simp add: kv)
  qed
qed

text \<open>A table in the file, under the bounds of its \<open>uint64\<close> and \<open>uint32\<close> fields.\<close>

definition table_ok :: "kv list list \<Rightarrow> bytes \<Rightarrow> bool" where
  "table_ok bs d \<longleftrightarrow> [] \<notin> set bs \<and> list_all kv_ok (concat bs) \<and> sorted_wrt (<) (map fst (concat bs))
     \<and> (\<forall>kv\<in>set (concat bs). length (fst kv) + 20 < 2 ^ 32)
     \<and> length bs < 2 ^ 32 \<and> length (table_image bs d) < 2 ^ 64"

lemma map_slice_mid:
  assumes "m = xs @ ys @ zs" and "length m < 2 ^ 64"
  shows "map_slice msg m (word_of_nat (length xs)) (word_of_nat (length ys)) = Inr ys"
proof -
  have "unat (word_of_nat (length xs) :: u64) = length xs"
    "unat (word_of_nat (length xs) + word_of_nat (length ys) :: u64) = length xs + length ys"
    using assms by (simp_all add: unat_of_nat flip: of_nat_add)
  then show ?thesis
    using assms(1) by (simp add: map_slice_def sub_bytes_def)
qed

lemma footer_body_checksum [simp]: "footer_body (f\<lparr>ft_Checksum := c\<rparr>) = footer_body f"
  by (simp add: footer_body_def)

lemma take_encode_footer [simp]: "take 44 (encode_footer f) = footer_body f"
  by (simp add: encode_footer_def)

lemma make_footer_fields:
  "ft_MagicNumber (make_footer a b c e) = MagicNumber" "ft_Version (make_footer a b c e) = Version"
  "ft_Checksum (make_footer a b c e) = crc32 (footer_body (make_footer a b c e))"
  by (simp_all add: make_footer_def Let_def) (simp add: footer_body_def)

lemma read_footer_image: "read_footer (table_image bs d) = Inr (table_footer bs d)"
proof -
  let ?f = "table_footer bs d"
  have "drop (length (table_image bs d) - FooterSize) (table_image bs d) = encode_footer ?f"
    by (simp add: table_image_def FooterSize_def)
  moreover have "ft_MagicNumber ?f = MagicNumber" "ft_Version ?f = Version" "ft_Checksum ?f = crc32 (footer_body ?f)"
    by (simp_all add: table_footer_def Let_def make_footer_fields)
  ultimately show ?thesis
    by (simp add: read_footer_def decode_encode_footer)
qed

lemma table_footer_fields:
  "ft_IndexBlockOffset (table_footer bs d) = word_of_nat (length (blocks_image bs))"
  "ft_IndexBlockSize (table_footer bs d) = word_of_nat (length (index_image bs))"
  "ft_BloomFilterOffset (table_footer bs d) = word_of_nat (length (blocks_image bs @ index_image bs))"
  "ft_BloomFilterSize (table_footer bs d) = word_of_nat (length d)"
  by (simp_all add: table_footer_def make_footer_def Let_def)

lemma read_index_image:
  assumes "table_ok bs d"
  shows "read_index (table_image bs d) (table_footer bs d) = Inr (index_from 0 bs)"
proof -
  let ?es = "index_from 0 bs"
  have slice: "map_slice ''index block out of bounds'' (table_image bs d)
      (ft_IndexBlockOffset (table_footer bs d)) (ft_IndexBlockSize (table_footer bs d)) = Inr (index_image bs)"
    unfolding table_footer_fields using assms by (intro map_slice_mid) (auto simp: table_ok_def table_image_def)
  have "list_all index_key_ok ?es" using assms by (intro index_keys_ok) (auto simp: table_ok_def)
  from index_codec.dec_times_enc [OF this, of "[]"]
  have "dec_times (length bs) index_step (concat (map index_bytes ?es)) = Inr (?es, [])" by simp
  with slice assms show ?thesis
    by (simp add: read_index_def index_image_def Let_def table_ok_def)
qed

definition opened :: "kv list list \<Rightarrow> bytes \<Rightarrow> 'b \<Rightarrow> 'b sst_reader" where
  "opened bs d bl = \<lparr>sr_mmap = table_image bs d, sr_footer = table_footer bs d,
     sr_index = index_from 0 bs, sr_bloom = bl, sr_closed = False\<rparr>"

lemma open_reader_image:
  assumes ok: "table_ok bs d" and B: "bloom_ok B" and d: "bl_encode B b = Inr d" and io: "can_open io"
  shows "\<exists>bl. open_reader B io (Some (table_image bs d)) = Inr (opened bs d bl)
    \<and> (\<forall>k. bl_test B k bl = bl_test B k b)"
proof -
  from B d obtain bl where bl: "bl_decode B d = Inr bl" "\<forall>k. bl_test B k bl = bl_test B k b"
    unfolding bloom_ok_def by blast
  have "table_image bs d = (blocks_image bs @ index_image bs) @ d @ encode_footer (table_footer bs d)"
    by (simp add: table_image_def)
  from map_slice_mid [OF this] ok
  have "map_slice ''bloom filter out of bounds'' (table_image bs d) (ft_BloomFilterOffset (table_footer bs d))
      (ft_BloomFilterSize (table_footer bs d)) = Inr d"
    by (simp add: table_footer_fields table_ok_def)
  moreover have "FooterSize \<le> length (table_image bs d)"
    by (simp add: table_image_def)
  ultimately show ?thesis
    using bl io read_footer_image [of bs d] read_index_image [OF ok]
    by (simp add: open_reader_def read_bloom_def opened_def can_open_def)
qed

lemma unpack_block_image: "unpack_block (block_image b) = Inr (data_bytes b)"
  by (simp add: unpack_block_def length_block_image Let_def) (simp add: block_image_def nth_append)

lemma read_block_image:
  assumes ok: "table_ok bs d" and bs: "bs = pre @ b # post"
  shows "read_block (opened bs d bl) \<lparr>bh_Offset = word_of_nat (length (blocks_image pre)),
    bh_Size = word_of_nat (length (block_image b))\<rparr> = Inr (data_bytes b)"
proof -
  have "map_slice ''block out of bounds'' (table_image bs d) (word_of_nat (length (blocks_image pre)))
      (word_of_nat (length (block_image b))) = Inr (block_image b)"
    using ok by (intro map_slice_mid [where zs = "blocks_image post @ index_image bs @ d
        @ encode_footer (table_footer bs d)"]) (auto simp: table_image_def bs table_ok_def)
  then show ?thesis
    by (simp add: read_block_def opened_def unpack_block_image)
qed

lemma index_from_handles:
  "bs = pre @ b # post \<Longrightarrow> index_from 0 bs ! length pre = \<lparr>ie_Key = fst (last b),
     ie_Handle = \<lparr>bh_Offset = word_of_nat (length (blocks_image pre)),
       bh_Size = word_of_nat (length (block_image b))\<rparr>\<rparr>"
  by (simp add: index_from_append nth_append)

lemma index_from_keys: "map ie_Key (index_from off bs) = map (\<lambda>b. fst (last b)) bs"
  by (induction bs arbitrary: off) simp_all

lemma last_in_block:
  fixes b :: "kv list"
  shows "b \<noteq> [] \<Longrightarrow> sorted_wrt (<) (map fst b) \<Longrightarrow> kv \<in> set b \<Longrightarrow> fst kv \<le> fst (last b)"
  by (induction b) (auto intro: less_imp_le split: if_splits dest: last_in_set)

lemma blocks_sorted:
  fixes bs :: "kv list list"
  shows "[] \<notin> set bs \<Longrightarrow> sorted_wrt (<) (map fst (concat bs)) \<Longrightarrow> sorted_wrt (<) (map (\<lambda>b. fst (last b)) bs)"
proof (induction bs)
  case Nil
  then show ?case by simp
next
  case (Cons b bs)
  have "fst (last b) < fst (last c)" if "c \<in> set bs" for c
  proof -
    from that Cons.prems(1) have "b \<noteq> []" "c \<noteq> []" by auto
    then have "last b \<in> set b" "last c \<in> set c" by simp_all
    with that have "last b \<in> set b" "last c \<in> set (concat bs)" by auto
    with Cons.prems(2) show ?thesis by (auto simp: sorted_wrt_append)
  qed
  with Cons show ?case by (auto simp: sorted_wrt_append)
qed

text \<open>The key of a table is in the first block whose last key is not below it.\<close>

lemma map_of_blocks:
  fixes bs :: "kv list list"
  assumes "[] \<notin> set bs" and "sorted_wrt (<) (map fst (concat bs))"
  shows "map_of (concat bs) key =
    (case dropWhile (\<lambda>b. fst (last b) < key) bs of [] \<Rightarrow> None | b # _ \<Rightarrow> map_of b key)"
  using assms
proof (induction bs)
  case Nil
  then show ?case by simp
next
  case (Cons b bs)
  have b: "b \<noteq> []" "sorted_wrt (<) (map fst b)" using Cons.prems by (auto simp: sorted_wrt_append)
  show ?case
  proof (cases "fst (last b) < key")
    case True
    have "map_of b key = None"
    proof (rule ccontr)
      assume "map_of b key \<noteq> None"
      then obtain v where "(key, v) \<in> set b" by (auto dest: map_of_SomeD)
      from last_in_block [OF b this] True show False by simp
    qed
    with True Cons show ?thesis by (auto simp: map_add_def sorted_wrt_append split: option.splits)
  next
    case False
    have "map_of (concat bs) key = None"
    proof (rule ccontr)
      assume "map_of (concat bs) key \<noteq> None"
      then have "key \<in> fst ` set (concat bs)" by (simp add: map_of_eq_None_iff)
      moreover have "last b \<in> set b" using b by simp
      ultimately have "fst (last b) < key" using Cons.prems(2) by (auto simp: sorted_wrt_append)
      with False show False by simp
    qed
    with False show ?thesis by (auto simp: map_add_def split: option.splits)
  qed
qed

lemma sst_get_opened:
  assumes ok: "table_ok bs d" and bl: "\<forall>kv\<in>set (concat bs). bl_test B (fst kv) bl"
  shows "sst_get B (opened bs d bl) key =
    (case map_of (concat bs) key of
       Some v \<Rightarrow> if v = [] then Inl (Err ''key deleted'') else Inr v
     | None \<Rightarrow> sst_get B (opened bs d bl) key)
   \<and> (map_of (concat bs) key = None \<longrightarrow> \<not> succeeds (sst_get B (opened bs d bl) key))"
proof -
  let ?r = "opened bs d bl" and ?idx = "index_from 0 bs"
  from ok have ne: "[] \<notin> set bs" and sorted: "sorted_wrt (<) (map fst (concat bs))"
    and kvs: "list_all kv_ok (concat bs)" by (auto simp: table_ok_def)
  have "sorted_wrt (<) (map ie_Key ?idx)"
    unfolding index_from_keys by (rule blocks_sorted [OF ne sorted])
  then have "sorted_wrt (\<lambda>a b. ie_Key a \<le> ie_Key b) ?idx"
    by (simp add: sorted_wrt_map) (auto elim: sorted_wrt_mono_rel [rotated])
  note find = find_block_split [OF this, of key]
  define pre where "pre = takeWhile (\<lambda>b. fst (last b) < key) bs"
  define suf where "suf = dropWhile (\<lambda>b. fst (last b) < key) bs"
  have bs: "bs = pre @ suf" by (simp add: pre_def suf_def)
  have dw: "dropWhile (\<lambda>e. ie_Key e < key) ?idx = index_from (length (blocks_image pre)) suf"
  proof -
    have "\<forall>e\<in>set (index_from 0 pre). ie_Key e < key"
    proof
      fix e assume "e \<in> set (index_from 0 pre)"
      then have "ie_Key e \<in> (\<lambda>b. fst (last b)) ` set pre"
        using index_from_keys [of 0 pre] by (metis image_eqI list.set_map)
      then show "ie_Key e < key" by (auto simp: pre_def dest: set_takeWhileD)
    qed
    moreover have "suf = [] \<or> \<not> fst (last (hd suf)) < key"
      unfolding suf_def by (metis hd_dropWhile)
    ultimately show ?thesis
      unfolding bs by (cases suf) (simp_all add: index_from_append)
  qed
  show ?thesis
  proof (cases suf)
    case Nil
    have "find_block ?idx key = None" unfolding find dw Nil by simp
    moreover have "map_of (concat bs) key = None"
      unfolding map_of_blocks [OF ne sorted] suf_def [symmetric] Nil by simp
    ultimately show ?thesis by (simp add: sst_get_def opened_def)
  next
    case (Cons b post)
    have fb: "find_block ?idx key = Some \<lparr>bh_Offset = word_of_nat (length (blocks_image pre)),
        bh_Size = word_of_nat (length (block_image b))\<rparr>"
      unfolding find dw Cons by simp
    have split: "bs = pre @ b # post" using bs Cons by simp
    have mo: "map_of (concat bs) key = map_of b key"
      unfolding map_of_blocks [OF ne sorted] suf_def [symmetric] Cons by simp
    have b: "list_all kv_ok b" "sorted_wrt (<) (map fst b)"
      using kvs sorted by (auto simp: split sorted_wrt_append)
    have get: "sst_get B ?r key = (if bl_test B key bl then lookup_result (map_of b key)
        else Inl (Err ''key not found (bloom filter)''))"
      using fb read_block_image [OF ok split, where bl = bl] search_block_sorted [OF b]
      by (simp add: sst_get_def opened_def)
    have "bl_test B key bl" if "map_of (concat bs) key = Some v" for v
      using that bl by (force dest: map_of_SomeD)
    with get mo show ?thesis
      by (auto simp: lookup_result_def split: option.splits)
  qed
qed

lemma scan_blocks_image:
  assumes ok: "table_ok bs d" and bs: "bs = pre @ suf"
  shows "scan_blocks fn (opened bs d bl) (index_from (length (blocks_image pre)) suf) s =
    fold (\<lambda>(k, v) r. bindS r (\<lambda>_ s. if v = [] then (Inr (), s) else fn k v s)) (concat suf) (Inr (), s)"
  using bs
proof (induction suf arbitrary: pre s)
  case Nil
  then show ?case by simp
next
  case (Cons b suf)
  have kvs: "list_all kv_ok b" using ok Cons.prems by (simp add: table_ok_def)
  let ?f = "\<lambda>(k, v) r. bindS r (\<lambda>_ s. if v = [] then (Inr (), s) else fn k v s)"
  have stuck: "fold ?f xs (Inl e, s') = (Inl e, s')" for xs e s' by (induction xs) auto
  have "scan_block fn (data_bytes b) s = bindS (fold ?f b (Inr (), s)) (\<lambda>_ s. (Inr (), s))"
    using scan_block_kvs [OF kvs, of fn "[]" s] by (simp add: scan_block.simps [of _ "[]"])
  moreover have "length (blocks_image pre) + length (block_image b) = length (blocks_image (pre @ [b]))"
    by simp
  ultimately have scan: "scan_blocks fn (opened bs d bl) (index_from (length (blocks_image pre)) (b # suf)) s
      = bindS (fold ?f b (Inr (), s)) (\<lambda>_ s. fold ?f (concat suf) (Inr (), s))"
    using read_block_image [OF ok Cons.prems, where bl = bl] Cons.IH [of "pre @ [b]"] Cons.prems
    by (cases "fold ?f b (Inr (), s)"; cases "fst (fold ?f b (Inr (), s))")
      (simp_all del: blocks_image_simps)
  show ?case
    unfolding scan using stuck
    by (cases "fold ?f b (Inr (), s)"; cases "fst (fold ?f b (Inr (), s))") simp_all
qed

lemma blocks_le: "[] \<notin> set bs \<Longrightarrow> length bs \<le> length (concat bs)"
proof (induction bs)
  case (Cons b bs)
  then have "0 < length b" by auto
  with Cons show ?case by (simp add: Suc_le_eq add_less_le_mono flip: length_greater_0_conv)
qed simp

lemma written_table:
  assumes B: "bloom_ok B" and add: "add_all B kvs (new_writer B room n) = (Inr u, w1)"
    and close: "sst_close B io w1 = (Inr u', w2)"
    and kvs: "list_all kv_ok kvs" "sorted_wrt (<) (map fst kvs)" "\<forall>kv\<in>set kvs. length (fst kv) + 20 < 2 ^ 32"
      "length kvs < 2 ^ 32"
    and len: "length (sw_file w2) < 2 ^ 64"
  shows "\<exists>bs d. table_ok bs d \<and> concat bs = kvs \<and> sw_file w2 = table_image bs d
    \<and> bl_encode B (sw_bloom w1) = Inr d \<and> (\<forall>kv\<in>set kvs. bl_test B (fst kv) (sw_bloom w1))"
proof -
  from add_all_inv [OF add sw_inv_new B kvs(1)] obtain bs cur where
    inv: "sw_inv B bs cur w1" and cat: "concat bs @ cur = kvs" by auto
  from sst_close_image [OF close inv] kvs obtain bs' d where
    bs': "[] \<notin> set bs'" "concat bs' = kvs" "bl_encode B (sw_bloom w1) = Inr d" "sw_file w2 = table_image bs' d"
    by (auto simp: cat)
  have "length bs' < 2 ^ 32" using blocks_le [OF bs'(1)] bs'(2) kvs(4) by simp
  with bs' kvs len inv cat show ?thesis
    by (intro exI [of _ bs'] exI [of _ d]) (auto simp: table_ok_def sw_inv_def)
qed

text \<open>
  C10: A table file gives back what was written.  When every \<open>Add\<close> and the \<open>Close\<close> of a
  writer reported success, the file opens, \<open>Get\<close> returns each key's value, reports a key
  written with an empty value as deleted and fails on every other key, and \<open>Scan\<close> visits
  the entries with a non-empty value in order.  The bounds are those of the format's 32- and
  64-bit fields.
\<close>

theorem sst_write_read:
  assumes B: "bloom_ok B" and add: "add_all B kvs (new_writer B room n) = (Inr (), w1)"
    and close: "sst_close B io w1 = (Inr (), w2)"
    and kvs: "list_all kv_ok kvs" "sorted_wrt (<) (map fst kvs)" "\<forall>kv\<in>set kvs. length (fst kv) + 20 < 2 ^ 32"
      "length kvs < 2 ^ 32"
    and len: "length (sw_file w2) < 2 ^ 64" and io: "can_open io'"
  shows "\<exists>r. open_reader B io' (Some (sw_file w2)) = Inr r
    \<and> (\<forall>key. case map_of kvs key of
         Some v \<Rightarrow> sst_get B r key = (if v = [] then Inl (Err ''key deleted'') else Inr v)
       | None \<Rightarrow> \<not> succeeds (sst_get B r key))
    \<and> (\<forall>fn s. sst_scan fn r s = fold (\<lambda>(k, v) st. bindS st (\<lambda>_ s. if v = [] then (Inr (), s) else fn k v s))
         kvs (Inr (), s :: 's))"
proof -
  from written_table [OF B add close kvs len] obtain bs d where
    ok: "table_ok bs d" and bs: "concat bs = kvs" and img: "sw_file w2 = table_image bs d"
    and d: "bl_encode B (sw_bloom w1) = Inr d" and test: "\<forall>kv\<in>set kvs. bl_test B (fst kv) (sw_bloom w1)"
    by blast
  from open_reader_image [OF ok B d io] obtain bl where
    r: "open_reader B io' (Some (table_image bs d)) = Inr (opened bs d bl)"
    and bl: "\<forall>k. bl_test B k bl = bl_test B k (sw_bloom w1)" by blast
  from bl test bs have "\<forall>kv\<in>set (concat bs). bl_test B (fst kv) bl" by simp
  note G = sst_get_opened [OF ok this, unfolded bs]
  have scan: "sst_scan fn (opened bs d bl) s = fold (\<lambda>(k, v) st. bindS st (\<lambda>_ s. if v = [] then (Inr (), s) else fn k v s))
      kvs (Inr (), s)" for fn and s :: 's
    using scan_blocks_image [OF ok, of "[]" bs fn bl s] by (simp add: sst_scan_def opened_def bs)
  show ?thesis
  proof (intro exI [of _ "opened bs d bl"] conjI allI)
    show "open_reader B io' (Some (sw_file w2)) = Inr (opened bs d bl)" using r img by simp
    show "case map_of kvs key of
         Some v \<Rightarrow> sst_get B (opened bs d bl) key = (if v = [] then Inl (Err ''key deleted'') else Inr v)
       | None \<Rightarrow> \<not> succeeds (sst_get B (opened bs d bl) key)" for key
      using G [of key] by (simp split: option.splits)
  qed (rule scan)
qed

lemma add_all_healthy:
  "sw_healthy w \<Longrightarrow> \<not> sw_closed w \<Longrightarrow> list_all kv_ok kvs \<Longrightarrow> sorted_wrt (<) (map fst kvs) \<Longrightarrow>
   \<forall>k\<in>fst ` set kvs. sw_lastKey w = [] \<or> sw_lastKey w < k \<Longrightarrow>
   \<exists>w'. add_all B kvs w = (Inr (), w') \<and> sw_healthy w' \<and> \<not> sw_closed w'"
proof (induction kvs arbitrary: w)
  case Nil
  then show ?case by simp
next
  case (Cons kv kvs)
  obtain k v where kv: "kv = (k, v)" by force
  have ok: "kv_ok (k, v)" using Cons.prems kv by auto
  have "\<not> (sw_lastKey w \<noteq> [] \<and> k \<le> sw_lastKey w)" using Cons.prems(5) by (auto simp: kv)
  with sst_add_healthy [OF Cons.prems(1,2) ok, of B] obtain w' where
    w': "sst_add B k v w = (Inr (), w')" "sw_healthy w'" "\<not> sw_closed w'" "sw_lastKey w' = k" by auto
  from Cons.IH [OF w'(2,3)] Cons.prems w' show ?case by (simp add: kv)
qed

lemma sst_close_healthy:
  assumes h: "sw_healthy w" and inv: "sw_inv B bs cur w"
    and ok: "list_all kv_ok (concat bs @ cur)" "\<forall>kv\<in>set (concat bs @ cur). length (fst kv) + 20 < 2 ^ 32"
    and enc: "\<And>b. \<exists>d. bl_encode B b = Inr d" and io: "io_sync_ok io" "io_close_ok io"
  shows "\<exists>w'. sst_close B io w = (Inr (), w')"
proof -
  from flush_block_healthy [OF h] obtain w1 where w1: "flush_block w = (Inr (), w1)" "sw_healthy w1" by blast
  define bs' where "bs' = (if cur = [] then bs else bs @ [cur])"
  have inv1: "sw_inv B bs' [] w1" using flush_block_inv [OF w1(1) inv] by (simp add: bs'_def)
  have "list_all index_key_ok (index_from 0 bs')"
    by (rule index_keys_ok) (use inv1 ok in \<open>auto simp: sw_inv_def bs'_def\<close>)
  with inv1 have "list_all index_key_ok (sw_index w1)" by (simp add: sw_inv_def)
  then obtain idx where idx: "encode_index_block w1 = Inr idx"
    by (simp add: encode_index_block_def encode_entries_ok)
  from sw_put_healthy [OF w1(2)] obtain w2 where
    w2: "sw_put ''failed to write index block'' idx w1 = (Inr (), w2)" "sw_healthy w2" by blast
  obtain d where d: "bl_encode B (sw_bloom w2) = Inr d" using enc by blast
  from w2(2) have "sw_healthy (w2\<lparr>sw_offset := sw_offset w2 + word_of_nat (length idx)\<rparr>)" by simp
  from sw_put_healthy [OF this] obtain w3 where
    w3: "sw_put ''failed to write bloom filter'' d (w2\<lparr>sw_offset := sw_offset w2 + word_of_nat (length idx)\<rparr>)
      = (Inr (), w3)" "sw_healthy w3" by blast
  from w3(2) have "sw_healthy (w3\<lparr>sw_offset := sw_offset w3 + word_of_nat (length d)\<rparr>)" by simp
  from sw_put_healthy [OF this] obtain w4 where
    w4: "sw_put ''failed to write footer'' (encode_footer (make_footer (sw_offset w1) (word_of_nat (length idx))
        (sw_offset w2 + word_of_nat (length idx)) (word_of_nat (length d))))
        (w3\<lparr>sw_offset := sw_offset w3 + word_of_nat (length d)\<rparr>) = (Inr (), w4)" "sw_healthy w4" by blast
  have "\<exists>w'. sw_finish io w4 = (Inr (), w')"
    using w4(2) io by (simp add: sw_finish_def sw_healthy_def bufio_flush_def file_write_def)
  with w1 idx w2 d w3 w4 inv show ?thesis
    by (simp add: sst_close_def sw_inv_def Let_def)
qed

lemma new_writer_healthy: "sw_healthy (new_writer B None n)" "\<not> sw_closed (new_writer B None n)"
  "sw_lastKey (new_writer B None n) = []"
  by (simp_all add: sw_healthy_def new_writer_def new_bufio_def)

lemma sw_put_count [simp]: "sw_put msg p w = (r, w') \<Longrightarrow> sw_count w' = sw_count w"
  by (auto simp: sw_put_def split: prod.splits)

lemma flush_block_count: "flush_block w = (r, w') \<Longrightarrow> sw_count w' = sw_count w"
  by (auto simp: flush_block_def bindS_def Let_def dest: sw_put_count split: if_splits sum.splits prod.splits)

lemma add_all_count: "add_all B kvs w = (Inr u, w') \<Longrightarrow> sw_count w' = sw_count w + word_of_nat (length kvs)"
proof (induction kvs arbitrary: w)
  case (Cons kv kvs)
  obtain k v where kv: "kv = (k, v)" by force
  from Cons.prems kv obtain w1 where w1: "sst_add B k v w = (Inr (), w1)" "add_all B kvs w1 = (Inr u, w')"
    by (auto simp: bindE_iff)
  from w1(1) have "sw_count w1 = sw_count w + 1"
    by (auto simp: sst_add_def Let_def bindE_iff dest!: flush_block_count split: if_splits)
  with Cons.IH [OF w1(2)] show ?case by simp
qed simp

lemma sst_close_count: "sst_close B io w = (Inr u, w') \<Longrightarrow> sw_count w' = sw_count w"
  by (auto simp: sst_close_def sw_finish_def Let_def bindE_iff dest!: flush_block_count sw_put_count
      split: if_splits prod.splits)

text \<open>Without faults, strictly ascending entries of fitting size become a table.\<close>

lemma healthy_table:
  assumes B: "bloom_ok B" and enc: "\<And>b. \<exists>d. bl_encode B b = Inr d" and io: "io_sync_ok io" "io_close_ok io"
    and kvs: "list_all kv_ok kvs" "sorted_wrt (<) (map fst kvs)" "\<forall>kv\<in>set kvs. length (fst kv) + 20 < 2 ^ 32"
      "length kvs < 2 ^ 32"
  obtains w1 w2 where "add_all B kvs (new_writer B None n) = (Inr (), w1)" "sst_close B io w1 = (Inr (), w2)"
    "sw_closed w2" "entries_count w2 = word_of_nat (length kvs)"
    "length (sw_file w2) < 2 ^ 64 \<longrightarrow> (\<exists>bs d. table_ok bs d \<and> concat bs = kvs \<and> sw_file w2 = table_image bs d
       \<and> bl_encode B (sw_bloom w1) = Inr d \<and> (\<forall>kv\<in>set kvs. bl_test B (fst kv) (sw_bloom w1)))"
proof -
  have "\<forall>k\<in>fst ` set kvs. sw_lastKey (new_writer B None n) = [] \<or> sw_lastKey (new_writer B None n) < k"
    by (simp add: new_writer_healthy)
  from add_all_healthy [OF new_writer_healthy(1,2) kvs(1,2) this] obtain w1 where
    w1: "add_all B kvs (new_writer B None n) = (Inr (), w1)" "sw_healthy w1" by blast
  from add_all_inv [OF w1(1) sw_inv_new B kvs(1)] obtain bs cur where
    inv: "sw_inv B bs cur w1" and cat: "concat bs @ cur = kvs" by auto
  from sst_close_healthy [OF w1(2) inv _ _ enc io] kvs obtain w2 where
    w2: "sst_close B io w1 = (Inr (), w2)" by (auto simp: cat)
  have closed: "sw_closed w2" using sst_close_image [OF w2 inv] kvs by (auto simp: cat)
  have "entries_count w2 = word_of_nat (length kvs)"
    using add_all_count [OF w1(1)] sst_close_count [OF w2] by (simp add: entries_count_def new_writer_def)
  with that [OF w1(1) w2 closed] written_table [OF B w1(1) w2 kvs] show thesis by blast
qed

text \<open>A small table, written without faults.\<close>

lemma demo_table:
  "\<exists>w1 w2. add_all tiny_bloom [([1], [2]), ([3], [])] (new_writer tiny_bloom None 10) = (Inr (), w1)
     \<and> sst_close tiny_bloom io_fine w1 = (Inr (), w2) \<and> length (sw_file w2) < 2 ^ 64"
proof -
  let ?kvs = "[([1], [2]), ([3], [])] :: kv list" and ?w = "new_writer tiny_bloom None 10"
  have kvs: "list_all kv_ok ?kvs" "sorted_wrt (<) (map fst ?kvs)"
    "\<forall>kv\<in>set ?kvs. length (fst kv) + 20 < 2 ^ 32"
    by (simp_all add: kv_ok_def)
  have "\<forall>k\<in>fst ` set ?kvs. sw_lastKey ?w = [] \<or> sw_lastKey ?w < k" by (simp add: new_writer_healthy)
  from add_all_healthy [OF new_writer_healthy(1,2) kvs(1,2) this] obtain w1 where
    w1: "add_all tiny_bloom ?kvs ?w = (Inr (), w1)" "sw_healthy w1" by blast
  from add_all_inv [OF w1(1) sw_inv_new tiny_bloom_ok kvs(1)] obtain bs cur where
    inv: "sw_inv tiny_bloom bs cur w1" and cat: "concat bs @ cur = ?kvs" by auto
  have enc: "\<exists>d. bl_encode tiny_bloom b = Inr d" for b by (simp add: tiny_bloom_def)
  from sst_close_healthy [OF w1(2) inv _ _ enc, of io_fine] kvs obtain w2 where
    w2: "sst_close tiny_bloom io_fine w1 = (Inr (), w2)" by (auto simp: cat io_fine_def)
  from sst_close_image [OF w2 inv] kvs obtain bs' d where bs': "[] \<notin> set bs'" "concat bs' = ?kvs"
    "bl_encode tiny_bloom (sw_bloom w1) = Inr d" "sw_file w2 = table_image bs' d" by (auto simp: cat)
  have "length d = 1" using bs'(3) by (auto simp: tiny_bloom_def)
  moreover have "length (blocks_image bs') = length (data_bytes (concat bs')) + 5 * length bs'"
    by (induction bs') (simp_all add: length_block_image)
  moreover have "length (concat (map index_bytes (index_from 0 bs'))) = sum_list (map (\<lambda>b. 20 + length (fst (last b))) bs')"
  proof -
    have "length (concat (map index_bytes (index_from off bs'))) = sum_list (map (\<lambda>b. 20 + length (fst (last b))) bs')" for off
      by (induction bs' arbitrary: off) simp_all
    then show ?thesis .
  qed
  moreover have "sum_list (map (\<lambda>b. 20 + length (fst (last b))) bs') = 21 * length bs'"
  proof -
    have "\<forall>b\<in>set bs'. length (fst (last b)) = 1"
    proof
      fix b assume "b \<in> set bs'"
      with bs'(1) have "b \<noteq> []" by auto
      then have "last b \<in> set b" by simp
      with \<open>b \<in> set bs'\<close> have "last b \<in> set (concat bs')" by auto
      then show "length (fst (last b)) = 1" by (auto simp: bs'(2))
    qed
    then show ?thesis by (induction bs') simp_all
  qed
  moreover have "length bs' \<le> 2" using blocks_le [OF bs'(1)] by (simp add: bs'(2))
  ultimately have "length (sw_file w2) < 2 ^ 64"
    by (simp add: bs'(2,4) table_image_def index_image_def FooterSize_def)
  with w1 w2 show ?thesis by blast
qed

theorem sst_write_read_witness:
  "\<exists>f r. open_reader tiny_bloom io_fine (Some f) = Inr r
     \<and> sst_get tiny_bloom r [1] = Inr [2] \<and> sst_get tiny_bloom r [3] = Inl (Err ''key deleted'')
     \<and> \<not> succeeds (sst_get tiny_bloom r [2])"
proof -
  obtain w1 w2 where w: "add_all tiny_bloom [([1], [2]), ([3], [])] (new_writer tiny_bloom None 10) = (Inr (), w1)"
    "sst_close tiny_bloom io_fine w1 = (Inr (), w2)" "length (sw_file w2) < 2 ^ 64"
    using demo_table by (elim exE conjE) (rule that)
  have kvs: "list_all kv_ok [([1], [2]), ([3], [])]" "sorted_wrt (<) (map fst [([1], [2]), ([3], [])] :: bytes list)"
    "\<forall>kv\<in>set [([1], [2]), ([3], [])] :: kv set. length (fst kv) + 20 < 2 ^ 32"
    "length ([([1], [2]), ([3], [])] :: kv list) < 2 ^ 32"
    by (simp_all add: kv_ok_def)
  have "can_open io_fine" by (simp add: can_open_def io_fine_def)
  from sst_write_read [OF tiny_bloom_ok w(1,2) kvs w(3) this] obtain r where
    r: "open_reader tiny_bloom io_fine (Some (sw_file w2)) = Inr r"
    and g: "\<And>key. case map_of [([1], [2]), ([3], [])] key of
         Some v \<Rightarrow> sst_get tiny_bloom r key = (if v = [] then Inl (Err ''key deleted'') else Inr v)
       | None \<Rightarrow> \<not> succeeds (sst_get tiny_bloom r key)" by blast
  from r g [of "[1]"] g [of "[3]"] g [of "[2]"] show ?thesis by auto
qed

section \<open>Corruption\<close>

lemma block_image_corrupt:
  assumes i: "i < length (block_image b)" and x: "x \<noteq> block_image b ! i"
  shows "\<not> succeeds (unpack_block ((block_image b)[i := x]))"
proof -
  let ?n = "length (data_bytes b)" and ?c = "le_enc 4 (crc32 (data_bytes b))"
  define bd where bd: "bd = (block_image b)[i := x]"
  have len: "\<not> length bd < 5" "length bd - 1 - 4 = ?n" by (simp_all add: bd length_block_image)
  consider (data) "i < ?n" | (type) "i = ?n" | (crc) m where "i = ?n + 1 + m" "m < 4"
  proof -
    have "i < ?n \<or> i = ?n \<or> (\<exists>m. i = ?n + 1 + m \<and> m < 4)"
      using i length_block_image [of b] by presburger
    then show thesis using that by blast
  qed
  then show ?thesis
  proof cases
    case data
    then have bd': "bd = (data_bytes b)[i := x] @ [CompressionNone] @ ?c"
      by (simp add: bd block_image_def list_update_append)
    have "x \<noteq> data_bytes b ! i" using x data by (simp add: block_image_def nth_append)
    from crc32_update_neq [OF data this] show ?thesis
      unfolding bd [symmetric] unpack_block_def Let_def len by (simp add: len(1)) (simp add: bd')
  next
    case type
    then have bd': "bd = data_bytes b @ [x] @ ?c" and "x \<noteq> CompressionNone"
      using x by (simp_all add: bd block_image_def list_update_append nth_append)
    then show ?thesis
      unfolding bd [symmetric] unpack_block_def Let_def len by (simp add: bd' nth_append)
  next
    case crc
    then have bd': "bd = data_bytes b @ [CompressionNone] @ ?c[m := x]"
      by (simp add: bd block_image_def list_update_append)
    have "x \<noteq> ?c ! m" using x crc by (simp add: block_image_def nth_append)
    then have neq: "?c[m := x] \<noteq> ?c" using crc by (simp add: list_update_same_conv)
    have "le_enc 4 (le_dec (?c[m := x]) :: u32) = ?c[m := x]"
      using le_enc_dec [of "?c[m := x]", where 'a = 32] by simp
    with neq have "le_dec (?c[m := x]) \<noteq> crc32 (data_bytes b)" by metis
    then show ?thesis
      unfolding bd [symmetric] unpack_block_def Let_def len by (simp add: len(1)) (simp add: bd')
  qed
qed

text \<open>
  C30: Corruption.  One changed byte anywhere in a data block of a table (its entries, its
  compression type or its checksum) makes every read of that block fail.
\<close>

theorem block_corruption_detected:
  assumes ok: "table_ok (pre @ b # post) d" and i: "i < length (block_image b)" and x: "x \<noteq> block_image b ! i"
    and r: "r = (opened (pre @ b # post) d bl)\<lparr>sr_mmap :=
      (table_image (pre @ b # post) d)[length (blocks_image pre) + i := x]\<rparr>"
  shows "\<not> succeeds (read_block r (ie_Handle (index_from 0 (pre @ b # post) ! length pre)))"
proof -
  let ?bs = "pre @ b # post"
  let ?rest = "blocks_image post @ index_image ?bs @ d @ encode_footer (table_footer ?bs d)"
  define bd where "bd = (block_image b)[i := x]"
  have m: "sr_mmap r = blocks_image pre @ bd @ ?rest"
    using i by (simp add: r bd_def table_image_def list_update_append)
  have "length (sr_mmap r) < 2 ^ 64" using ok by (simp add: r table_ok_def)
  from map_slice_mid [OF m this] have slice: "map_slice ''block out of bounds'' (sr_mmap r)
      (word_of_nat (length (blocks_image pre))) (word_of_nat (length (block_image b))) = Inr bd"
    by (simp add: bd_def)
  from block_image_corrupt [OF i x] slice show ?thesis
    by (simp add: read_block_def index_from_handles [OF refl] bd_def)
qed

theorem block_corruption_detected_witness:
  "\<not> succeeds (read_block ((opened [[([1], [2])]] [0] (0 :: byte))\<lparr>sr_mmap :=
      (table_image [[([1], [2])]] [0])[9 := 7]\<rparr>) (ie_Handle (index_from 0 [[([1], [2])]] ! 0)))"
proof -
  let ?b = "[([1], [2])] :: kv list"
  have ok: "table_ok ([] @ ?b # []) [0]"
    by (simp add: table_ok_def kv_ok_def table_image_def length_block_image index_image_def FooterSize_def)
  have len: "9 < length (block_image ?b)" by (simp add: length_block_image)
  have "(7 :: byte) \<noteq> block_image ?b ! 9"
    by (simp add: block_image_def kv_bytes_def len32_def nth_append)
  from block_corruption_detected [OF ok len this refl, where bl = "0 :: byte"] show ?thesis by simp
qed

end
