(* ===== verification/Go_Heap.thy ===== *)
theory Go_Heap
  imports Main "HOL-Library.Multiset"
begin

text \<open>
  \<open>container/heap\<close> of the Go standard library, as \<open>pkg/compaction/merger.go\<close> uses it: the
  binary heap in an array, with \<open>up\<close> and \<open>down\<close> written as the library has them.  The
  order is given by the keys of the elements: \<open>Less(i, j)\<close> is \<open>key h[i] < key h[j]\<close>.
\<close>

section \<open>Operations\<close>

definition heap_swap :: "nat \<Rightarrow> nat \<Rightarrow> 'e list \<Rightarrow> 'e list" where
  "heap_swap i j h = h[i := h ! j, j := h ! i]"

function heap_up :: "('e \<Rightarrow> 'k::linorder) \<Rightarrow> nat \<Rightarrow> 'e list \<Rightarrow> 'e list" where
  "heap_up key j h =
     (let i = (j - 1) div 2
      in if i = j \<or> \<not> key (h ! j) < key (h ! i) then h else heap_up key i (heap_swap i j h))"
  by pat_completeness auto
termination
proof (relation "measure (\<lambda>(_, j, _). j)", goal_cases)
  case (2 key j h i)
  then have "j \<noteq> 0" by auto
  then have "(j - 1) div 2 < j" by linarith
  with 2 show ?case by simp
qed simp

declare heap_up.simps [simp del]

function heap_down :: "('e \<Rightarrow> 'k::linorder) \<Rightarrow> nat \<Rightarrow> nat \<Rightarrow> 'e list \<Rightarrow> 'e list" where
  "heap_down key i n h =
     (let j1 = 2 * i + 1
      in if j1 \<ge> n then h
         else
           let j2 = j1 + 1;
               j = (if j2 < n \<and> key (h ! j2) < key (h ! j1) then j2 else j1)
           in if \<not> key (h ! j) < key (h ! i) then h else heap_down key j n (heap_swap i j h))"
  by pat_completeness auto
termination
  by (relation "measure (\<lambda>(_, i, n, _). n - i)") (auto simp: Let_def split: if_splits)

declare heap_down.simps [simp del]

definition heap_push :: "('e \<Rightarrow> 'k::linorder) \<Rightarrow> 'e \<Rightarrow> 'e list \<Rightarrow> 'e list" where
  "heap_push key x h = (let h = h @ [x] in heap_up key (length h - 1) h)"

definition heap_pop :: "('e \<Rightarrow> 'k::linorder) \<Rightarrow> 'e list \<Rightarrow> 'e \<times> 'e list" where
  \<comment> \<open>of a non-empty heap\<close>
  "heap_pop key h =
     (let n = length h - 1;
          h = heap_down key 0 n (heap_swap 0 n h)
      in (h ! n, take n h))"

section \<open>Multisets\<close>

lemma length_heap_swap [simp]: "length (heap_swap i j h) = length h"
  by (simp add: heap_swap_def)

lemma mset_heap_swap [simp]: "i < length h \<Longrightarrow> j < length h \<Longrightarrow> mset (heap_swap i j h) = mset h"
  by (simp add: heap_swap_def mset_swap)

lemma nth_heap_swap:
  "i < length h \<Longrightarrow> j < length h \<Longrightarrow> k < length h \<Longrightarrow>
   heap_swap i j h ! k = (if k = j then h ! i else if k = i then h ! j else h ! k)"
  by (auto simp: heap_swap_def nth_list_update)

lemma heap_up_mset: "j < length h \<Longrightarrow> mset (heap_up key j h) = mset h"
proof (induction key j h rule: heap_up.induct)
  case (1 key j h)
  then show ?case
    by (subst heap_up.simps) (auto simp: Let_def)
qed

lemma heap_down_mset:
  "i < n \<Longrightarrow> n \<le> length h \<Longrightarrow> mset (heap_down key i n h) = mset h"
proof (induction key i n h rule: heap_down.induct)
  case (1 key i n h)
  then show ?case
    by (subst heap_down.simps) (auto simp: Let_def)
qed

lemma heap_down_length [simp]: "length (heap_down key i n h) = length h"
proof (induction key i n h rule: heap_down.induct)
  case (1 key i n h)
  then show ?case
    by (subst heap_down.simps) (auto simp: Let_def)
qed

lemma heap_down_beyond: "n \<le> k \<Longrightarrow> k < length h \<Longrightarrow> i < n \<Longrightarrow> heap_down key i n h ! k = h ! k"
proof (induction key i n h rule: heap_down.induct)
  case (1 key i n h)
  then show ?case
    by (subst heap_down.simps) (auto simp: Let_def nth_heap_swap)
qed

section \<open>The heap order\<close>

definition is_heap :: "('e \<Rightarrow> 'k::linorder) \<Rightarrow> 'e list \<Rightarrow> bool" where
  "is_heap key h \<longleftrightarrow> (\<forall>i. 0 < i \<and> i < length h \<longrightarrow> key (h ! ((i - 1) div 2)) \<le> key (h ! i))"

lemma is_heap_root:
  assumes "is_heap key h" and "i < length h"
  shows "key (h ! 0) \<le> key (h ! i)"
  using assms(2)
proof (induction i rule: less_induct)
  case (less i)
  show ?case
  proof (cases "i = 0")
    case False
    then have "(i - 1) div 2 < i" by linarith
    with less have "key (h ! 0) \<le> key (h ! ((i - 1) div 2))" by simp
    also have "\<dots> \<le> key (h ! i)" using assms(1) less.prems False by (simp add: is_heap_def)
    finally show ?thesis .
  qed simp
qed

text \<open>
  A heap but for the element at \<open>j\<close>, which may be smaller than its ancestors: its children
  are not below its parent.
\<close>

definition heap_but_up :: "('e \<Rightarrow> 'k::linorder) \<Rightarrow> nat \<Rightarrow> 'e list \<Rightarrow> bool" where
  "heap_but_up key j h \<longleftrightarrow>
     (\<forall>i. 0 < i \<and> i < length h \<and> i \<noteq> j \<longrightarrow> key (h ! ((i - 1) div 2)) \<le> key (h ! i))
     \<and> (\<forall>i. 0 < i \<and> i < length h \<and> (i - 1) div 2 = j \<and> 0 < j \<longrightarrow> key (h ! ((j - 1) div 2)) \<le> key (h ! i))"

lemma heap_up_is_heap:
  "j < length h \<Longrightarrow> heap_but_up key j h \<Longrightarrow> is_heap key (heap_up key j h)"
proof (induction key j h rule: heap_up.induct)
  case (1 key j h)
  let ?i = "(j - 1) div 2"
  show ?case
  proof (cases "?i = j \<or> \<not> key (h ! j) < key (h ! ?i)")
    case True
    then have "is_heap key h"
      using "1.prems" by (auto simp: is_heap_def heap_but_up_def not_less)
    with True show ?thesis by (subst heap_up.simps) (simp add: Let_def)
  next
    case False
    then have j: "0 < j" "?i < j" by (auto intro: Nat.gr0I)
    from False have lt: "key (h ! j) < key (h ! ?i)" by simp
    have "heap_but_up key ?i (heap_swap ?i j h)"
      unfolding heap_but_up_def length_heap_swap
    proof (intro conjI allI impI)
      fix k assume k: "0 < k \<and> k < length h \<and> k \<noteq> ?i"
      have kp: "(k - 1) div 2 < length h" "(k - 1) div 2 \<noteq> k" using k by linarith+
      consider "k = j" | "k \<noteq> j" "(k - 1) div 2 = j" | "k \<noteq> j" "(k - 1) div 2 = ?i"
        | "k \<noteq> j" "(k - 1) div 2 \<noteq> j" "(k - 1) div 2 \<noteq> ?i" by blast
      then show "key (heap_swap ?i j h ! ((k - 1) div 2)) \<le> key (heap_swap ?i j h ! k)"
      proof cases
        case 1
        with lt j "1.prems"(1) show ?thesis by (simp add: nth_heap_swap)
      next
        case 2
        with "1.prems" k j show ?thesis by (auto simp: nth_heap_swap heap_but_up_def)
      next
        case 3
        from "1.prems"(2) 3 k have "key (h ! ?i) \<le> key (h ! k)"
          unfolding heap_but_up_def by (metis)
        with lt 3 k j "1.prems"(1) kp show ?thesis by (simp add: nth_heap_swap)
      next
        case 4
        with "1.prems" k kp j show ?thesis by (auto simp: nth_heap_swap heap_but_up_def)
      qed
    next
      fix k assume k: "0 < k \<and> k < length h \<and> (k - 1) div 2 = ?i \<and> 0 < ?i"
      then have pi: "(?i - 1) div 2 < length h" "(?i - 1) div 2 \<noteq> ?i" "(?i - 1) div 2 \<noteq> j" "?i < length h"
        using j "1.prems"(1) by linarith+
      from "1.prems"(2) k j pi have up: "key (h ! ((?i - 1) div 2)) \<le> key (h ! ?i)"
        unfolding heap_but_up_def by (metis less_irrefl)
      show "key (heap_swap ?i j h ! ((?i - 1) div 2)) \<le> key (heap_swap ?i j h ! k)"
      proof (cases "k = j")
        case True
        with up pi "1.prems"(1) show ?thesis by (simp add: nth_heap_swap)
      next
        case False
        with "1.prems"(2) k have "key (h ! ?i) \<le> key (h ! k)" unfolding heap_but_up_def by metis
        moreover from k have "k \<noteq> ?i" by linarith
        ultimately show ?thesis using up pi False k "1.prems"(1) by (simp add: nth_heap_swap)
      qed
    qed
    with "1.IH" [OF refl False] "1.prems"(1) j
    have "is_heap key (heap_up key ?i (heap_swap ?i j h))" by simp
    with False show ?thesis by (subst heap_up.simps) (simp add: Let_def)
  qed
qed

text \<open>A heap of the first \<open>n\<close> elements but for \<open>i\<close>, which may be larger than its children.\<close>

definition heap_but_down :: "('e \<Rightarrow> 'k::linorder) \<Rightarrow> nat \<Rightarrow> nat \<Rightarrow> 'e list \<Rightarrow> bool" where
  "heap_but_down key i n h \<longleftrightarrow>
     (\<forall>k. 0 < k \<and> k < n \<and> (k - 1) div 2 \<noteq> i \<longrightarrow> key (h ! ((k - 1) div 2)) \<le> key (h ! k))
     \<and> (\<forall>k. 0 < k \<and> k < n \<and> (k - 1) div 2 = i \<and> 0 < i \<longrightarrow> key (h ! ((i - 1) div 2)) \<le> key (h ! k))"

lemma children: "0 < k \<Longrightarrow> (k - 1) div 2 = i \<longleftrightarrow> k = 2 * i + 1 \<or> k = 2 * i + (2 :: nat)"
  by linarith

lemma heap_down_step:
  assumes "i < j" "j < n" "n \<le> length h" and par: "(j - 1) div 2 = i"
    and lt: "key (h ! j) < key (h ! i)"
    and small: "\<And>k. 0 < k \<Longrightarrow> k < n \<Longrightarrow> (k - 1) div 2 = i \<Longrightarrow> key (h ! j) \<le> key (h ! k)"
    and but: "heap_but_down key i n h"
  shows "heap_but_down key j n (heap_swap i j h)"
  unfolding heap_but_down_def
proof (intro conjI allI impI)
  fix k assume k: "0 < k \<and> k < n \<and> (k - 1) div 2 \<noteq> j"
  have kp: "(k - 1) div 2 < k" using k by linarith
  have len: "k < length h" "(k - 1) div 2 < length h" "i < length h" "j < length h"
    using k kp assms(1-3) by linarith+
  show "key (heap_swap i j h ! ((k - 1) div 2)) \<le> key (heap_swap i j h ! k)"
  proof (cases "(k - 1) div 2 = i")
    case True
    then have "k \<noteq> i" using kp by linarith
    then show ?thesis
      using True small [of k] k less_imp_le [OF lt] assms(1,2) len by (simp add: nth_heap_swap del: One_nat_def)
  next
    case False
    with but k have le: "key (h ! ((k - 1) div 2)) \<le> key (h ! k)" by (simp add: heap_but_down_def)
    show ?thesis
    proof (cases "k = i")
      case True
      from but have "\<forall>k. 0 < k \<and> k < n \<and> (k - 1) div 2 = i \<and> 0 < i \<longrightarrow> key (h ! ((i - 1) div 2)) \<le> key (h ! k)"
        unfolding heap_but_down_def by (rule conjunct2)
      from spec [OF this, of j] True par k assms(1,2) have "key (h ! ((k - 1) div 2)) \<le> key (h ! j)" by simp
      with True False k len assms(1) show ?thesis by (simp add: nth_heap_swap del: One_nat_def)
    next
      case other: False
      have "k \<noteq> j" using False par by blast
      with other False le k len show ?thesis by (simp add: nth_heap_swap del: One_nat_def)
    qed
  qed
next
  fix k assume k: "0 < k \<and> k < n \<and> (k - 1) div 2 = j \<and> 0 < j"
  have len: "k < length h" "i < length h" "j < length h" using k assms(1-3) by linarith+
  have ne: "k \<noteq> i" "k \<noteq> j" using k assms(1) by linarith+
  from k assms(1) have "(k - 1) div 2 \<noteq> i" by linarith
  with but k have "key (h ! j) \<le> key (h ! k)" unfolding heap_but_down_def by metis
  with ne len par show "key (heap_swap i j h ! ((j - 1) div 2)) \<le> key (heap_swap i j h ! k)"
    by (simp add: nth_heap_swap del: One_nat_def)
qed

lemma heap_down_is_heap:
  "i < n \<Longrightarrow> n \<le> length h \<Longrightarrow> heap_but_down key i n h \<Longrightarrow> is_heap key (take n (heap_down key i n h))"
proof (induction key i n h rule: heap_down.induct)
  case (1 key i n h)
  let ?j1 = "2 * i + 1"
  let ?j = "if ?j1 + 1 < n \<and> key (h ! (?j1 + 1)) < key (h ! ?j1) then ?j1 + 1 else ?j1"
  show ?case
  proof (cases "?j1 \<ge> n")
    case True
    then have "is_heap key (take n h)"
      using "1.prems" by (auto simp: is_heap_def heap_but_down_def children)
    with True show ?thesis by (subst heap_down.simps) (simp add: Let_def)
  next
    case inner: False
    show ?thesis
    proof (cases "\<not> key (h ! ?j) < key (h ! i)")
      case True
      have "key (h ! i) \<le> key (h ! k)" if "0 < k" "k < n" "(k - 1) div 2 = i" for k
        using that True unfolding children [OF that(1)] by (auto split: if_splits)
      then have "is_heap key (take n h)"
        using "1.prems" by (auto simp: is_heap_def heap_but_down_def)
      with True inner show ?thesis by (subst heap_down.simps) (auto simp: Let_def split: if_splits)
    next
      case lt: False
      have j: "?j < n" "i < ?j" "(?j - 1) div 2 = i" "0 < ?j" using inner by auto
      have small: "key (h ! ?j) \<le> key (h ! k)" if "0 < k" "k < n" "(k - 1) div 2 = i" for k
        using that unfolding children [OF that(1)] by auto
      from lt have "key (h ! ?j) < key (h ! i)" by blast
      from heap_down_step [OF j(2,1) "1.prems"(2) j(3) this small "1.prems"(3)]
      have "heap_but_down key ?j n (heap_swap i ?j h)" .
      with "1.IH" [OF refl inner refl refl lt] j "1.prems"(2)
      have "is_heap key (take n (heap_down key ?j n (heap_swap i ?j h)))" by simp
      with lt inner show ?thesis by (subst heap_down.simps) (auto simp: Let_def split: if_splits)
    qed
  qed
qed

section \<open>Push and pop\<close>

lemma heap_push_mset [simp]: "mset (heap_push key x h) = add_mset x (mset h)"
  by (simp add: heap_push_def Let_def heap_up_mset)

lemma heap_push_heap: "is_heap key h \<Longrightarrow> is_heap key (heap_push key x h)"
proof -
  assume h: "is_heap key h"
  have "heap_but_up key (length h) (h @ [x])"
    unfolding heap_but_up_def
  proof (intro conjI allI impI)
    fix i assume "0 < i \<and> i < length (h @ [x]) \<and> i \<noteq> length h"
    then have "0 < i" "i < length h" "(i - 1) div 2 < length h" by auto
    with h show "key ((h @ [x]) ! ((i - 1) div 2)) \<le> key ((h @ [x]) ! i)"
      by (simp add: is_heap_def nth_append)
  next
    fix i assume "0 < i \<and> i < length (h @ [x]) \<and> (i - 1) div 2 = length h \<and> 0 < length h"
    then have False by auto
    then show "key ((h @ [x]) ! ((length h - 1) div 2)) \<le> key ((h @ [x]) ! i)" ..
  qed
  then show ?thesis by (simp add: heap_push_def Let_def heap_up_is_heap)
qed

lemma heap_pop_spec:
  assumes h: "is_heap key h" and ne: "h \<noteq> []" and pop: "heap_pop key h = (x, h')"
  shows "x = h ! 0 \<and> mset h = add_mset x (mset h') \<and> is_heap key h' \<and> (\<forall>y\<in>set h. key x \<le> key y)"
proof -
  define n where "n = length h - 1"
  have len: "length h = Suc n" "n < length h" using ne by (simp_all add: n_def)
  let ?s = "heap_swap 0 n h" and ?d = "heap_down key 0 n (heap_swap 0 n h)"
  have x: "x = ?d ! n" and h': "h' = take n ?d" using pop by (simp_all add: heap_pop_def n_def Let_def)
  have sn: "?s ! n = h ! 0" using len by (simp add: nth_heap_swap)
  have dn: "?d ! n = h ! 0 \<and> mset ?d = mset h \<and> is_heap key (take n ?d)"
  proof (cases "n = 0")
    case True
    have "?d = ?s" by (subst heap_down.simps) (simp add: True Let_def)
    with sn len True show ?thesis by (simp add: is_heap_def heap_swap_def)
  next
    case False
    have "?d ! n = ?s ! n" using False len by (intro heap_down_beyond) auto
    moreover have "mset ?d = mset h" using False len by (simp add: heap_down_mset)
    moreover have "heap_but_down key 0 n ?s"
      unfolding heap_but_down_def
    proof (intro conjI allI impI)
      fix k assume k: "0 < k \<and> k < n \<and> (k - 1) div 2 \<noteq> 0"
      then have "(k - 1) div 2 < n" by linarith
      with k h len show "key (?s ! ((k - 1) div 2)) \<le> key (?s ! k)"
        by (auto simp: nth_heap_swap is_heap_def)
    qed simp
    then have "is_heap key (take n ?d)" using False len by (intro heap_down_is_heap) auto
    ultimately show ?thesis using sn by simp
  qed
  have "?d = take n ?d @ [?d ! n]"
    using len by (metis heap_down_length length_heap_swap lessI take_Suc_conv_app_nth take_all_iff order_refl)
  then have "mset ?d = add_mset x (mset h')" unfolding x h' by (metis mset_append mset_single_iff_right
      add_mset_add_single mset.simps(1) mset.simps(2))
  moreover have "\<forall>y\<in>set h. key x \<le> key y"
    using is_heap_root [OF h] dn x by (auto simp: in_set_conv_nth)
  ultimately show ?thesis using dn x h' by simp
qed

end
