(* ===== verification/Merger.thy ===== *)
theory Merger
  imports Sstable_Reader Go_Heap
begin

text \<open>
  \<open>pkg/compaction/merger.go\<close>: the k-way merge.  Each scanner reads its whole table at its
  first \<open>advance\<close>; the heap holds the entry each scanner is at.  The file system is a map
  from paths to contents.
\<close>

section \<open>State and operations\<close>

record 'b scanner =
  sc_reader :: "'b sst_reader"
  sc_idx :: nat
  sc_entries :: "kv list option"
  sc_pos :: nat
  sc_currentKey :: bytes
  sc_currentValue :: bytes
  sc_done :: bool

record merge_entry =
  me_key :: bytes
  me_value :: bytes
  me_readerIdx :: nat

text \<open>All entries share the slice of scanners, so it is part of the merger.\<close>

record 'b merger =
  mg_scanners :: "'b scanner list"
  mg_heap :: "merge_entry list"

definition collect :: "bytes \<Rightarrow> bytes \<Rightarrow> kv list \<Rightarrow> unit res \<times> kv list" where
  "collect k v entries = (Inr (), entries @ [(k, take (length v) v)])"

definition advance :: "'b scanner \<Rightarrow> unit res \<times> 'b scanner" where
  "advance s =
     (if sc_done s then (Inl (Err ''scanner exhausted''), s)
      else
        bindS (case sc_entries s of
                 Some _ \<Rightarrow> (Inr (), s)
               | None \<Rightarrow>
                   (case sst_scan collect (sc_reader s) [] of
                      (Inl e, entries) \<Rightarrow> (Inl e, s\<lparr>sc_entries := Some entries, sc_done := True\<rparr>)
                    | (Inr _, entries) \<Rightarrow> (Inr (), s\<lparr>sc_entries := Some entries\<rparr>))) (\<lambda>_ s.
        let entries = the (sc_entries s)
        in if sc_pos s \<ge> length entries then (Inl (Err ''no more entries''), s\<lparr>sc_done := True\<rparr>)
           else let entry = entries ! sc_pos s
                in (Inr (), s\<lparr>sc_pos := sc_pos s + 1, sc_currentKey := fst entry,
                              sc_currentValue := snd entry\<rparr>)))"

definition entry_of :: "'b scanner \<Rightarrow> merge_entry" where
  "entry_of s = \<lparr>me_key = sc_currentKey s, me_value = sc_currentValue s, me_readerIdx = sc_idx s\<rparr>"

definition new_scanner :: "'b sst_reader \<Rightarrow> nat \<Rightarrow> 'b scanner" where
  "new_scanner r i = \<lparr>sc_reader = r, sc_idx = i, sc_entries = None, sc_pos = 0, sc_currentKey = [],
     sc_currentValue = [], sc_done = False\<rparr>"

text \<open>The two loops of \<open>newMerger\<close>; a table that fails to open is skipped.\<close>

fun open_scanners :: "'b bloom \<Rightarrow> wal_io \<Rightarrow> (bytes \<rightharpoonup> bytes) \<Rightarrow> bytes list \<Rightarrow> 'b scanner list \<Rightarrow> 'b scanner list" where
  "open_scanners B io fs [] scanners = scanners"
| "open_scanners B io fs (path # paths) scanners =
     (case open_reader B io (fs path) of
        Inl _ \<Rightarrow> open_scanners B io fs paths scanners
      | Inr r \<Rightarrow> open_scanners B io fs paths (scanners @ [new_scanner r (length scanners)]))"

fun fill_heap :: "'b scanner list \<Rightarrow> 'b merger \<Rightarrow> 'b merger" where
  "fill_heap [] m = m"
| "fill_heap (s # ss) m =
     (case advance s of
        (Inr _, s') \<Rightarrow> fill_heap ss (m\<lparr>mg_scanners := mg_scanners m @ [s'],
                                       mg_heap := heap_push me_key (entry_of s') (mg_heap m)\<rparr>)
      | (Inl _, s') \<Rightarrow> fill_heap ss (m\<lparr>mg_scanners := mg_scanners m @ [s']\<rparr>))"

definition new_merger :: "'b bloom \<Rightarrow> wal_io \<Rightarrow> (bytes \<rightharpoonup> bytes) \<Rightarrow> bytes list \<Rightarrow> 'b merger" where
  "new_merger B io fs paths =
     fill_heap (open_scanners B io fs paths []) \<lparr>mg_scanners = [], mg_heap = []\<rparr>"

text \<open>\<open>for m.heap.Len() > 0 && (*m.heap)[0].key == key { heap.Pop(m.heap) }\<close>\<close>

lemma heap_pop_length: "h \<noteq> [] \<Longrightarrow> length (snd (heap_pop key h)) < length h"
  by (simp add: heap_pop_def Let_def)

function drop_duplicates :: "bytes \<Rightarrow> merge_entry list \<Rightarrow> merge_entry list" where
  "drop_duplicates key h =
     (if h \<noteq> [] \<and> me_key (h ! 0) = key then drop_duplicates key (snd (heap_pop me_key h)) else h)"
  by pat_completeness auto
termination
  by (relation "measure (\<lambda>(_, h). length h)") (auto simp: heap_pop_length)

declare drop_duplicates.simps [simp del]

definition ErrMergerDone :: go_error where
  "ErrMergerDone = Err ''merger exhausted''"

definition merger_next :: "'b merger \<Rightarrow> (bytes \<times> bytes) res \<times> 'b merger" where
  "merger_next m =
     (if mg_heap m = [] then (Inl ErrMergerDone, m)
      else
        let (entry, h) = heap_pop me_key (mg_heap m);
            key = me_key entry;
            h = drop_duplicates key h;
            i = me_readerIdx entry
        in if i \<ge> length (mg_scanners m) then (Inl (Panic ''index out of range''), m\<lparr>mg_heap := h\<rparr>)
           else
             let (r, s) = advance (mg_scanners m ! i);
                 m = m\<lparr>mg_scanners := (mg_scanners m)[i := s], mg_heap := h\<rparr>
             in case r of
                  Inr _ \<Rightarrow> (Inr (key, me_value entry), m\<lparr>mg_heap := heap_push me_key (entry_of s) h\<rparr>)
                | Inl _ \<Rightarrow> (Inr (key, me_value entry), m))"

section \<open>Termination\<close>

text \<open>Every successful \<open>Next\<close> uses up an entry of a scanner or of the heap.\<close>

definition scanner_left :: "'b scanner \<Rightarrow> nat" where
  "scanner_left s = (if sc_done s then 0
     else Suc (length (case sc_entries s of Some es \<Rightarrow> es | None \<Rightarrow> snd (sst_scan collect (sc_reader s) []))) - sc_pos s)"

definition merger_left :: "'b merger \<Rightarrow> nat" where
  "merger_left m = length (mg_heap m) + sum_list (map scanner_left (mg_scanners m))"

lemma advance_left:
  "advance s = (Inr u, s') \<Longrightarrow> scanner_left s' < scanner_left s"
  "advance s = (Inl e, s') \<Longrightarrow> scanner_left s' \<le> scanner_left s"
  by (auto simp: advance_def scanner_left_def Let_def bindS_def split: if_splits option.splits prod.splits sum.splits)

lemma heap_up_length [simp]: "length (heap_up key j h) = length h"
proof (induction key j h rule: heap_up.induct)
  case (1 key j h)
  then show ?case by (subst heap_up.simps) (auto simp: Let_def)
qed

lemma heap_push_length [simp]: "length (heap_push key x h) = Suc (length h)"
  by (simp add: heap_push_def Let_def)

lemma drop_duplicates_length: "length (drop_duplicates key h) \<le> length h"
proof (induction key h rule: drop_duplicates.induct)
  case (1 key h)
  then show ?case
    using heap_pop_length [of h me_key] by (subst drop_duplicates.simps) auto
qed

lemma sum_list_update_less:
  "i < length xs \<Longrightarrow> sum_list (xs[i := y]) + xs ! i = sum_list xs + (y :: nat)"
  by (induction xs arbitrary: i) (auto split: nat.splits)

lemma merger_next_left:
  assumes "merger_next m = (Inr kv, m')"
  shows "merger_left m' < merger_left m"
proof -
  obtain entry h where pop: "heap_pop me_key (mg_heap m) = (entry, h)" by force
  let ?i = "me_readerIdx entry" and ?h = "drop_duplicates (me_key entry) h"
  obtain r s where adv: "advance (mg_scanners m ! ?i) = (r, s)" by force
  from assms pop have ne: "mg_heap m \<noteq> []" and i: "?i < length (mg_scanners m)"
    by (auto simp: merger_next_def Let_def split: if_splits)
  have hl: "length ?h < length (mg_heap m)"
    using drop_duplicates_length [of "me_key entry" h] heap_pop_length [OF ne, of me_key] by (simp add: pop)
  have sum: "sum_list (map scanner_left ((mg_scanners m)[?i := s])) + scanner_left (mg_scanners m ! ?i)
      = sum_list (map scanner_left (mg_scanners m)) + scanner_left s"
    using sum_list_update_less [of ?i "map scanner_left (mg_scanners m)" "scanner_left s"] i
    by (simp add: map_update)
  show ?thesis
  proof (cases r)
    case (Inl e)
    with assms pop ne i adv have m': "m' = m\<lparr>mg_scanners := (mg_scanners m)[?i := s], mg_heap := ?h\<rparr>"
      by (auto simp: merger_next_def Let_def)
    from advance_left(2) adv Inl have "scanner_left s \<le> scanner_left (mg_scanners m ! ?i)" by blast
    with sum hl show ?thesis by (simp add: m' merger_left_def)
  next
    case (Inr u)
    with assms pop ne i adv have m': "m' = m\<lparr>mg_scanners := (mg_scanners m)[?i := s],
        mg_heap := heap_push me_key (entry_of s) ?h\<rparr>" by (auto simp: merger_next_def Let_def)
    from advance_left(1) adv Inr have "scanner_left s < scanner_left (mg_scanners m ! ?i)" by blast
    with sum hl show ?thesis by (simp add: m' merger_left_def)
  qed
qed

text \<open>
  The loop of \<open>compactTables\<close> and \<open>Merge\<close>: \<open>put\<close> is what is done with each entry.
\<close>

function merge_loop :: "string \<Rightarrow> (bytes \<Rightarrow> bytes \<Rightarrow> 's \<Rightarrow> unit res \<times> 's) \<Rightarrow> 'b merger \<Rightarrow> 's \<Rightarrow> unit res \<times> 's" where
  "merge_loop msg put m s =
     (case merger_next m of
        (Inl e, m') \<Rightarrow>
          if e = ErrMergerDone then (Inr (), s) else (wrapE msg (Inl e), s)
      | (Inr (key, val), m') \<Rightarrow> bindS (put key val s) (\<lambda>_ s. merge_loop msg put m' s))"
  by pat_completeness auto
termination
  by (relation "measure (\<lambda>(_, _, m, _). merger_left m)") (auto dest: merger_next_left [OF sym])

declare merge_loop.simps [simp del]

text \<open>\<open>Merge(inputPaths, outputPath)\<close>; the output's \<open>Close\<close> is deferred, its error dropped.\<close>

definition add_merged :: "'b bloom \<Rightarrow> bytes \<Rightarrow> bytes \<Rightarrow> 'b sst_writer \<Rightarrow> unit res \<times> 'b sst_writer" where
  "add_merged B key val w = wrapS ''failed to write merged entry'' (sst_add B key val w)"

definition merge_files ::
  "'b bloom \<Rightarrow> wal_io \<Rightarrow> (bytes \<rightharpoonup> bytes) \<Rightarrow> bytes list \<Rightarrow> bytes \<Rightarrow> unit res \<times> (bytes \<rightharpoonup> bytes)" where
  "merge_files B io fs inputPaths outputPath =
     (if inputPaths = [] then (Inl (Err ''no input files to merge''), fs)
      else case wrapE ''failed to create output writer'' (create_writer B io 4096) of
        Inl e \<Rightarrow> (Inl e, fs)
      | Inr w \<Rightarrow>
        let fs = fs(outputPath \<mapsto> []);
            (r, w) = (if (\<exists>path\<in>set inputPaths. fs path = None) \<or> \<not> io_stat_ok io then
                        (Inl (Wrap ''failed to stat input file'' (Err ''stat'')), w)
                      else merge_loop ''merge error'' (add_merged B) (new_merger B io fs inputPaths) w)
        in (r, fs(outputPath \<mapsto> sw_file (snd (sst_close B io w)))))"

section \<open>What a merge yields\<close>

fun run_puts :: "(bytes \<Rightarrow> bytes \<Rightarrow> 's \<Rightarrow> unit res \<times> 's) \<Rightarrow> kv list \<Rightarrow> 's \<Rightarrow> unit res \<times> 's" where
  "run_puts put [] s = (Inr (), s)"
| "run_puts put ((k, v) # kvs) s = bindS (put k v s) (\<lambda>_ s. run_puts put kvs s)"

definition scanner_rest :: "'b scanner \<Rightarrow> kv list" where
  "scanner_rest s = (if sc_done s then []
     else drop (sc_pos s) (case sc_entries s of Some es \<Rightarrow> es | None \<Rightarrow> snd (sst_scan collect (sc_reader s) [])))"

definition scanner_ok :: "'b scanner \<Rightarrow> bool" where
  "scanner_ok s \<longleftrightarrow> (sc_entries s = None \<longrightarrow> fst (sst_scan collect (sc_reader s) []) = Inr ())"

lemma advance_Nil:
  "scanner_ok s \<Longrightarrow> scanner_rest s = [] \<Longrightarrow>
   \<exists>e s'. advance s = (Inl e, s') \<and> scanner_rest s' = [] \<and> scanner_ok s' \<and> sc_idx s' = sc_idx s"
proof (cases "sc_done s")
  case True
  then show "scanner_ok s \<Longrightarrow> scanner_rest s = [] \<Longrightarrow> ?thesis"
    by (simp add: advance_def scanner_rest_def)
next
  case False
  assume ok: "scanner_ok s" and rest: "scanner_rest s = []"
  define es where "es = (case sc_entries s of Some es \<Rightarrow> es | None \<Rightarrow> snd (sst_scan collect (sc_reader s) []))"
  from False ok rest have "advance s = (Inl (Err ''no more entries''), s\<lparr>sc_entries := Some es, sc_done := True\<rparr>)"
    by (cases "sst_scan collect (sc_reader s) []"; cases "sc_entries s")
      (auto simp: advance_def scanner_ok_def scanner_rest_def es_def Let_def)
  then show ?thesis by (simp add: scanner_rest_def scanner_ok_def)
qed

lemma advance_Cons:
  assumes ok: "scanner_ok s" and rest: "scanner_rest s = kv # kvs"
  shows "\<exists>s'. advance s = (Inr (), s') \<and> scanner_rest s' = kvs \<and> scanner_ok s' \<and> sc_idx s' = sc_idx s
     \<and> entry_of s' = \<lparr>me_key = fst kv, me_value = snd kv, me_readerIdx = sc_idx s\<rparr>"
proof -
  define es where "es = (case sc_entries s of Some es \<Rightarrow> es | None \<Rightarrow> snd (sst_scan collect (sc_reader s) []))"
  from rest have d: "\<not> sc_done s" and dr: "drop (sc_pos s) es = kv # kvs"
    by (auto simp: scanner_rest_def es_def split: if_splits)
  then have pos: "sc_pos s < length es" by (metis drop_eq_Nil list.distinct(1) not_le)
  with dr have nth: "es ! sc_pos s = kv" "drop (Suc (sc_pos s)) es = kvs"
    by (metis Cons_nth_drop_Suc list.inject)+
  define s1 where "s1 = s\<lparr>sc_entries := Some es\<rparr>"
  have "advance s = (Inr (), s1\<lparr>sc_pos := sc_pos s + 1, sc_currentKey := fst kv, sc_currentValue := snd kv\<rparr>)"
    using d ok pos nth(1)
    by (cases "sst_scan collect (sc_reader s) []"; cases "sc_entries s")
      (auto simp: advance_def scanner_ok_def es_def s1_def Let_def)
  then show ?thesis
    using d nth(2) by (auto simp: scanner_rest_def scanner_ok_def entry_of_def s1_def)
qed

text \<open>
  The invariant: a heap with at most one entry per scanner, which precedes what the scanner
  has left.  A scanner that has an entry in the heap is live; what the others have left is
  lost to the merge, and \<open>complete\<close> says that it is nothing.
\<close>

definition merger_wf :: "'b merger \<Rightarrow> bool" where
  "merger_wf m \<longleftrightarrow> is_heap me_key (mg_heap m) \<and> distinct (map me_readerIdx (mg_heap m))
     \<and> (\<forall>i<length (mg_scanners m). scanner_ok (mg_scanners m ! i) \<and> sc_idx (mg_scanners m ! i) = i)
     \<and> (\<forall>e\<in>set (mg_heap m). me_readerIdx e < length (mg_scanners m)
          \<and> sorted_wrt (<) (me_key e # map fst (scanner_rest (mg_scanners m ! me_readerIdx e))))"

definition complete :: "'b merger \<Rightarrow> bool" where
  "complete m \<longleftrightarrow> (\<forall>i<length (mg_scanners m).
     i \<notin> me_readerIdx ` set (mg_heap m) \<longrightarrow> scanner_rest (mg_scanners m ! i) = [])"

definition heap_kv :: "merge_entry \<Rightarrow> kv" where
  "heap_kv e = (me_key e, me_value e)"

definition live :: "'b merger \<Rightarrow> kv set" where
  "live m = (\<Union>e\<in>set (mg_heap m). insert (heap_kv e) (set (scanner_rest (mg_scanners m ! me_readerIdx e))))"

definition pending :: "'b merger \<Rightarrow> kv multiset" where
  "pending m = image_mset heap_kv (mset (mg_heap m)) + mset (concat (map scanner_rest (mg_scanners m)))"

definition keys_unique :: "kv multiset \<Rightarrow> bool" where
  "keys_unique M \<longleftrightarrow> (\<forall>k. count (image_mset fst M) k \<le> 1)"

lemma keys_unique_add: "keys_unique (add_mset kv M) \<longleftrightarrow> fst kv \<notin> fst ` set_mset M \<and> keys_unique M"
proof -
  have "count (image_mset fst M) k = 0 \<longleftrightarrow> k \<notin> fst ` set_mset M" for k :: bytes
    by (metis count_eq_zero_iff set_image_mset)
  then show ?thesis
    by (auto simp: keys_unique_def split: if_splits) (metis le_Suc_eq le_zero_eq)+
qed

lemma keys_unique_mset: "keys_unique (mset kvs) \<longleftrightarrow> distinct (map fst kvs)"
proof (induction kvs)
  case Nil
  then show ?case by (simp add: keys_unique_def)
next
  case (Cons kv kvs)
  then show ?case by (simp add: keys_unique_add)
qed

lemma drop_duplicates_spec:
  "is_heap me_key h \<Longrightarrow> \<forall>y\<in>set h. key \<le> me_key y \<Longrightarrow>
   is_heap me_key (drop_duplicates key h)
   \<and> mset (drop_duplicates key h) = filter_mset (\<lambda>y. me_key y \<noteq> key) (mset h)"
proof (induction key h rule: drop_duplicates.induct)
  case (1 key h)
  show ?case
  proof (cases "h \<noteq> [] \<and> me_key (h ! 0) = key")
    case True
    obtain e h' where pop: "heap_pop me_key h = (e, h')" by force
    from heap_pop_spec [OF 1(2) _ pop] True have P: "mset h = add_mset e (mset h')" "is_heap me_key h'"
      and least: "\<forall>y\<in>set h. me_key e \<le> me_key y" by blast+
    have sh: "set h = insert e (set h')" using P(1) by (metis set_mset_add_mset_insert set_mset_mset)
    have "h ! 0 \<in> set h" using True by simp
    with True least have "me_key e \<le> key" by blast
    with 1(3) sh have "me_key e = key" by (simp add: order_antisym)
    moreover from 1(1) [OF True] P(2) 1(3) sh pop have
      "is_heap me_key (drop_duplicates key h')"
      "mset (drop_duplicates key h') = filter_mset (\<lambda>y. me_key y \<noteq> key) (mset h')" by auto
    ultimately show ?thesis using True P(1) pop by (subst (1 2) drop_duplicates.simps) simp
  next
    case False
    have "me_key y \<noteq> key" if "y \<in> set h" for y
    proof -
      from that have ne: "h \<noteq> []" by auto
      with False 1(3) have "key < me_key (h ! 0)" by (metis length_greater_0_conv nth_mem order_less_le)
      also from that is_heap_root [OF 1(2)] have "me_key (h ! 0) \<le> me_key y"
        by (auto simp: in_set_conv_nth)
      finally show ?thesis by simp
    qed
    then have "filter_mset (\<lambda>y. me_key y \<noteq> key) (mset h) = mset h"
      by (simp add: filter_mset_eq_conv)
    with False 1(2) show ?thesis by (subst (1 2) drop_duplicates.simps) auto
  qed
qed

text \<open>What the scanner of the popped entry puts back.\<close>

definition head_entry :: "'b scanner \<Rightarrow> merge_entry" where
  "head_entry s = \<lparr>me_key = fst (hd (scanner_rest s)), me_value = snd (hd (scanner_rest s)), me_readerIdx = sc_idx s\<rparr>"

definition refill :: "'b scanner \<Rightarrow> merge_entry list \<Rightarrow> merge_entry list" where
  "refill s h = (if scanner_rest s = [] then h else heap_push me_key (head_entry s) h)"

lemma mset_refill:
  "mset (refill s h) = mset h + (if scanner_rest s = [] then {#} else {#head_entry s#})"
  by (simp add: refill_def)

lemma set_refill: "set (refill s h) = set h \<union> (if scanner_rest s = [] then {} else {head_entry s})"
  using arg_cong [OF mset_refill, of set_mset s h] by simp

lemma refill_heap: "is_heap me_key h \<Longrightarrow> is_heap me_key (refill s h)"
  by (simp add: refill_def heap_push_heap)

lemma distinct_refill:
  "distinct (map me_readerIdx h) \<Longrightarrow> sc_idx s \<notin> me_readerIdx ` set h \<Longrightarrow> distinct (map me_readerIdx (refill s h))"
proof -
  assume d: "distinct (map me_readerIdx h)" "sc_idx s \<notin> me_readerIdx ` set h"
  have "mset (map me_readerIdx (heap_push me_key (head_entry s) h)) = mset (sc_idx s # map me_readerIdx h)"
    by (simp add: head_entry_def)
  from mset_eq_imp_distinct_iff [OF this] d show ?thesis by (simp add: refill_def)
qed

lemma advance_step:
  assumes "scanner_ok s"
  obtains r s' where "advance s = (r, s')" "scanner_ok s'" "sc_idx s' = sc_idx s"
    "scanner_rest s' = tl (scanner_rest s)"
    "(case r of Inl _ \<Rightarrow> h | Inr _ \<Rightarrow> heap_push me_key (entry_of s') h) = refill s h"
proof (cases "scanner_rest s")
  case Nil
  from advance_Nil [OF assms Nil] obtain e s' where "advance s = (Inl e, s')" "scanner_rest s' = []"
    "scanner_ok s'" "sc_idx s' = sc_idx s" by blast
  with that [of "Inl e" s'] Nil show ?thesis by (simp add: refill_def)
next
  case (Cons kv kvs)
  from advance_Cons [OF assms Cons] obtain s' where "advance s = (Inr (), s')" "scanner_rest s' = kvs"
    "scanner_ok s'" "sc_idx s' = sc_idx s" "entry_of s' = head_entry s"
    by (auto simp: head_entry_def Cons)
  with that [of "Inr ()" s'] Cons show ?thesis by (simp add: refill_def)
qed

lemma merger_next_eq:
  assumes wf: "merger_wf m" and ne: "mg_heap m \<noteq> []" and pop: "heap_pop me_key (mg_heap m) = (e, h)"
  obtains s' where "scanner_ok s'" "sc_idx s' = me_readerIdx e"
    "scanner_rest s' = tl (scanner_rest (mg_scanners m ! me_readerIdx e))"
    "merger_next m = (Inr (heap_kv e), m\<lparr>mg_scanners := (mg_scanners m)[me_readerIdx e := s'],
       mg_heap := refill (mg_scanners m ! me_readerIdx e) (drop_duplicates (me_key e) h)\<rparr>)"
proof -
  let ?i = "me_readerIdx e" and ?h = "drop_duplicates (me_key e) h"
  have "is_heap me_key (mg_heap m)" using wf by (simp add: merger_wf_def)
  from heap_pop_spec [OF this ne pop] have "mset (mg_heap m) = add_mset e (mset h)" by blast
  then have "e \<in> set (mg_heap m)" by (metis set_mset_mset union_single_eq_member)
  with wf have i: "?i < length (mg_scanners m)" and ok: "scanner_ok (mg_scanners m ! ?i)"
    "sc_idx (mg_scanners m ! ?i) = ?i" by (auto simp: merger_wf_def)
  from advance_step [OF ok(1), where h = ?h] obtain r s' where s': "advance (mg_scanners m ! ?i) = (r, s')"
    "scanner_ok s'" "sc_idx s' = ?i" "scanner_rest s' = tl (scanner_rest (mg_scanners m ! ?i))"
    "(case r of Inl _ \<Rightarrow> ?h | Inr _ \<Rightarrow> heap_push me_key (entry_of s') ?h) = refill (mg_scanners m ! ?i) ?h"
    by (metis ok(2))
  from s'(1,5) ne pop i have "merger_next m = (Inr (heap_kv e), m\<lparr>mg_scanners := (mg_scanners m)[?i := s'],
       mg_heap := refill (mg_scanners m ! ?i) ?h\<rparr>)"
    by (cases r) (simp_all add: merger_next_def Let_def heap_kv_def)
  with s' that show ?thesis by blast
qed

lemma concat_update:
  "i < length xss \<Longrightarrow> xss ! i = ys @ zs \<Longrightarrow>
   mset (concat xss) = mset ys + mset (concat (xss[i := zs]))"
proof (induction xss arbitrary: i)
  case (Cons xs xss)
  then show ?case by (cases i) (auto simp: ac_simps)
qed simp

lemma merger_step_complete:
  assumes c: "complete m" and u: "keys_unique (pending m)" and mh: "mset (mg_heap m) = add_mset e (mset h)"
    and dm: "mset h' = filter_mset (\<lambda>y. me_key y \<noteq> me_key e) (mset h)"
    and i: "me_readerIdx e < length (mg_scanners m)" "sc_idx (mg_scanners m ! me_readerIdx e) = me_readerIdx e"
    and s': "scanner_rest s' = tl (scanner_rest (mg_scanners m ! me_readerIdx e))"
    and sc': "mg_scanners m' = (mg_scanners m)[me_readerIdx e := s']"
    and hp': "mg_heap m' = refill (mg_scanners m ! me_readerIdx e) h'"
  shows "complete m' \<and> pending m = add_mset (heap_kv e) (pending m')"
proof -
  let ?i = "me_readerIdx e" and ?sc = "mg_scanners m"
  let ?s = "?sc ! ?i"
  have pend: "pending m = add_mset (heap_kv e) (image_mset heap_kv (mset h) + mset (concat (map scanner_rest ?sc)))"
    using mh by (simp add: pending_def)
  have "\<forall>y\<in>set h. me_key y \<noteq> me_key e"
  proof
    fix y assume "y \<in> set h"
    then have "heap_kv y \<in># image_mset heap_kv (mset h) + mset (concat (map scanner_rest ?sc))" by simp
    then have "fst (heap_kv y) \<noteq> fst (heap_kv e)"
      using u unfolding pend keys_unique_add by (metis image_eqI)
    then show "me_key y \<noteq> me_key e" by (simp add: heap_kv_def)
  qed
  then have h': "mset h' = mset h" by (simp add: dm filter_mset_eq_conv)
  then have sh': "set h' = set h" by (metis set_mset_mset)
  have sh: "set (mg_heap m) = insert e (set h)" using mh by (metis set_mset_add_mset_insert set_mset_mset)
  have "scanner_rest (?sc[?i := s'] ! j) = []"
    if j: "j < length ?sc" "j \<notin> me_readerIdx ` set (refill ?s h')" for j
  proof (cases "j = ?i")
    case True
    with j(2) i(2) have "scanner_rest ?s = []" by (auto simp: set_refill head_entry_def split: if_splits)
    with True i(1) s' show ?thesis by simp
  next
    case False
    with j(2) sh sh' have "j \<notin> me_readerIdx ` set (mg_heap m)" by (auto simp: set_refill split: if_splits)
    with c j(1) False show ?thesis by (simp add: complete_def)
  qed
  then have "complete m'" by (simp add: complete_def sc' hp')
  moreover have "pending m' = image_mset heap_kv (mset h) + mset (concat (map scanner_rest ?sc))"
  proof (cases "scanner_rest ?s")
    case Nil
    with concat_update [of ?i "map scanner_rest ?sc" "[]" "[]"] i(1) s' show ?thesis
      by (simp add: pending_def sc' hp' mset_refill h' map_update)
  next
    case (Cons kv kvs)
    with concat_update [of ?i "map scanner_rest ?sc" "[kv]" kvs] i(1) s' show ?thesis
      by (simp add: pending_def sc' hp' mset_refill h' map_update heap_kv_def head_entry_def)
  qed
  ultimately show ?thesis using pend by simp
qed

text \<open>One step: the key is below everything that is still live, and nothing is made up.\<close>

lemma merger_next_step:
  assumes wf: "merger_wf m" and ne: "mg_heap m \<noteq> []"
  obtains kv m' where "merger_next m = (Inr kv, m')" "merger_wf m'" "kv \<in> live m" "live m' \<subseteq> live m"
    "\<forall>kv'\<in>live m'. fst kv < fst kv'"
    "complete m \<Longrightarrow> keys_unique (pending m) \<Longrightarrow> complete m' \<and> pending m = add_mset kv (pending m')"
proof -
  obtain e h where pop: "heap_pop me_key (mg_heap m) = (e, h)" by force
  let ?i = "me_readerIdx e" and ?sc = "mg_scanners m" and ?h = "drop_duplicates (me_key e) h"
  let ?s = "?sc ! ?i"
  from merger_next_eq [OF wf ne pop] obtain s' where s': "scanner_ok s'" "sc_idx s' = ?i"
    "scanner_rest s' = tl (scanner_rest ?s)"
    "merger_next m = (Inr (heap_kv e), m\<lparr>mg_scanners := ?sc[?i := s'], mg_heap := refill ?s ?h\<rparr>)" by blast
  define m' where "m' = m\<lparr>mg_scanners := ?sc[?i := s'], mg_heap := refill ?s ?h\<rparr>"
  have sc': "mg_scanners m' = ?sc[?i := s']" and hp': "mg_heap m' = refill ?s ?h" by (simp_all add: m'_def)
  have heap: "is_heap me_key (mg_heap m)" using wf by (simp add: merger_wf_def)
  from heap_pop_spec [OF heap ne pop] have mh: "mset (mg_heap m) = add_mset e (mset h)"
    and hh: "is_heap me_key h" and least: "\<forall>y\<in>set (mg_heap m). me_key e \<le> me_key y" by blast+
  have sh: "set (mg_heap m) = insert e (set h)" using mh by (metis set_mset_add_mset_insert set_mset_mset)
  with least have "\<forall>y\<in>set h. me_key e \<le> me_key y" by blast
  from drop_duplicates_spec [OF hh this] have dh: "is_heap me_key ?h"
    and dm: "mset ?h = filter_mset (\<lambda>y. me_key y \<noteq> me_key e) (mset h)" by blast+
  have ds: "set ?h = {y \<in> set h. me_key y \<noteq> me_key e}" using arg_cong [OF dm, of set_mset] by simp
  have above: "me_key e < me_key y" if "y \<in> set ?h" for y
    using that least ds sh by (auto simp: order_less_le)
  have i: "?i < length ?sc" and si: "sc_idx ?s = ?i"
    and sorted: "sorted_wrt (<) (me_key e # map fst (scanner_rest ?s))"
    using wf sh by (auto simp: merger_wf_def)
  have dist: "distinct (?i # map me_readerIdx h)"
  proof -
    have "mset (map me_readerIdx (mg_heap m)) = mset (?i # map me_readerIdx h)" by (simp add: mh)
    from mset_eq_imp_distinct_iff [OF this] wf show ?thesis by (simp add: merger_wf_def)
  qed
  have others: "me_readerIdx y \<noteq> ?i" if "y \<in> set h" for y
    using dist that by (metis distinct.simps(2) image_eqI set_map)
  have dist_h: "distinct (map me_readerIdx ?h)"
  proof -
    have "mset (map me_readerIdx ?h) = mset (map me_readerIdx (filter (\<lambda>y. me_key y \<noteq> me_key e) h))"
      by (simp add: dm)
    from mset_eq_imp_distinct_iff [OF this] dist show ?thesis by (simp add: distinct_map_filter)
  qed
  have away: "?i \<notin> me_readerIdx ` set ?h" using others ds by (metis (no_types, lifting) imageE mem_Collect_eq)
  text \<open>every entry of the new heap, with what its scanner has left\<close>
  have entries: "me_readerIdx y < length ?sc \<and> sorted_wrt (<) (me_key y # map fst (scanner_rest (?sc[?i := s'] ! me_readerIdx y)))
      \<and> insert (heap_kv y) (set (scanner_rest (?sc[?i := s'] ! me_readerIdx y))) \<subseteq> live m \<and> me_key e < me_key y"
    if "y \<in> set (refill ?s ?h)" for y
  proof (cases "y \<in> set ?h")
    case True
    then have y: "y \<in> set (mg_heap m)" "me_readerIdx y \<noteq> ?i" using ds sh others by auto
    then have "?sc[?i := s'] ! me_readerIdx y = ?sc ! me_readerIdx y" by simp
    with y(1) wf above [OF True] show ?thesis by (auto simp: merger_wf_def live_def)
  next
    case False
    with that have ne': "scanner_rest ?s \<noteq> []" and y: "y = head_entry ?s" by (auto simp: set_refill split: if_splits)
    then obtain kv kvs where r: "scanner_rest ?s = kv # kvs" by (cases "scanner_rest ?s") auto
    have "set (kv # kvs) \<subseteq> live m" using sh r by (auto simp: live_def)
    with y r i s'(3) sorted si show ?thesis by (simp add: head_entry_def heap_kv_def)
  qed
  have oks: "scanner_ok (?sc[?i := s'] ! j) \<and> sc_idx (?sc[?i := s'] ! j) = j" if "j < length ?sc" for j
    using that wf s'(1,2) by (cases "j = ?i") (simp_all add: merger_wf_def)
  have "merger_wf m'"
    unfolding merger_wf_def sc' hp' using refill_heap [OF dh, of ?s] distinct_refill [OF dist_h, of ?s] away si oks entries by simp
  moreover have "heap_kv e \<in> live m" using sh by (auto simp: live_def)
  moreover have "live m' \<subseteq> live m" unfolding live_def [of m'] sc' hp' using entries by blast
  moreover have "\<forall>kv'\<in>live m'. fst (heap_kv e) < fst kv'"
  proof
    fix kv' assume "kv' \<in> live m'"
    then obtain y where y: "y \<in> set (refill ?s ?h)"
      "kv' = heap_kv y \<or> kv' \<in> set (scanner_rest (?sc[?i := s'] ! me_readerIdx y))"
      by (auto simp: live_def sc' hp')
    from entries [OF y(1)] have "me_key e < me_key y" "\<forall>k\<in>fst ` set (scanner_rest (?sc[?i := s'] ! me_readerIdx y)). me_key y < k"
      by auto
    with y(2) show "fst (heap_kv e) < fst kv'" by (auto simp: heap_kv_def dest: order_less_trans)
  qed
  moreover have "complete m' \<and> pending m = add_mset (heap_kv e) (pending m')"
    if c: "complete m" and u: "keys_unique (pending m)"
    using merger_step_complete [OF c u mh _ i si s'(3) sc', of ?h] hp' dm by blast
  ultimately show thesis using s'(4) m'_def by (intro that) auto
qed

lemma merge_loop_empty: "mg_heap m = [] \<Longrightarrow> merge_loop msg put m = run_puts put []"
  by (intro ext, subst merge_loop.simps) (simp add: merger_next_def)

text \<open>A run: the entries put out are strictly ascending, and none is made up.\<close>

lemma merge_loop_ascending:
  assumes "merger_wf m"
  shows "\<exists>out. sorted_wrt (<) (map fst out) \<and> set out \<subseteq> live m \<and> merge_loop msg put m = run_puts put out
    \<and> (complete m \<longrightarrow> keys_unique (pending m) \<longrightarrow> mset out = pending m)"
  using assms
proof (induction "merger_left m" arbitrary: m rule: less_induct)
  case less
  show ?case
  proof (cases "mg_heap m = []")
    case True
    then have "merge_loop msg put m = run_puts put []" by (rule merge_loop_empty)
    moreover from True have "complete m \<Longrightarrow> pending m = {#}"
      by (auto simp: complete_def pending_def all_set_conv_all_nth)
    ultimately show ?thesis by (intro exI [of _ "[]"]) simp
  next
    case False
    from less.prems False obtain kv m' where
      m': "merger_next m = (Inr kv, m')" "merger_wf m'" "kv \<in> live m" "live m' \<subseteq> live m"
      "\<forall>kv'\<in>live m'. fst kv < fst kv'"
      "complete m \<Longrightarrow> keys_unique (pending m) \<Longrightarrow> complete m' \<and> pending m = add_mset kv (pending m')"
      by (rule merger_next_step) blast
    from less.hyps [OF merger_next_left [OF m'(1)] m'(2)] obtain out where
      out: "sorted_wrt (<) (map fst out)" "set out \<subseteq> live m'" "merge_loop msg put m' = run_puts put out"
      "complete m' \<longrightarrow> keys_unique (pending m') \<longrightarrow> mset out = pending m'" by blast
    have "merge_loop msg put m s = run_puts put (kv # out) s" for s
      using m'(1) out(3) by (subst merge_loop.simps) (cases kv, simp)
    moreover have "sorted_wrt (<) (map fst (kv # out))" using out(1,2) m'(5) by auto
    moreover have "mset (kv # out) = pending m" if "complete m" "keys_unique (pending m)"
      using m'(6) [OF that] that(2) out(4) by (auto simp: keys_unique_add)
    ultimately show ?thesis using out(2) m'(3,4) by (intro exI [of _ "kv # out"]) auto
  qed
qed

section \<open>A new merger\<close>

text \<open>The tables of a merge: each opens, and its scan gives these entries.\<close>

definition table_scans :: "'b bloom \<Rightarrow> wal_io \<Rightarrow> (bytes \<rightharpoonup> bytes) \<Rightarrow> bytes \<Rightarrow> kv list \<Rightarrow> bool" where
  "table_scans B io fs path kvs \<longleftrightarrow>
     (\<exists>r. open_reader B io (fs path) = Inr r \<and> sst_scan collect r [] = (Inr (), kvs))"

definition fresh_scanner :: "'b scanner \<Rightarrow> nat \<Rightarrow> kv list \<Rightarrow> bool" where
  "fresh_scanner s i kvs \<longleftrightarrow> scanner_ok s \<and> sc_idx s = i \<and> scanner_rest s = kvs"

lemma open_scanners_ok:
  assumes "list_all2 (table_scans B io fs) paths tables"
  shows "\<exists>ss. open_scanners B io fs paths acc = acc @ ss \<and> length ss = length tables
    \<and> (\<forall>i<length tables. fresh_scanner (ss ! i) (length acc + i) (tables ! i))"
  using assms
proof (induction paths tables arbitrary: acc rule: list_all2_induct)
  case Nil
  then show ?case by simp
next
  case (Cons path paths kvs tables)
  from Cons.hyps(1) obtain r where r: "open_reader B io (fs path) = Inr r" "sst_scan collect r [] = (Inr (), kvs)"
    by (auto simp: table_scans_def)
  let ?s = "new_scanner r (length acc)"
  from Cons.IH [of "acc @ [?s]"] obtain ss where ss: "open_scanners B io fs paths (acc @ [?s]) = acc @ ?s # ss"
    "length ss = length tables" "\<forall>i<length tables. fresh_scanner (ss ! i) (Suc (length acc) + i) (tables ! i)"
    by auto
  have "fresh_scanner ?s (length acc) kvs"
    using r(2) by (simp add: fresh_scanner_def scanner_ok_def scanner_rest_def new_scanner_def)
  with ss r(1) show ?case
    by (intro exI [of _ "?s # ss"]) (auto simp: nth_Cons split: nat.splits)
qed

lemma fill_heap_ok:
  assumes "merger_wf m" and "complete m"
    and "\<forall>i<length ss. fresh_scanner (ss ! i) (length (mg_scanners m) + i) (tables ! i)"
    and "length ss = length tables" and "\<forall>t\<in>set tables. sorted_wrt (<) (map fst t)"
  shows "merger_wf (fill_heap ss m) \<and> complete (fill_heap ss m)
    \<and> pending (fill_heap ss m) = pending m + mset (concat tables)"
  using assms
proof (induction ss arbitrary: m tables)
  case Nil
  then show ?case by simp
next
  case (Cons s ss)
  then obtain t ts where tables: "tables = t # ts" by (cases tables) auto
  let ?n = "length (mg_scanners m)"
  from Cons.prems(3) tables have s: "scanner_ok s" "sc_idx s = ?n" "scanner_rest s = t"
    by (auto simp: fresh_scanner_def dest: spec [of _ 0])
  have sorted: "sorted_wrt (<) (map fst t)" using Cons.prems(5) tables by simp
  note wf = Cons.prems(1)
  from advance_step [OF s(1), where h = "mg_heap m"] obtain r s' where a: "advance s = (r, s')" "scanner_ok s'"
    "sc_idx s' = ?n" "scanner_rest s' = tl t"
    "(case r of Inl _ \<Rightarrow> mg_heap m | Inr _ \<Rightarrow> heap_push me_key (entry_of s') (mg_heap m)) = refill s (mg_heap m)"
    by (metis s(2,3))
  define m' where "m' = m\<lparr>mg_scanners := mg_scanners m @ [s'], mg_heap := refill s (mg_heap m)\<rparr>"
  have step: "fill_heap (s # ss) m = fill_heap ss m'"
    using a(1,5) by (cases r) (simp_all add: m'_def)
  have new: "?n \<notin> me_readerIdx ` set (mg_heap m)" using wf by (auto simp: merger_wf_def)
  have old: "(mg_scanners m @ [s']) ! me_readerIdx e = mg_scanners m ! me_readerIdx e" if "e \<in> set (mg_heap m)" for e
    using wf that by (auto simp: merger_wf_def nth_append)
  have "merger_wf m'"
    using wf a(2,3,4) s(2) refill_heap [of "mg_heap m" s] distinct_refill [of "mg_heap m" s] new old sorted
    by (cases t) (auto simp: merger_wf_def m'_def nth_append less_Suc_eq set_refill s(3) head_entry_def)
  moreover have "complete m'"
    using Cons.prems(2) a(4) by (cases t) (auto simp: complete_def m'_def nth_append less_Suc_eq set_refill s(2,3) head_entry_def)
  moreover have "\<forall>i<length ss. fresh_scanner (ss ! i) (length (mg_scanners m') + i) (ts ! i)"
    using Cons.prems(3) tables by (auto simp: m'_def dest: spec [of _ "Suc _"])
  moreover have "pending m' = pending m + mset t"
    using a(4) by (cases t) (simp_all add: m'_def pending_def mset_refill s(3) heap_kv_def head_entry_def)
  ultimately show ?case
    unfolding step using Cons.IH [of m' ts] Cons.prems(4,5) tables by (simp add: ac_simps)
qed

lemma live_pending: "merger_wf m \<Longrightarrow> live m \<subseteq> set_mset (pending m)"
proof
  fix kv assume wf: "merger_wf m" and "kv \<in> live m"
  then obtain e where e: "e \<in> set (mg_heap m)" "kv = heap_kv e \<or> kv \<in> set (scanner_rest (mg_scanners m ! me_readerIdx e))"
    unfolding live_def by blast
  from e(1) wf have "mg_scanners m ! me_readerIdx e \<in> set (mg_scanners m)" by (simp add: merger_wf_def)
  with e show "kv \<in># pending m" by (auto simp: pending_def)
qed

lemma new_merger_ok:
  assumes tables: "list_all2 (table_scans B io fs) paths tables"
    and sorted: "\<forall>t\<in>set tables. sorted_wrt (<) (map fst t)"
  shows "merger_wf (new_merger B io fs paths) \<and> complete (new_merger B io fs paths)
    \<and> pending (new_merger B io fs paths) = mset (concat tables)"
proof -
  from open_scanners_ok [OF tables, of "[]"] obtain ss where ss: "open_scanners B io fs paths [] = ss"
    "length ss = length tables" "\<forall>i<length tables. fresh_scanner (ss ! i) i (tables ! i)" by auto
  have "merger_wf \<lparr>mg_scanners = [], mg_heap = []\<rparr>" "complete \<lparr>mg_scanners = [], mg_heap = []\<rparr>"
    by (simp_all add: merger_wf_def complete_def is_heap_def)
  from fill_heap_ok [OF this, of ss tables] ss sorted show ?thesis
    by (simp add: new_merger_def pending_def)
qed

lemma run_sorted_tables:
  assumes tables: "list_all2 (table_scans B io fs) paths tables"
    and sorted: "\<forall>t\<in>set tables. sorted_wrt (<) (map fst t)"
  shows "\<exists>out. sorted_wrt (<) (map fst out) \<and> set out \<subseteq> set (concat tables)
    \<and> merge_loop msg put (new_merger B io fs paths) = run_puts put out
    \<and> (distinct (map fst (concat tables)) \<longrightarrow> mset out = mset (concat tables))"
proof -
  let ?m = "new_merger B io fs paths"
  from new_merger_ok [OF tables sorted] have m: "merger_wf ?m" "complete ?m" "pending ?m = mset (concat tables)" by blast+
  from merge_loop_ascending [OF m(1), where put = put] obtain out where
    out: "sorted_wrt (<) (map fst out)" "set out \<subseteq> live ?m" "merge_loop msg put ?m = run_puts put out"
    "complete ?m \<longrightarrow> keys_unique (pending ?m) \<longrightarrow> mset out = pending ?m" by blast
  have "keys_unique (pending ?m)" if "distinct (map fst (concat tables))"
    using that unfolding m(3) keys_unique_mset .
  moreover have "set out \<subseteq> set (concat tables)"
    using out(2) live_pending [OF m(1)] unfolding m(3) set_mset_mset by (rule subset_trans)
  ultimately show ?thesis using out m(2,3) by (intro exI [of _ out]) simp
qed

lemma sort_key_unique:
  assumes "sorted_wrt (<) (map fst out)" and "mset out = mset (kvs :: kv list)"
  shows "out = sort_key fst kvs"
proof -
  have d: "distinct (map fst out)" using assms(1) by (simp add: strict_sorted_iff)
  with assms(2) have d': "distinct (map fst kvs)" by (metis mset_eq_imp_distinct_iff mset_map)
  have s: "set out = set (sort_key fst kvs)" using assms(2) by (metis mset_eq_setD set_sort)
  have "inj_on fst (set out)" using d by (simp add: distinct_map)
  moreover have "distinct (map fst (sort_key fst kvs))"
    using d' mset_eq_imp_distinct_iff [of "map fst (sort_key fst kvs)" "map fst kvs"] by simp
  ultimately show ?thesis
    using map_sorted_distinct_set_unique [of fst out "sort_key fst kvs"] assms(1) d s
    by (simp add: strict_sorted_iff)
qed


section \<open>Properties\<close>

lemma fold_collect:
  "fold (\<lambda>(k, v) st. bindS st (\<lambda>_ s. if v = [] then (Inr (), s) else collect k v s)) kvs (Inr (), acc)
   = (Inr (), acc @ filter (\<lambda>kv. snd kv \<noteq> []) kvs)"
  by (induction kvs arbitrary: acc) (auto simp: collect_def bindS_def)

lemma table_image_scans:
  assumes ok: "table_ok bs d" and B: "bloom_ok B" "bl_encode B b = Inr d" and io: "can_open io"
    and fs: "fs path = Some (table_image bs d)"
  shows "table_scans B io fs path (filter (\<lambda>kv. snd kv \<noteq> []) (concat bs))"
proof -
  from open_reader_image [OF ok B io] obtain bl where
    "open_reader B io (Some (table_image bs d)) = Inr (opened bs d bl)" by blast
  moreover have "sst_scan collect (opened bs d bl) [] = (Inr (), filter (\<lambda>kv. snd kv \<noteq> []) (concat bs))"
    using scan_blocks_image [OF ok, of "[]" bs collect bl "[]"] by (simp add: sst_scan_def opened_def fold_collect)
  ultimately show ?thesis by (auto simp: table_scans_def fs)
qed

text \<open>The scan of a written table: the entries with a value, in order.\<close>

lemma demo_scans:
  "fs path = Some (table_image [[([k], [v])]] [0]) \<Longrightarrow> table_scans tiny_bloom io_fine fs path [([k], [v])]"
  using table_image_scans [of "[[([k], [v])]]" "[0]" tiny_bloom 0 io_fine fs path] tiny_bloom_ok
  by (simp add: table_ok_def kv_ok_def table_image_def length_block_image index_image_def FooterSize_def
      io_fine_def can_open_def tiny_bloom_def)

text \<open>
  C13: Merging.  The merge of tables that open and scan, each strictly sorted as the writer
  makes them, hands strictly ascending entries to the writer and makes none up, whatever the
  tables share; when no key is in two tables it yields every entry of every table exactly
  once, in the order of the keys.
\<close>

theorem merge_sorted_union:
  assumes "list_all2 (table_scans B io fs) paths tables" and "\<forall>t\<in>set tables. sorted_wrt (<) (map fst t)"
  shows "(\<exists>out. sorted_wrt (<) (map fst out) \<and> set out \<subseteq> set (concat tables)
      \<and> merge_loop msg put (new_merger B io fs paths) s = run_puts put out s)
    \<and> (distinct (map fst (concat tables)) \<longrightarrow>
        merge_loop msg put (new_merger B io fs paths) s = run_puts put (sort_key fst (concat tables)) s)"
proof -
  from run_sorted_tables [OF assms, where put = put] obtain out where
    out: "sorted_wrt (<) (map fst out)" "set out \<subseteq> set (concat tables)"
    "merge_loop msg put (new_merger B io fs paths) = run_puts put out"
    "distinct (map fst (concat tables)) \<longrightarrow> mset out = mset (concat tables)" by blast
  moreover have "out = sort_key fst (concat tables)" if "distinct (map fst (concat tables))"
    using sort_key_unique [OF out(1)] out(4) that by blast
  ultimately show ?thesis by auto
qed

theorem merge_sorted_union_witness:
  "merge_loop ''merge error'' collect (new_merger tiny_bloom io_fine
      [[1] \<mapsto> table_image [[([3], [4])]] [0], [2] \<mapsto> table_image [[([1], [2])]] [0]] [[1], [2]]) []
    = (Inr (), [([1], [2]), ([3], [4])])"
proof -
  let ?fs = "[[1] \<mapsto> table_image [[([3], [4])]] [0], [2] \<mapsto> table_image [[([1], [2])]] [0]] :: bytes \<rightharpoonup> bytes"
  have "list_all2 (table_scans tiny_bloom io_fine ?fs) [[1], [2]] [[([3], [4])], [([1], [2])]]"
    by (simp add: demo_scans)
  from merge_sorted_union [OF this, where msg = "''merge error''" and put = collect and s = "[]"] show ?thesis
    by (simp add: bindS_def collect_def)
qed

lemma heap_small:
  "heap_push key x [] = [x]"
  "key x = key y \<Longrightarrow> heap_push key x [y] = [y, x]"
  "heap_pop key [x] = (x, [])"
  "heap_pop key [x, y] = (x, [y])"
proof -
  show "heap_push key x [] = [x]" by (simp add: heap_push_def, subst heap_up.simps) simp
  show "key x = key y \<Longrightarrow> heap_push key x [y] = [y, x]"
    by (simp add: heap_push_def, subst heap_up.simps) simp
  show "heap_pop key [x] = (x, [])" by (simp add: heap_pop_def heap_swap_def, subst heap_down.simps) simp
  show "heap_pop key [x, y] = (x, [y])"
    by (simp add: heap_pop_def heap_swap_def Let_def heap_down.simps [of key 0 "Suc 0"])
qed

lemma single_run:
  assumes "mg_heap m = [e]" and "me_readerIdx e < length (mg_scanners m)"
    and "scanner_ok (mg_scanners m ! me_readerIdx e)" "sc_idx (mg_scanners m ! me_readerIdx e) = me_readerIdx e"
    and "scanner_rest (mg_scanners m ! me_readerIdx e) = kvs"
  shows "merge_loop msg put m = run_puts put (heap_kv e # kvs)"
  using assms
proof (induction kvs arbitrary: m e)
  case Nil
  have pop: "heap_pop me_key [e] = (e, [])" by (rule heap_small)
  from advance_Nil [OF Nil(3,5)] obtain er s' where "advance (mg_scanners m ! me_readerIdx e) = (Inl er, s')" by blast
  with Nil pop have "\<exists>m'. merger_next m = (Inr (heap_kv e), m') \<and> mg_heap m' = []"
    by (simp add: merger_next_def Let_def heap_kv_def drop_duplicates.simps [of _ "[]"])
  then obtain m' where m': "merger_next m = (Inr (heap_kv e), m')" "mg_heap m' = []" by blast
  from merge_loop_empty [OF m'(2), where put = put] m'(1) show ?case by (intro ext, subst merge_loop.simps) (simp add: heap_kv_def)
next
  case (Cons kv kvs)
  have pop: "heap_pop me_key [e] = (e, [])" by (rule heap_small)
  from advance_Cons [OF Cons.prems(3,5)] Cons.prems(4) obtain s' where s': "advance (mg_scanners m ! me_readerIdx e) = (Inr (), s')"
    "scanner_rest s' = kvs" "scanner_ok s'" "sc_idx s' = me_readerIdx e"
    "entry_of s' = \<lparr>me_key = fst kv, me_value = snd kv, me_readerIdx = me_readerIdx e\<rparr>" by auto
  define m' where "m' = m\<lparr>mg_scanners := (mg_scanners m)[me_readerIdx e := s'], mg_heap := [entry_of s']\<rparr>"
  have "merger_next m = (Inr (heap_kv e), m')"
    using Cons.prems(1,2) pop s'(1)
    by (simp add: merger_next_def Let_def heap_kv_def drop_duplicates.simps [of _ "[]"] m'_def heap_small)
  moreover have "merge_loop msg put m' = run_puts put (heap_kv (entry_of s') # kvs)"
    using Cons.prems(2) s' by (intro Cons.IH) (simp_all add: m'_def)
  moreover have "heap_kv (entry_of s') = kv" by (simp add: s'(5) heap_kv_def)
  ultimately show ?case by (intro ext, subst merge_loop.simps) (simp add: heap_kv_def)
qed

text \<open>
  C31: Duplicate keys.  When two tables begin with the same key, the merge yields the first
  table alone: not only is the other table's value of the key dropped, its scanner is never
  moved again and every later entry of that table is lost, although the comment promises to
  keep the newest value.
\<close>

theorem merge_shared_first_key:
  assumes t1: "table_scans B io fs p1 ((k, v1) # r1)" and t2: "table_scans B io fs p2 ((k, v2) # r2)"
  shows "merge_loop msg put (new_merger B io fs [p1, p2]) s = run_puts put ((k, v1) # r1) s"
proof -
  from open_scanners_ok [of B io fs "[p1, p2]" "[(k, v1) # r1, (k, v2) # r2]" "[]"] t1 t2 obtain ss where
    ss: "open_scanners B io fs [p1, p2] [] = ss" "length ss = 2"
    "\<forall>i<2. fresh_scanner (ss ! i) i ([(k, v1) # r1, (k, v2) # r2] ! i)" by auto
  then obtain s0 s1 where s01: "ss = [s0, s1]"
    by (auto simp: length_Suc_conv numeral_2_eq_2)
  with ss(3) have f: "fresh_scanner s0 0 ((k, v1) # r1)" "fresh_scanner s1 1 ((k, v2) # r2)"
    by (auto simp: less_2_cases_iff)
  from advance_Cons [of s0 "(k, v1)" r1] f(1) obtain s0' where s0': "advance s0 = (Inr (), s0')"
    "scanner_rest s0' = r1" "scanner_ok s0'" "sc_idx s0' = 0"
    "entry_of s0' = \<lparr>me_key = k, me_value = v1, me_readerIdx = 0\<rparr>" by (auto simp: fresh_scanner_def)
  from advance_Cons [of s1 "(k, v2)" r2] f(2) obtain s1' where s1': "advance s1 = (Inr (), s1')"
    "entry_of s1' = \<lparr>me_key = k, me_value = v2, me_readerIdx = 1\<rparr>" by (auto simp: fresh_scanner_def)
  let ?e0 = "entry_of s0'" and ?e1 = "entry_of s1'"
  have push: "heap_push me_key ?e0 [] = [?e0]" "heap_push me_key ?e1 [?e0] = [?e0, ?e1]"
    by (simp_all add: heap_small s0'(5) s1'(2))
  define m where "m = new_merger B io fs [p1, p2]"
  have m: "m = \<lparr>mg_scanners = [s0', s1'], mg_heap = [?e0, ?e1]\<rparr>"
    unfolding m_def new_merger_def ss(1) s01 using s0'(1) s1'(1) push by simp
  have pop: "heap_pop me_key [?e0, ?e1] = (?e0, [?e1])" "heap_pop me_key [?e1] = (?e1, [])"
    by (rule heap_small)+
  have drop: "drop_duplicates k [?e1] = []"
    unfolding drop_duplicates.simps [of k "[?e1]"] pop(2) by (simp add: drop_duplicates.simps [of k "[]"] s1'(2))
  show ?thesis
  proof (cases r1)
    case Nil
    from advance_Nil [OF s0'(3)] s0'(2) Nil obtain er s where "advance s0' = (Inl er, s)" by blast
    with m pop(1) drop have "\<exists>m'. merger_next m = (Inr (k, v1), m') \<and> mg_heap m' = []"
      by (simp add: merger_next_def Let_def s0'(5))
    then obtain m' where m': "merger_next m = (Inr (k, v1), m')" "mg_heap m' = []" by blast
    from merge_loop_empty [OF m'(2), where put = put] m'(1) Nil show ?thesis unfolding m_def [symmetric] by (subst merge_loop.simps) simp
  next
    case (Cons kv kvs)
    with advance_Cons [OF s0'(3)] s0'(2,4) obtain s where s: "advance s0' = (Inr (), s)" "scanner_rest s = kvs"
      "scanner_ok s" "sc_idx s = 0" "entry_of s = \<lparr>me_key = fst kv, me_value = snd kv, me_readerIdx = 0\<rparr>"
      by fastforce
    define m' where "m' = \<lparr>mg_scanners = [s, s1'], mg_heap = [entry_of s]\<rparr>"
    have "merger_next m = (Inr (k, v1), m')"
      using m pop(1) drop s(1) by (simp add: merger_next_def Let_def s0'(5) m'_def heap_small)
    moreover have "merge_loop msg put m' = run_puts put (heap_kv (entry_of s) # kvs)"
      using s by (intro single_run) (simp_all add: m'_def)
    moreover have "heap_kv (entry_of s) = kv" by (simp add: s(5) heap_kv_def)
    ultimately show ?thesis unfolding m_def [symmetric] Cons by (subst merge_loop.simps) simp
  qed
qed

theorem merge_shared_first_key_witness:
  "merge_loop ''merge error'' collect (new_merger tiny_bloom io_fine
      [[1] \<mapsto> table_image [[([3], [4])]] [0], [2] \<mapsto> table_image [[([3], [5])]] [0]] [[1], [2]]) []
    = (Inr (), [([3], [4])])"
proof -
  let ?fs = "[[1] \<mapsto> table_image [[([3], [4])]] [0], [2] \<mapsto> table_image [[([3], [5])]] [0]] :: bytes \<rightharpoonup> bytes"
  have "table_scans tiny_bloom io_fine ?fs [1] (([3], [4]) # [])" "table_scans tiny_bloom io_fine ?fs [2] (([3], [5]) # [])"
    by (simp_all add: demo_scans)
  from merge_shared_first_key [OF this, where msg = "''merge error''" and put = collect and s = "[]"] show ?thesis
    by (simp add: bindS_def collect_def)
qed

end
