(* ===== verification/Files.thy ===== *)
theory Files
  imports Bufio
begin

text \<open>
  The file system the table writer, the compactor, the manifest and the flusher share: a map
  from paths to contents, and \<open>filepath.Join\<close>, which cleans the path it builds.
\<close>

type_synonym filesys = "bytes \<rightharpoonup> bytes"

section \<open>Paths\<close>

definition slash :: byte where "slash = 47"

fun split_path :: "bytes \<Rightarrow> bytes \<Rightarrow> bytes list" where
  "split_path acc [] = [acc]"
| "split_path acc (b # bs) = (if b = slash then acc # split_path [] bs else split_path (acc @ [b]) bs)"

fun join_path :: "bytes list \<Rightarrow> bytes" where
  "join_path [] = []"
| "join_path [p] = p"
| "join_path (p # ps) = p @ slash # join_path ps"

text \<open>One element of a path; \<open>out\<close> is what is kept so far.\<close>

definition clean_step :: "bool \<Rightarrow> bytes list \<Rightarrow> bytes \<Rightarrow> bytes list" where
  "clean_step rooted out p =
     (if p = [] \<or> p = lit ''.'' then out
      else if p = lit ''..'' then
        (if out \<noteq> [] \<and> last out \<noteq> lit ''..'' then butlast out
         else if rooted then out else out @ [p])
      else out @ [p])"

definition path_clean :: "bytes \<Rightarrow> bytes" where
  "path_clean path =
     (let rooted = (path \<noteq> [] \<and> hd path = slash);
          out = foldl (clean_step rooted) [] (split_path [] path);
          cleaned = (if rooted then [slash] else []) @ join_path out
      in if cleaned = [] then lit ''.'' else cleaned)"

definition path_join :: "bytes \<Rightarrow> bytes \<Rightarrow> bytes" where
  \<comment> \<open>\<open>filepath.Join(dir, name)\<close>\<close>
  "path_join dir name =
     (if dir = [] \<and> name = [] then []
      else path_clean (join_path (filter (\<lambda>p. p \<noteq> []) [dir, name])))"

section \<open>Whole-file operations\<close>

text \<open>
  \<open>os.WriteFile\<close>, \<open>os.Rename\<close>, \<open>os.Remove\<close>, \<open>os.ReadFile\<close> and \<open>os.Stat\<close>.  A write that
  fails leaves the bytes it got to; a rename replaces its target in one step.
\<close>

definition write_file :: "wal_io \<Rightarrow> bytes \<Rightarrow> bytes \<Rightarrow> filesys \<Rightarrow> unit res \<times> filesys" where
  "write_file io path data fs =
     (if \<not> io_open_ok io then (Inl (Err ''open''), fs)
      else case file_write (io_room io) data [] of
        (ok, _, content, _) \<Rightarrow>
          (if \<not> ok then Inl (Err ''write'') else if \<not> io_close_ok io then Inl (Err ''close'') else Inr (),
           fs(path \<mapsto> content)))"

definition rename_file :: "wal_io \<Rightarrow> bytes \<Rightarrow> bytes \<Rightarrow> filesys \<Rightarrow> unit res \<times> filesys" where
  "rename_file io old new fs =
     (case fs old of
        None \<Rightarrow> (Inl (Err ''not exist''), fs)
      | Some d \<Rightarrow>
          if io_rename_ok io then (Inr (), (fs(old := None))(new \<mapsto> d)) else (Inl (Err ''rename''), fs))"

definition remove_file :: "wal_io \<Rightarrow> bytes \<Rightarrow> filesys \<Rightarrow> unit res \<times> filesys" where
  "remove_file io path fs =
     (case fs path of
        None \<Rightarrow> (Inl (Err ''not exist''), fs)
      | Some _ \<Rightarrow> if io_remove_ok io then (Inr (), fs(path := None)) else (Inl (Err ''remove''), fs))"

lemma remove_file_other [simp]: "p \<noteq> path \<Longrightarrow> snd (remove_file io path fs) p = fs p"
  by (simp add: remove_file_def split: option.splits)

lemma remove_file_gone: "io_remove_ok io \<Longrightarrow> snd (remove_file io path fs) path = None"
  by (simp add: remove_file_def split: option.splits)

lemma remove_file_cases: "snd (remove_file io path fs) p = fs p \<or> p = path \<and> snd (remove_file io path fs) p = None"
  by (simp add: remove_file_def split: option.splits)

lemma write_file_frame: "p \<noteq> path \<Longrightarrow> snd (write_file io path data fs) p = fs p"
  by (simp add: write_file_def split: prod.splits)

lemma write_file_ok: "write_file io path data fs = (Inr u, fs') \<Longrightarrow> fs' = fs(path \<mapsto> data)"
  by (auto simp: write_file_def dest: file_write_ok split: if_splits prod.splits)

end
