(* ===== verification/Compaction.thy ===== *)
theory Compaction
  imports Merger Files Graph_Types "HOL-Library.Sublist"
begin

text \<open>
  \<open>pkg/compaction/compaction.go\<close>.  Every operation that touches the table list holds
  \<open>tablesMu\<close>, so a compaction cycle is a state transformer.  \<open>sort.Slice\<close> is not stable: its
  result is an argument, any rearrangement sorted by size (\<open>size_order\<close>).  Sizes are lengths of
  files, so they are integers; the statistics are 64-bit words.  \<open>cp_stopCh\<close> says whether the
  stop channel has been closed.
\<close>

section \<open>State and operations\<close>

datatype strategy = StrategySizeTiered | StrategyLeveled | StrategyOther int

record table_info =
  ti_Path :: bytes
  ti_Size :: int
  ti_Level :: int
  ti_CreatedAt :: u64
  ti_NumEntries :: u64

record compactor =
  cp_dataDir :: bytes
  cp_strategy :: strategy
  cp_maxTableSize :: int
  cp_running :: bool
  cp_stopCh :: bool
  cp_tables :: "table_info list"
  cp_totalCompactions :: u64
  cp_totalBytesRead :: u64
  cp_totalBytesWritten :: u64
  cp_lastCompactionTime :: "u64 option"

record compaction_config =
  cc_DataDir :: bytes
  cc_Strategy :: strategy
  cc_MaxTableSize :: int
  cc_CheckInterval :: int

definition default_compaction_config :: compaction_config where
  "default_compaction_config =
     \<lparr>cc_DataDir = lit ''./data/sstables'', cc_Strategy = StrategySizeTiered,
      cc_MaxTableSize = 64 * 1024 * 1024, cc_CheckInterval = 30 * 1000000000\<rparr>"

definition new_compactor :: "compaction_config option \<Rightarrow> compactor" where
  "new_compactor config =
     (let config = (case config of None \<Rightarrow> default_compaction_config | Some c \<Rightarrow> c)
      in \<lparr>cp_dataDir = cc_DataDir config, cp_strategy = cc_Strategy config,
          cp_maxTableSize = cc_MaxTableSize config, cp_running = False, cp_stopCh = False,
          cp_tables = [], cp_totalCompactions = 0, cp_totalBytesRead = 0, cp_totalBytesWritten = 0,
          cp_lastCompactionTime = None\<rparr>)"

definition compactor_start :: "compactor \<Rightarrow> unit res \<times> compactor" where
  "compactor_start c =
     (if cp_running c then (Inl (Err ''compactor already running''), c)
      else (Inr (), c\<lparr>cp_running := True\<rparr>))"

definition compactor_stop :: "compactor \<Rightarrow> unit res \<times> compactor" where
  "compactor_stop c =
     (if \<not> cp_running c then (Inl (Err ''compactor not running''), c)
      else if cp_stopCh c then (Inl (Panic ''close of closed channel''), c\<lparr>cp_running := False\<rparr>)
      else (Inr (), c\<lparr>cp_running := False, cp_stopCh := True\<rparr>))"

definition register_table :: "u64 \<Rightarrow> bytes \<Rightarrow> int \<Rightarrow> u64 \<Rightarrow> compactor \<Rightarrow> compactor" where
  "register_table now path sz numEntries c =
     c\<lparr>cp_tables := cp_tables c @
        [\<lparr>ti_Path = path, ti_Size = sz, ti_Level = 0, ti_CreatedAt = now, ti_NumEntries = numEntries\<rparr>]\<rparr>"

definition should_compact :: "compactor \<Rightarrow> bool" where
  "should_compact c = (length (filter (\<lambda>t. ti_Level t = 0) (cp_tables c)) > 4)"

text \<open>The inner loop over \<open>j\<close>, then the outer one over \<open>i\<close>, which stops before the last table.\<close>

fun similar_group :: "int \<Rightarrow> table_info list \<Rightarrow> table_info list \<Rightarrow> table_info list" where
  "similar_group sz grp [] = grp"
| "similar_group sz grp (t # ts) =
     (if length grp \<ge> 4 then grp
      else similar_group sz (if ti_Size t \<le> sz * 2 then grp @ [t] else grp) ts)"

fun find_group :: "table_info list \<Rightarrow> table_info list" where
  "find_group [] = []"
| "find_group [t] = []"
| "find_group (t # ts) =
     (let grp = similar_group (ti_Size t) [t] ts
      in if length grp \<ge> 2 then grp else find_group ts)"

definition select_size_tiered :: "(table_info list \<Rightarrow> table_info list) \<Rightarrow> compactor \<Rightarrow> table_info list" where
  "select_size_tiered srt c = (if length (cp_tables c) < 2 then [] else find_group (srt (cp_tables c)))"

definition select_leveled :: "compactor \<Rightarrow> table_info list" where
  "select_leveled c =
     (let level0Tables = filter (\<lambda>t. ti_Level t = 0) (cp_tables c)
      in if length level0Tables \<ge> 4 then take 4 level0Tables else [])"

definition select_tables :: "(table_info list \<Rightarrow> table_info list) \<Rightarrow> compactor \<Rightarrow> table_info list res" where
  "select_tables srt c =
     (case cp_strategy c of
        StrategySizeTiered \<Rightarrow> Inr (select_size_tiered srt c)
      | StrategyLeveled \<Rightarrow> Inr (select_leveled c)
      | StrategyOther _ \<Rightarrow> Inl (Err ''unknown compaction strategy''))"

fun max_level :: "int \<Rightarrow> table_info list \<Rightarrow> int" where
  "max_level m [] = m"
| "max_level m (t # ts) = max_level (if ti_Level t > m then ti_Level t else m) ts"

definition calculate_new_level :: "table_info list \<Rightarrow> int" where
  "calculate_new_level tables = max_level 0 tables + 1"

definition compacted_path :: "compactor \<Rightarrow> u64 \<Rightarrow> bytes" where
  "compacted_path c now =
     path_join (cp_dataDir c) (lit ''compacted-'' @ decimal (sint now) @ lit ''.sst'')"

text \<open>What is done with each merged entry: \<open>Add\<close>, then count the bytes read.\<close>

definition compact_put :: "'b bloom \<Rightarrow> bytes \<Rightarrow> bytes \<Rightarrow> 'b sst_writer \<times> u64 \<Rightarrow> unit res \<times> ('b sst_writer \<times> u64)" where
  "compact_put B key val s =
     (case sst_add B key val (fst s) of
        (Inl e, w) \<Rightarrow> (wrapE ''failed to write entry'' (Inl e), (w, snd s))
      | (Inr _, w) \<Rightarrow> (Inr (), (w, snd s + word_of_nat (length key + length val))))"

definition compact_tables ::
  "'b bloom \<Rightarrow> wal_io \<Rightarrow> u64 \<Rightarrow> table_info list \<Rightarrow> compactor \<Rightarrow> filesys \<Rightarrow> table_info res \<times> compactor \<times> filesys" where
  "compact_tables B io now tables c fs =
     (let outputPath = compacted_path c now;
          totalEntries = foldl (\<lambda>n t. n + ti_NumEntries t) 0 tables
      in case wrapE ''failed to create writer'' (create_writer B io (unat totalEntries)) of
        Inl e \<Rightarrow> (Inl e, c, fs)
      | Inr w \<Rightarrow>
          (let fs = fs(outputPath \<mapsto> [])
           in case merge_loop ''merger error'' (compact_put B) (new_merger B io fs (map ti_Path tables)) (w, cp_totalBytesRead c) of
                (Inl e, w, n) \<Rightarrow>
                  \<comment> \<open>the deferred \<open>Close\<close>\<close>
                  (Inl e, c\<lparr>cp_totalBytesRead := n\<rparr>, fs(outputPath \<mapsto> sw_file (snd (sst_close B io w))))
              | (Inr _, w, n) \<Rightarrow>
                  (case sst_close B io w of
                     (Inl e, w) \<Rightarrow>
                       (wrapE ''failed to close writer'' (Inl e), c\<lparr>cp_totalBytesRead := n\<rparr>,
                        fs(outputPath \<mapsto> sw_file (snd (sst_close B io w))))
                   | (Inr _, w) \<Rightarrow>
                       if \<not> io_stat_ok io then
                         (Inl (Wrap ''failed to stat output file'' (Err ''stat'')), c\<lparr>cp_totalBytesRead := n\<rparr>,
                          fs(outputPath \<mapsto> sw_file w))
                       else
                         (Inr \<lparr>ti_Path = outputPath, ti_Size = int (length (sw_file w)),
                               ti_Level = calculate_new_level tables, ti_CreatedAt = now,
                               ti_NumEntries = entries_count w\<rparr>,
                          c\<lparr>cp_totalBytesRead := n,
                            cp_totalBytesWritten := cp_totalBytesWritten c + word_of_nat (length (sw_file w))\<rparr>,
                          fs(outputPath \<mapsto> sw_file w)))))"

fun remove_files :: "wal_io \<Rightarrow> bytes set \<Rightarrow> table_info list \<Rightarrow> filesys \<Rightarrow> filesys" where
  "remove_files io removeSet [] fs = fs"
| "remove_files io removeSet (t # ts) fs =
     (if ti_Path t \<notin> removeSet then remove_files io removeSet ts fs
      else remove_files io removeSet ts (snd (remove_file io (ti_Path t) fs)))"

definition remove_tables :: "wal_io \<Rightarrow> table_info list \<Rightarrow> compactor \<Rightarrow> filesys \<Rightarrow> compactor \<times> filesys" where
  "remove_tables io toRemove c fs =
     (let removeSet = ti_Path ` set toRemove
      in (c\<lparr>cp_tables := filter (\<lambda>t. ti_Path t \<notin> removeSet) (cp_tables c)\<rparr>,
          remove_files io removeSet (cp_tables c) fs))"

definition run_compaction ::
  "'b bloom \<Rightarrow> wal_io \<Rightarrow> (table_info list \<Rightarrow> table_info list) \<Rightarrow> u64 \<Rightarrow> compactor \<Rightarrow> filesys \<Rightarrow> unit res \<times> compactor \<times> filesys" where
  "run_compaction B io srt now c fs =
     (if \<not> should_compact c then (Inr (), c, fs)
      else case select_tables srt c of
        Inl e \<Rightarrow> (Inl e, c, fs)
      | Inr tablesToCompact \<Rightarrow>
          if length tablesToCompact < 2 then (Inr (), c, fs)
          else case compact_tables B io now tablesToCompact c fs of
            (Inl e, c, fs) \<Rightarrow> (wrapE ''failed to compact tables'' (Inl e), c, fs)
          | (Inr newTable, c, fs) \<Rightarrow>
              (case remove_tables io tablesToCompact c fs of
                 (c, fs) \<Rightarrow>
                   (Inr (), c\<lparr>cp_tables := cp_tables c @ [newTable],
                              cp_totalCompactions := cp_totalCompactions c + 1,
                              cp_lastCompactionTime := Some now\<rparr>, fs)))"

record compaction_stats =
  cs_TotalCompactions :: u64
  cs_TotalBytesRead :: u64
  cs_TotalBytesWritten :: u64
  cs_LastCompactionTime :: "u64 option"
  cs_NumTables :: nat
  cs_TotalTableSize :: int

definition stats_of_compactor :: "compactor \<Rightarrow> compaction_stats" where
  "stats_of_compactor c =
     \<lparr>cs_TotalCompactions = cp_totalCompactions c, cs_TotalBytesRead = cp_totalBytesRead c,
      cs_TotalBytesWritten = cp_totalBytesWritten c, cs_LastCompactionTime = cp_lastCompactionTime c,
      cs_NumTables = length (cp_tables c),
      cs_TotalTableSize = foldl (\<lambda>n t. n + ti_Size t) 0 (cp_tables c)\<rparr>"

definition get_tables :: "compactor \<Rightarrow> table_info list" where
  "get_tables c = cp_tables c"


section \<open>Selection\<close>

definition size_order :: "(table_info list \<Rightarrow> table_info list) \<Rightarrow> bool" where
  "size_order srt \<longleftrightarrow> (\<forall>ts. mset (srt ts) = mset ts \<and> sorted (map ti_Size (srt ts)))"

lemma sort_key_size_order: "size_order (sort_key ti_Size)"
  by (simp add: size_order_def)

lemma similar_group_spec:
  "length grp \<le> 4 \<Longrightarrow>
   (\<exists>picked. similar_group sz grp ts = grp @ picked \<and> subseq picked ts \<and> (\<forall>t\<in>set picked. ti_Size t \<le> sz * 2)
     \<and> length (grp @ picked) \<le> 4
     \<and> (length (grp @ picked) < 4 \<longrightarrow> picked = filter (\<lambda>t. ti_Size t \<le> sz * 2) ts))"
proof (induction ts arbitrary: grp)
  case Nil
  then show ?case by simp
next
  case (Cons t ts)
  show ?case
  proof (cases "length grp \<ge> 4")
    case True
    with Cons.prems show ?thesis by (intro exI [of _ "[]"]) simp
  next
    case False
    show ?thesis
    proof (cases "ti_Size t \<le> sz * 2")
      case True
      from Cons.IH [of "grp @ [t]"] False obtain picked where
        "similar_group sz (grp @ [t]) ts = grp @ [t] @ picked" "subseq picked ts"
        "\<forall>t\<in>set picked. ti_Size t \<le> sz * 2" "length (grp @ [t] @ picked) \<le> 4"
        "length (grp @ [t] @ picked) < 4 \<longrightarrow> picked = filter (\<lambda>t. ti_Size t \<le> sz * 2) ts" by auto
      with False True show ?thesis by (intro exI [of _ "t # picked"]) auto
    next
      case small: False
      from Cons.IH [of grp] Cons.prems obtain picked where
        "similar_group sz grp ts = grp @ picked" "subseq picked ts"
        "\<forall>t\<in>set picked. ti_Size t \<le> sz * 2" "length (grp @ picked) \<le> 4"
        "length (grp @ picked) < 4 \<longrightarrow> picked = filter (\<lambda>t. ti_Size t \<le> sz * 2) ts" by auto
      with False small show ?thesis by (intro exI [of _ picked]) auto
    qed
  qed
qed

lemma subseq_mset: "subseq xs ys \<Longrightarrow> mset xs \<subseteq># mset ys"
  by (induction rule: list_emb.induct) (auto intro: subset_mset.order_trans)

lemma subseq_set: "subseq xs ys \<Longrightarrow> set xs \<subseteq> set ys"
  by (induction rule: list_emb.induct) auto

lemma subseq_sorted_wrt: "subseq xs ys \<Longrightarrow> sorted_wrt P ys \<Longrightarrow> sorted_wrt P xs"
  by (induction rule: list_emb.induct) (auto dest: subseq_set)

lemma find_group_empty: "find_group ts = [] \<longleftrightarrow> sorted_wrt (\<lambda>x y. 2 * ti_Size x < ti_Size y) ts"
  and find_group_some: "find_group ts \<noteq> [] \<Longrightarrow>
    (\<exists>t picked. find_group ts = t # picked \<and> picked \<noteq> [] \<and> length picked \<le> 3 \<and> subseq (find_group ts) ts
      \<and> (\<forall>x\<in>set picked. ti_Size x \<le> 2 * ti_Size t))"
proof (induction ts rule: find_group.induct)
  case (3 t v ts)
  let ?ts = "v # ts"
  from similar_group_spec [of "[t]" "ti_Size t" ?ts] obtain picked where
    p: "similar_group (ti_Size t) [t] ?ts = t # picked" "subseq picked ?ts" "\<forall>x\<in>set picked. ti_Size x \<le> ti_Size t * 2"
    "length picked \<le> 3" "length picked < 3 \<longrightarrow> picked = filter (\<lambda>x. ti_Size x \<le> ti_Size t * 2) ?ts" by auto
  have fg: "find_group (t # ?ts) = (if picked = [] then find_group ?ts else t # picked)"
    using p(1) by (cases picked) simp_all
  have pe: "picked = [] \<longleftrightarrow> (\<forall>x\<in>set ?ts. 2 * ti_Size t < ti_Size x)"
  proof
    assume "picked = []"
    with p(5) have "filter (\<lambda>x. ti_Size x \<le> ti_Size t * 2) ?ts = []" by (metis list.size(3) zero_less_numeral)
    then have "\<forall>x\<in>set ?ts. \<not> ti_Size x \<le> ti_Size t * 2" unfolding filter_empty_conv .
    then show "\<forall>x\<in>set ?ts. 2 * ti_Size t < ti_Size x" by (simp add: not_le mult.commute)
  next
    assume gt: "\<forall>x\<in>set ?ts. 2 * ti_Size t < ti_Size x"
    show "picked = []"
    proof (rule ccontr)
      assume "picked \<noteq> []"
      then have "hd picked \<in> set picked" by simp
      moreover from this have p2: "hd picked \<in> set picked" .
      moreover from p(2) p2 have "hd picked \<in> set ?ts" using subseq_set by blast
      ultimately show False using p(3) gt by force
    qed
  qed
  { case 1
    show ?case
    proof (cases "picked = []")
      case True
      then have "length (similar_group (ti_Size t) [t] ?ts) < 2" using p(1) by simp
      with 3(1) [OF refl] True pe fg show ?thesis by simp
    next
      case False
      with pe fg show ?thesis by auto
    qed
  next
    case 2
    show ?case
    proof (cases "picked = []")
      case True
      then have "length (similar_group (ti_Size t) [t] ?ts) < 2" using p(1) by simp
      with 3(2) [OF refl] True fg 2 show ?thesis by (auto intro: list_emb_Cons)
    next
      case False
      with p fg show ?thesis by (intro exI [of _ t] exI [of _ picked]) (auto simp: mult.commute)
    qed
  }
qed simp_all

lemma size_tiered_group:
  assumes srt: "size_order srt"
  shows "(select_size_tiered srt c = [] \<longleftrightarrow>
      sorted_wrt (\<lambda>x y. 2 * ti_Size x < ti_Size y) (srt (cp_tables c)))
    \<and> (select_size_tiered srt c \<noteq> [] \<longrightarrow>
        2 \<le> length (select_size_tiered srt c) \<and> length (select_size_tiered srt c) \<le> 4
        \<and> mset (select_size_tiered srt c) \<subseteq># mset (cp_tables c)
        \<and> (\<forall>t\<in>set (tl (select_size_tiered srt c)).
            ti_Size (hd (select_size_tiered srt c)) \<le> ti_Size t
            \<and> ti_Size t \<le> 2 * ti_Size (hd (select_size_tiered srt c))))"
proof (cases "length (cp_tables c) < 2")
  case True
  from srt have "length (srt (cp_tables c)) = length (cp_tables c)"
    unfolding size_order_def by (metis size_mset)
  with True have "sorted_wrt (\<lambda>x y. 2 * ti_Size x < ti_Size y) (srt (cp_tables c))"
    by (cases "srt (cp_tables c)" rule: find_group.cases) simp_all
  with True show ?thesis by (simp add: select_size_tiered_def)
next
  case False
  let ?ts = "srt (cp_tables c)"
  have sel: "select_size_tiered srt c = find_group ?ts" using False by (simp add: select_size_tiered_def)
  from srt have ms: "mset ?ts = mset (cp_tables c)" and sorted: "sorted (map ti_Size ?ts)"
    by (simp_all add: size_order_def)
  show ?thesis
  proof (cases "find_group ?ts = []")
    case True
    with sel find_group_empty [of ?ts] show ?thesis by simp
  next
    case ne: False
    from find_group_some [OF ne] obtain t picked where g: "find_group ?ts = t # picked" "picked \<noteq> []"
      "length picked \<le> 3" "subseq (t # picked) ?ts" "\<forall>x\<in>set picked. ti_Size x \<le> 2 * ti_Size t" by auto
    have "mset (t # picked) \<subseteq># mset (cp_tables c)"
      using subseq_mset [OF g(4)] ms by simp
    moreover have "sorted (map ti_Size (t # picked))"
      using subseq_sorted_wrt [OF subseq_map [OF g(4)] sorted] .
    moreover have "2 \<le> length (t # picked)" using g(2) by (cases picked) simp_all
    ultimately show ?thesis using sel g find_group_empty [of ?ts] ne by simp
  qed
qed

definition demo_tables :: "bytes \<Rightarrow> compactor" where
  "demo_tables ps = foldl (\<lambda>c p. register_table 0 [p] (int (unat p)) 1 c) (new_compactor None) ps"

text \<open>
  C32: Size-tiered selection.  Whatever order \<open>sort.Slice\<close> leaves equal sizes in, the selection
  finds a group exactly when two of the tables are within a factor of two of each other; the
  group then has two to four of the tables, none taken twice, and each is at most twice as
  large as the first, the smallest.
\<close>

theorem size_tiered_selection:
  assumes srt: "size_order srt"
  shows "(select_size_tiered srt c = [] \<longleftrightarrow>
      sorted_wrt (\<lambda>x y. 2 * ti_Size x < ti_Size y) (srt (cp_tables c)))
    \<and> (select_size_tiered srt c \<noteq> [] \<longrightarrow>
        2 \<le> length (select_size_tiered srt c) \<and> length (select_size_tiered srt c) \<le> 4
        \<and> mset (select_size_tiered srt c) \<subseteq># mset (cp_tables c)
        \<and> (\<forall>t\<in>set (tl (select_size_tiered srt c)).
            ti_Size (hd (select_size_tiered srt c)) \<le> ti_Size t
            \<and> ti_Size t \<le> 2 * ti_Size (hd (select_size_tiered srt c))))"
  by (rule size_tiered_group [OF srt])

theorem size_tiered_selection_witness:
  "select_size_tiered (sort_key ti_Size) (demo_tables [100, 10, 15]) \<noteq> []
   \<and> \<not> size_order (\<lambda>ts. [])"
proof -
  have "\<not> sorted_wrt (\<lambda>x y. 2 * ti_Size x < ti_Size y) (sort_key ti_Size (cp_tables (demo_tables [100, 10, 15])))"
    by (simp add: demo_tables_def register_table_def new_compactor_def)
  moreover have "\<not> size_order (\<lambda>ts. [])"
    unfolding size_order_def by (metis list.distinct(1) mset_zero_iff mset.simps(1))
  ultimately show ?thesis
    using size_tiered_selection [OF sort_key_size_order, of "demo_tables [100, 10, 15]"] by blast
qed

section \<open>A compaction cycle\<close>

lemma max_level_spec: "max_level m ts = foldl max m (map ti_Level ts)"
  by (induction m ts rule: max_level.induct) (simp_all add: max_def)

lemma remove_files_frame: "p \<notin> S \<Longrightarrow> remove_files io S ts fs p = fs p"
proof (induction ts arbitrary: fs)
  case (Cons t ts)
  then show ?case by (cases "ti_Path t \<in> S") (auto intro!: remove_file_other)
qed simp

lemma remove_files_gone:
  assumes "io_remove_ok io" and "p \<in> S" and "p \<in> ti_Path ` set ts \<or> fs p = None"
  shows "remove_files io S ts fs p = None"
  using assms(3)
proof (induction ts arbitrary: fs)
  case (Cons t ts)
  show ?case
  proof (cases "ti_Path t \<in> S")
    case True
    have "snd (remove_file io (ti_Path t) fs) p = None" if "p = ti_Path t \<or> fs p = None"
      using that remove_file_gone [OF assms(1), of "ti_Path t" fs] remove_file_cases [of io "ti_Path t" fs p] by auto
    with Cons True show ?thesis by auto
  next
    case False
    with Cons assms(2) show ?thesis by auto
  qed
qed simp

lemma run_puts_compact:
  "add_all B kvs w = (Inr (), w') \<Longrightarrow> \<exists>n'. run_puts (compact_put B) kvs (w, n) = (Inr (), (w', n'))"
proof (induction kvs arbitrary: w n)
  case (Cons kv kvs)
  obtain k v where kv: "kv = (k, v)" by force
  from Cons.prems kv obtain w1 where w1: "sst_add B k v w = (Inr (), w1)" "add_all B kvs w1 = (Inr (), w')"
    by (auto simp: bindE_iff)
  from Cons.IH [OF w1(2)] obtain n' where
    "run_puts (compact_put B) kvs (w1, n + word_of_nat (length k + length v)) = (Inr (), (w', n'))" by blast
  moreover have "compact_put B k v (w, n) = (Inr (), w1, n + word_of_nat (length k + length v))"
    using w1(1) by (simp add: compact_put_def)
  ultimately show ?case by (simp add: kv)
qed simp

text \<open>Tables that do not open are skipped.\<close>

lemma open_scanners_skip:
  "open_scanners B io fs paths ss = open_scanners B io fs (filter (\<lambda>p. succeeds (open_reader B io (fs p))) paths) ss"
  by (induction paths arbitrary: ss) (auto simp: succeeds_def split: sum.splits)

lemma new_merger_skip:
  "new_merger B io fs paths = new_merger B io fs (filter (\<lambda>p. succeeds (open_reader B io (fs p))) paths)"
  unfolding new_merger_def using open_scanners_skip [of B io fs paths] by simp

lemma table_scans_upd: "p \<noteq> out \<Longrightarrow> table_scans B io (fs(out := d)) p t = table_scans B io fs p t"
  by (simp add: table_scans_def)

definition no_faults :: "wal_io \<Rightarrow> bool" where
  "no_faults io \<longleftrightarrow> io_room io = None \<and> io_sync_ok io \<and> io_close_ok io \<and> io_open_ok io \<and> io_remove_ok io
     \<and> io_mkdir_ok io \<and> io_stat_ok io \<and> io_mmap_ok io"

definition fits_format :: "kv list \<Rightarrow> bool" where
  \<comment> \<open>the format's 32-bit fields\<close>
  "fits_format kvs \<longleftrightarrow> list_all kv_ok kvs \<and> (\<forall>kv\<in>set kvs. length (fst kv) + 20 < 2 ^ 32) \<and> length kvs < 2 ^ 32"

lemma compact_tables_ok:
  assumes B: "bloom_ok B" and enc: "\<And>b. \<exists>d. bl_encode B b = Inr d" and io: "no_faults io"
    and readable: "list_all2 (table_scans B io fs)
      (filter (\<lambda>p. succeeds (open_reader B io (fs p))) (map ti_Path tables)) contents"
    and sorted: "\<forall>t\<in>set contents. sorted_wrt (<) (map fst t)"
    and live: "\<forall>kv\<in>set (concat contents). snd kv \<noteq> []"
    and dist: "distinct (map fst (concat contents))" and fits: "fits_format (concat contents)"
    and out: "out = compacted_path c now" "out \<notin> ti_Path ` set tables"
  obtains n d where "compact_tables B io now tables c fs =
      (Inr \<lparr>ti_Path = out, ti_Size = int (length d), ti_Level = calculate_new_level tables, ti_CreatedAt = now,
            ti_NumEntries = word_of_nat (length (concat contents))\<rparr>,
       c\<lparr>cp_totalBytesRead := n, cp_totalBytesWritten := cp_totalBytesWritten c + word_of_nat (length d)\<rparr>,
       fs(out \<mapsto> d))"
    "length d < 2 ^ 64 \<longrightarrow> table_scans B io (fs(out \<mapsto> d)) out (sort_key fst (concat contents))"
proof -
  let ?kvs = "sort_key fst (concat contents)" and ?fs = "fs(out \<mapsto> [])"
  let ?N = "unat (foldl (\<lambda>n t. n + ti_NumEntries t) 0 tables)"
  have fs': "\<forall>p\<in>set (map ti_Path tables). ?fs p = fs p" using out(2) by auto
  then have filt: "filter (\<lambda>p. succeeds (open_reader B io (?fs p))) (map ti_Path tables)
      = filter (\<lambda>p. succeeds (open_reader B io (fs p))) (map ti_Path tables)"
    by (intro filter_cong) auto
  have "list_all2 (table_scans B io ?fs)
      (filter (\<lambda>p. succeeds (open_reader B io (?fs p))) (map ti_Path tables)) contents"
    unfolding filt using readable
  proof (rule list.rel_mono_strong)
    fix p t assume "p \<in> set (filter (\<lambda>p. succeeds (open_reader B io (fs p))) (map ti_Path tables))" "table_scans B io fs p t"
    with out(2) have "p \<noteq> out" by auto
    from table_scans_upd [OF this] \<open>table_scans B io fs p t\<close> show "table_scans B io ?fs p t" by blast
  qed
  from run_sorted_tables [OF this sorted, where msg = "''merger error''" and put = "compact_put B"] obtain kvs where
    kvs: "sorted_wrt (<) (map fst kvs)" "mset kvs = mset (concat contents)"
    "merge_loop ''merger error'' (compact_put B) (new_merger B io ?fs (map ti_Path tables)) = run_puts (compact_put B) kvs"
    using dist new_merger_skip [of B io ?fs "map ti_Path tables"] by auto
  have eq: "kvs = ?kvs" using sort_key_unique [OF kvs(1,2)] .
  have set: "set kvs = set (concat contents)" using kvs(2) by (metis set_mset_mset)
  have len: "length kvs = length (concat contents)" using kvs(2) by (metis size_mset)
  have ok: "list_all kv_ok kvs" "\<forall>kv\<in>set kvs. length (fst kv) + 20 < 2 ^ 32" "length kvs < 2 ^ 32"
    using fits set len unfolding fits_format_def list_all_iff by simp_all
  have io': "io_sync_ok io" "io_close_ok io" "can_open io" using io by (simp_all add: no_faults_def can_open_def)
  obtain w1 w2 where
    w1: "add_all B kvs (new_writer B None ?N) = (Inr (), w1)" and w2: "sst_close B io w1 = (Inr (), w2)"
    and "sw_closed w2" and count: "entries_count w2 = word_of_nat (length kvs)"
    and table: "length (sw_file w2) < 2 ^ 64 \<longrightarrow> (\<exists>bs d. table_ok bs d \<and> concat bs = kvs \<and> sw_file w2 = table_image bs d
       \<and> bl_encode B (sw_bloom w1) = Inr d \<and> (\<forall>kv\<in>set kvs. bl_test B (fst kv) (sw_bloom w1)))"
    by (rule healthy_table [OF B enc io'(1,2) ok(1) kvs(1) ok(2,3), where n = ?N])
  from run_puts_compact [OF w1, of "cp_totalBytesRead c"] obtain n where
    "run_puts (compact_put B) kvs (new_writer B None ?N, cp_totalBytesRead c) = (Inr (), w1, n)" by blast
  then have run: "merge_loop ''merger error'' (compact_put B) (new_merger B io ?fs (map ti_Path tables))
      (new_writer B None ?N, cp_totalBytesRead c) = (Inr (), w1, n)" by (simp only: kvs(3))
  have create: "create_writer B io ?N = Inr (new_writer B None ?N)" and stat: "io_stat_ok io"
    using io by (simp_all add: create_writer_def no_faults_def)
  have "compact_tables B io now tables c fs =
      (Inr \<lparr>ti_Path = out, ti_Size = int (length (sw_file w2)), ti_Level = calculate_new_level tables, ti_CreatedAt = now,
            ti_NumEntries = word_of_nat (length (concat contents))\<rparr>,
       c\<lparr>cp_totalBytesRead := n, cp_totalBytesWritten := cp_totalBytesWritten c + word_of_nat (length (sw_file w2))\<rparr>,
       fs(out \<mapsto> sw_file w2))"
    unfolding compact_tables_def Let_def out(1) [symmetric] create wrapE_Inr sum.case run prod.case w2
    by (simp only: stat not_True_eq_False if_False count len sum.case prod.case fun_upd_upd)
  moreover have "table_scans B io (fs(out \<mapsto> sw_file w2)) out ?kvs" if "length (sw_file w2) < 2 ^ 64"
  proof -
    from table that obtain bs d where t: "table_ok bs d" "concat bs = kvs" "sw_file w2 = table_image bs d"
      "bl_encode B (sw_bloom w1) = Inr d" by blast
    from table_image_scans [OF t(1) B t(4) io'(3), of "fs(out \<mapsto> sw_file w2)" out] t(3)
    have "table_scans B io (fs(out \<mapsto> sw_file w2)) out (filter (\<lambda>kv. snd kv \<noteq> []) kvs)" by (simp add: t(2))
    moreover have "filter (\<lambda>kv. snd kv \<noteq> []) kvs = kvs" using live set by (simp add: filter_id_conv)
    ultimately show ?thesis by (simp add: eq)
  qed
  ultimately show thesis using that by blast
qed

text \<open>What a cycle is given: a healthy device and a selection whose tables share no key.\<close>

definition compaction_inputs :: "'b bloom \<Rightarrow> wal_io \<Rightarrow> (table_info list \<Rightarrow> table_info list) \<Rightarrow> u64 \<Rightarrow> compactor \<Rightarrow> filesys
    \<Rightarrow> table_info list \<Rightarrow> kv list list \<Rightarrow> bool" where
  "compaction_inputs B io srt now c fs tables contents \<longleftrightarrow>
     no_faults io \<and> should_compact c \<and> select_tables srt c = Inr tables \<and> 2 \<le> length tables
     \<and> set tables \<subseteq> set (cp_tables c) \<and> compacted_path c now \<notin> ti_Path ` set (cp_tables c)
     \<and> (\<forall>t\<in>set contents. sorted_wrt (<) (map fst t)) \<and> (\<forall>kv\<in>set (concat contents). snd kv \<noteq> [])
     \<and> distinct (map fst (concat contents)) \<and> fits_format (concat contents)"

lemma run_compaction_ok:
  assumes B: "bloom_ok B" and enc: "\<And>b. \<exists>d. bl_encode B b = Inr d"
    and inp: "compaction_inputs B io srt now c fs tables contents"
    and readable: "list_all2 (table_scans B io fs)
      (filter (\<lambda>p. succeeds (open_reader B io (fs p))) (map ti_Path tables)) contents"
    and out: "out = compacted_path c now"
  shows "\<exists>c' fs' d. run_compaction B io srt now c fs = (Inr (), c', fs') \<and> fs' out = Some d
    \<and> cp_tables c' = filter (\<lambda>t. ti_Path t \<notin> ti_Path ` set tables) (cp_tables c)
        @ [\<lparr>ti_Path = out, ti_Size = int (length d), ti_Level = calculate_new_level tables, ti_CreatedAt = now,
            ti_NumEntries = word_of_nat (length (concat contents))\<rparr>]
    \<and> (\<forall>p. p \<noteq> out \<longrightarrow> fs' p = (if p \<in> ti_Path ` set tables then None else fs p))
    \<and> (length d < 2 ^ 64 \<longrightarrow> table_scans B io fs' out (sort_key fst (concat contents)))"
proof -
  note I = inp [unfolded compaction_inputs_def]
  have io: "no_faults io" and rm: "io_remove_ok io" using I by (simp_all add: no_faults_def)
  have nout: "out \<notin> ti_Path ` set tables"
  proof
    assume "out \<in> ti_Path ` set tables"
    with I have "out \<in> ti_Path ` set (cp_tables c)" by blast
    with I show False unfolding out by blast
  qed
  from I have sorted: "\<forall>t\<in>set contents. sorted_wrt (<) (map fst t)"
    and live: "\<forall>kv\<in>set (concat contents). snd kv \<noteq> []"
    and dist: "distinct (map fst (concat contents))" and fits: "fits_format (concat contents)" by blast+
  obtain n d where ct: "compact_tables B io now tables c fs =
      (Inr \<lparr>ti_Path = out, ti_Size = int (length d), ti_Level = calculate_new_level tables, ti_CreatedAt = now,
            ti_NumEntries = word_of_nat (length (concat contents))\<rparr>,
       c\<lparr>cp_totalBytesRead := n, cp_totalBytesWritten := cp_totalBytesWritten c + word_of_nat (length d)\<rparr>,
       fs(out \<mapsto> d))"
    and scans: "length d < 2 ^ 64 \<longrightarrow> table_scans B io (fs(out \<mapsto> d)) out (sort_key fst (concat contents))"
    by (rule compact_tables_ok [OF B enc io readable sorted live dist fits out nout])
  let ?S = "ti_Path ` set tables" and ?fs = "fs(out \<mapsto> d)"
  define fs' where "fs' = remove_files io ?S (cp_tables c) ?fs"
  have fs'_out: "fs' out = Some d" using remove_files_frame [OF nout] by (simp add: fs'_def)
  have gone: "fs' p = None" if "p \<in> ?S" for p
  proof -
    from that I have "p \<in> ti_Path ` set (cp_tables c)" by blast
    from remove_files_gone [OF rm that disjI1, OF this] show ?thesis unfolding fs'_def .
  qed
  have other: "fs' p = fs p" if "p \<notin> ?S" "p \<noteq> out" for p
    using that remove_files_frame [OF that(1)] by (simp add: fs'_def)
  have sc: "table_scans B io fs' out t = table_scans B io ?fs out t" for t
    by (simp add: table_scans_def fs'_out)
  have "run_compaction B io srt now c fs = (Inr (), (c\<lparr>cp_totalBytesRead := n,
      cp_totalBytesWritten := cp_totalBytesWritten c + word_of_nat (length d),
      cp_tables := filter (\<lambda>t. ti_Path t \<notin> ?S) (cp_tables c) @
        [\<lparr>ti_Path = out, ti_Size = int (length d), ti_Level = calculate_new_level tables, ti_CreatedAt = now,
            ti_NumEntries = word_of_nat (length (concat contents))\<rparr>],
      cp_totalCompactions := cp_totalCompactions c + 1, cp_lastCompactionTime := Some now\<rparr>), fs')"
  proof -
    have "should_compact c" "select_tables srt c = Inr tables" "\<not> length tables < 2" using I by simp_all
    then show ?thesis
      unfolding run_compaction_def by (simp only: ct remove_tables_def Let_def fs'_def not_True_eq_False if_False
          sum.case prod.case) simp
  qed
  moreover have "length d < 2 ^ 64 \<longrightarrow> table_scans B io fs' out (sort_key fst (concat contents))"
    using scans unfolding sc .
  moreover have "\<forall>p. p \<noteq> out \<longrightarrow> fs' p = (if p \<in> ?S then None else fs p)" using gone other by simp
  ultimately show ?thesis using fs'_out by (intro exI conjI) (assumption | simp)+
qed

lemma scanned_readable:
  "list_all2 (table_scans B io fs) paths contents \<Longrightarrow> \<forall>p\<in>set paths. succeeds (open_reader B io (fs p))"
  by (induction paths contents rule: list_all2_induct) (auto simp: table_scans_def succeeds_def)

lemma run_compaction_keeps:
  assumes B: "bloom_ok B" and enc: "\<And>b. succeeds (bl_encode B b)"
    and inp: "compaction_inputs B io srt now c fs tables contents"
    and readable: "list_all2 (table_scans B io fs) (map ti_Path tables) contents"
  shows "\<exists>c' fs' d. run_compaction B io srt now c fs = (Inr (), c', fs')
    \<and> fs' (compacted_path c now) = Some d
    \<and> cp_tables c' = filter (\<lambda>t. ti_Path t \<notin> ti_Path ` set tables) (cp_tables c)
        @ [\<lparr>ti_Path = compacted_path c now, ti_Size = int (length d), ti_Level = calculate_new_level tables,
            ti_CreatedAt = now, ti_NumEntries = word_of_nat (length (concat contents))\<rparr>]
    \<and> (\<forall>p. p \<noteq> compacted_path c now \<longrightarrow> fs' p = (if p \<in> ti_Path ` set tables then None else fs p))
    \<and> (length d < 2 ^ 64 \<longrightarrow> table_scans B io fs' (compacted_path c now) (sort_key fst (concat contents)))"
proof -
  have "\<forall>p\<in>set (map ti_Path tables). succeeds (open_reader B io (fs p))"
    using readable by (rule scanned_readable)
  then have "filter (\<lambda>p. succeeds (open_reader B io (fs p))) (map ti_Path tables) = map ti_Path tables"
    by (simp only: filter_id_conv)
  with readable have "list_all2 (table_scans B io fs)
      (filter (\<lambda>p. succeeds (open_reader B io (fs p))) (map ti_Path tables)) contents" by simp
  moreover have "\<exists>d. bl_encode B b = Inr d" for b
    using enc [of b] by (cases "bl_encode B b") (simp_all add: succeeds_def)
  ultimately show ?thesis using run_compaction_ok [OF B _ inp _ refl] by blast
qed

text \<open>
  C11: A compaction cycle keeps every entry of readable tables without common keys, on a device
  without faults.  When more than four tables are at level 0 and the strategy selects at least
  two tables, all of which open and scan, hold strictly sorted entries with nonempty values
  within the sizes of the format, and share no key, and no table has the path of the output, a
  cycle replaces them by one table at the next level, which opens and scans to exactly the union
  of their entries in key order; the input files are deleted, and every other table and file is
  as before.  (With a common first key, or a table that does not open, entries are lost; both
  are stated as properties of their own.)
\<close>

theorem compaction_keeps_entries:
  assumes B: "bloom_ok B" and enc: "\<And>b. succeeds (bl_encode B b)"
    and inp: "compaction_inputs B io srt now c fs tables contents"
    and readable: "list_all2 (table_scans B io fs) (map ti_Path tables) contents"
  shows "\<exists>c' fs' d. run_compaction B io srt now c fs = (Inr (), c', fs')
    \<and> fs' (compacted_path c now) = Some d
    \<and> cp_tables c' = filter (\<lambda>t. ti_Path t \<notin> ti_Path ` set tables) (cp_tables c)
        @ [\<lparr>ti_Path = compacted_path c now, ti_Size = int (length d), ti_Level = calculate_new_level tables,
            ti_CreatedAt = now, ti_NumEntries = word_of_nat (length (concat contents))\<rparr>]
    \<and> (\<forall>p. p \<noteq> compacted_path c now \<longrightarrow> fs' p = (if p \<in> ti_Path ` set tables then None else fs p))
    \<and> (length d < 2 ^ 64 \<longrightarrow> table_scans B io fs' (compacted_path c now) (sort_key fst (concat contents)))"
  by (rule run_compaction_keeps [OF assms])

lemma tiny_enc: "succeeds (bl_encode tiny_bloom b)"
  by (simp add: tiny_bloom_def succeeds_def)

definition demo_compactor :: compactor where
  "demo_compactor = foldl (\<lambda>c p. register_table 0 [p] 1 1 c)
     (new_compactor (Some (default_compaction_config\<lparr>cc_DataDir := [], cc_Strategy := StrategyLeveled\<rparr>))) [1, 2, 3, 4, 5]"

definition demo_files :: filesys where
  "demo_files = [[1] \<mapsto> table_image [[([4], [9])]] [0], [2] \<mapsto> table_image [[([2], [9])]] [0],
     [3] \<mapsto> table_image [[([3], [9])]] [0], [4] \<mapsto> table_image [[([1], [9])]] [0]]"

lemma demo_inputs:
  "set contents \<subseteq> {[([4], [9])], [([2], [9])], [([3], [9])], [([1], [9])]} \<Longrightarrow> distinct (map fst (concat contents)) \<Longrightarrow>
   length (concat contents) < 2 ^ 32 \<Longrightarrow>
   compaction_inputs tiny_bloom io_fine id 0 demo_compactor fs
     (take 4 (cp_tables demo_compactor)) contents"
proof -
  assume c: "set contents \<subseteq> {[([4], [9])], [([2], [9])], [([3], [9])], [([1], [9])]}"
    "distinct (map fst (concat contents))" "length (concat contents) < 2 ^ 32"
  have "compacted_path demo_compactor 0 \<notin> {[1], [2], [3], [4], [5]}" by code_simp
  moreover have "ti_Path ` set (cp_tables demo_compactor) = {[1], [2], [3], [4], [5]}"
    by (auto simp: demo_compactor_def register_table_def new_compactor_def)
  moreover have "\<forall>kv\<in>set (concat contents). kv_ok kv \<and> length (fst kv) + 20 < 2 ^ 32 \<and> snd kv \<noteq> []"
    using c(1) by (auto simp: kv_ok_def)
  moreover have "\<forall>t\<in>set contents. sorted_wrt (<) (map fst t)" using c(1) by auto
  ultimately show ?thesis
    using c(2,3) by (simp add: compaction_inputs_def fits_format_def list_all_iff no_faults_def io_fine_def)
      (simp add: demo_compactor_def register_table_def new_compactor_def should_compact_def select_tables_def
        select_leveled_def)
qed

theorem compaction_keeps_entries_witness:
  "\<exists>c' fs'. run_compaction tiny_bloom io_fine id 0 demo_compactor demo_files = (Inr (), c', fs')
     \<and> length (cp_tables c') = 2 \<and> fs' [1] = None \<and> fs' [4] = None"
proof -
  let ?contents = "[[([4], [9])], [([2], [9])], [([3], [9])], [([1], [9])]] :: kv list list"
  have inp: "compaction_inputs tiny_bloom io_fine id 0 demo_compactor demo_files
     (take 4 (cp_tables demo_compactor)) ?contents"
    by (rule demo_inputs) simp_all
  have "list_all2 (table_scans tiny_bloom io_fine demo_files) (map ti_Path (take 4 (cp_tables demo_compactor))) ?contents"
    by (simp add: demo_compactor_def register_table_def new_compactor_def demo_scans demo_files_def)
  from compaction_keeps_entries [OF tiny_bloom_ok tiny_enc inp this] obtain c' fs' d where
    r: "run_compaction tiny_bloom io_fine id 0 demo_compactor demo_files = (Inr (), c', fs')"
    "length (cp_tables c') = length (filter (\<lambda>t. ti_Path t \<notin> ti_Path ` set (take 4 (cp_tables demo_compactor))) (cp_tables demo_compactor)) + 1"
    "\<forall>p. p \<noteq> compacted_path demo_compactor 0 \<longrightarrow>
      fs' p = (if p \<in> ti_Path ` set (take 4 (cp_tables demo_compactor)) then None else demo_files p)"
    by auto
  have out: "[1] \<noteq> compacted_path demo_compactor 0" "[4] \<noteq> compacted_path demo_compactor 0" by code_simp+
  have sel: "ti_Path ` set (take 4 (cp_tables demo_compactor)) = {[1], [2], [3], [4]}"
    "length (filter (\<lambda>t. ti_Path t \<notin> {[1], [2], [3], [4]}) (cp_tables demo_compactor)) = 1"
    by (auto simp: demo_compactor_def register_table_def new_compactor_def)
  from r(3) out have "fs' [1] = None" "fs' [4] = None" unfolding sel(1) by simp_all
  moreover have "length (cp_tables c') = 2" using r(2) unfolding sel by simp
  ultimately show ?thesis using r(1) by blast
qed



section \<open>Errors and life cycle\<close>

text \<open>
  A failed cycle loses nothing.  Whatever goes wrong (the device fills up, the output
  cannot be created or closed, an entry is refused), a cycle that reports an error has left
  the table list and every file except the new output as they were.
\<close>

theorem failed_compaction_keeps_tables:
  assumes "run_compaction B io srt now c fs = (Inl e, c', fs')"
  shows "cp_tables c' = cp_tables c \<and> cp_totalCompactions c' = cp_totalCompactions c
    \<and> (\<forall>p. p \<noteq> compacted_path c now \<longrightarrow> fs' p = fs p)"
proof -
  have ct: "cp_tables c' = cp_tables c \<and> cp_totalCompactions c' = cp_totalCompactions c
      \<and> (\<forall>p. p \<noteq> compacted_path c now \<longrightarrow> fs' p = fs p)"
    if "compact_tables B io now tables c fs = (Inl er, c', fs')" for tables er
    using that by (auto simp: compact_tables_def Let_def split: sum.splits prod.splits if_splits)
  from assms show ?thesis
    by (auto simp: run_compaction_def dest!: ct split: if_splits sum.splits prod.splits)
qed

theorem failed_compaction_keeps_tables_witness:
  "\<exists>e c' fs'. run_compaction tiny_bloom (io_fine\<lparr>io_open_ok := False\<rparr>) id 0 demo_compactor demo_files = (Inl e, c', fs')
     \<and> cp_tables c' = cp_tables demo_compactor \<and> length (cp_tables demo_compactor) = 5"
proof -
  let ?io = "io_fine\<lparr>io_open_ok := False\<rparr>"
  have five: "length (cp_tables demo_compactor) = 5"
    by (simp add: demo_compactor_def register_table_def new_compactor_def)
  have "\<exists>e. compact_tables tiny_bloom ?io 0 (take 4 (cp_tables demo_compactor)) demo_compactor demo_files
      = (Inl e, demo_compactor, demo_files)"
    by (simp add: compact_tables_def create_writer_def Let_def io_fine_def wrapE_def)
  moreover have "should_compact demo_compactor"
    "select_tables id demo_compactor = Inr (take 4 (cp_tables demo_compactor))"
    by (simp_all add: demo_compactor_def register_table_def new_compactor_def should_compact_def select_tables_def
        select_leveled_def)
  moreover have "\<not> length (take 4 (cp_tables demo_compactor)) < 2" using five by simp
  ultimately have "\<exists>e. run_compaction tiny_bloom ?io id 0 demo_compactor demo_files = (Inl e, demo_compactor, demo_files)"
    unfolding run_compaction_def
    by (elim exE) (simp only: wrapE_def not_True_eq_False if_False sum.case prod.case, simp split: go_error.splits)
  then obtain e where r: "run_compaction tiny_bloom ?io id 0 demo_compactor demo_files = (Inl e, demo_compactor, demo_files)" ..
  from failed_compaction_keeps_tables [OF r] r five show ?thesis by blast
qed

text \<open>
  A compactor works once.  \<open>Stop\<close> closes the stop channel, \<open>Start\<close> does not make a new
  one: after a stop the compactor can be started again (its worker ends at once), and the
  next \<open>Stop\<close> panics, closing a closed channel.
\<close>

theorem compactor_restart_panics:
  assumes "compactor_stop c = (Inr (), c1)"
  shows "\<exists>c2. compactor_start c1 = (Inr (), c2) \<and> cp_stopCh c2
    \<and> fst (compactor_stop c2) = Inl (Panic ''close of closed channel'')"
  using assms by (auto simp: compactor_stop_def compactor_start_def split: if_splits)

theorem compactor_restart_panics_witness:
  "fst (compactor_stop (snd (compactor_start (snd (compactor_stop (snd (compactor_start (new_compactor None))))))))
    = Inl (Panic ''close of closed channel'')"
proof -
  have "compactor_stop (snd (compactor_start (new_compactor None))) =
      (Inr (), snd (compactor_stop (snd (compactor_start (new_compactor None)))))"
    by (simp add: compactor_stop_def compactor_start_def new_compactor_def)
  from compactor_restart_panics [OF this] show ?thesis by auto
qed

text \<open>A cycle that compacts: it reports success and the table list is another.\<close>

definition compacts :: "'b bloom \<Rightarrow> compactor \<times> filesys \<Rightarrow> compactor \<times> filesys \<Rightarrow> bool" where
  "compacts B s s' \<longleftrightarrow> (\<exists>io srt now. size_order srt \<and> run_compaction B io srt now (fst s) (snd s) = (Inr (), s')
     \<and> cp_tables (fst s') \<noteq> cp_tables (fst s))"

lemma selected_tables:
  assumes "size_order srt" and "select_tables srt c = Inr ts"
  shows "mset ts \<subseteq># mset (cp_tables c)"
proof (cases "cp_strategy c")
  case StrategySizeTiered
  with assms size_tiered_group [OF assms(1), of c] show ?thesis
    by (cases "select_size_tiered srt c = []") (auto simp: select_tables_def)
next
  case StrategyLeveled
  have "mset (take 4 xs) \<subseteq># mset xs" for xs :: "table_info list"
    by (metis append_take_drop_id mset_append mset_subset_eq_add_left)
  moreover have "mset (filter P xs) \<subseteq># mset xs" for P and xs :: "table_info list" by (simp add: mset_filter)
  ultimately have "mset (take 4 (filter P (cp_tables c))) \<subseteq># mset (cp_tables c)" for P
    by (meson subset_mset.order_trans)
  with StrategyLeveled assms(2) show ?thesis by (auto simp: select_tables_def select_leveled_def Let_def)
next
  case (StrategyOther n)
  with assms(2) show ?thesis by (simp add: select_tables_def)
qed

lemma removed_tables:
  assumes "mset ts \<subseteq># mset us"
  shows "length ts + length (filter (\<lambda>t. ti_Path t \<notin> ti_Path ` set ts) us) \<le> length us"
proof -
  let ?P = "\<lambda>t. ti_Path t \<in> ti_Path ` set ts"
  have "filter ?P ts = ts" by (simp add: filter_id_conv)
  then have "mset ts = filter_mset ?P (mset ts)" by (metis mset_filter)
  also have "\<dots> \<subseteq># filter_mset ?P (mset us)" by (rule multiset_filter_mono [OF assms])
  finally have "size (mset ts) \<le> size (filter_mset ?P (mset us))" by (rule size_mset_mono)
  then have "length ts \<le> length (filter ?P us)" by (simp flip: mset_filter)
  with sum_length_filter_compl [of ?P us] show ?thesis by linarith
qed

lemma compact_tables_frame:
  assumes "compact_tables B io now ts c fs = (r, c', fs')"
  shows "cp_tables c' = cp_tables c" "cp_totalCompactions c' = cp_totalCompactions c"
  using assms by (auto simp: compact_tables_def Let_def split: sum.splits prod.splits if_splits)

lemma compacts_step:
  assumes "compacts B s s'"
  shows "Suc (length (cp_tables (fst s'))) \<le> length (cp_tables (fst s))"
    "cp_totalCompactions (fst s') = cp_totalCompactions (fst s) + 1"
proof -
  from assms obtain io srt now where srt: "size_order srt"
    and run: "run_compaction B io srt now (fst s) (snd s) = (Inr (), s')"
    and other: "cp_tables (fst s') \<noteq> cp_tables (fst s)" by (auto simp: compacts_def)
  from run other obtain ts t c fs where sel: "select_tables srt (fst s) = Inr ts" "2 \<le> length ts"
    and ct: "compact_tables B io now ts (fst s) (snd s) = (Inr t, c, fs)"
    and s': "cp_tables (fst s') = filter (\<lambda>t. ti_Path t \<notin> ti_Path ` set ts) (cp_tables c) @ [t]"
      "cp_totalCompactions (fst s') = cp_totalCompactions c + 1"
    by (auto simp: run_compaction_def remove_tables_def Let_def wrapE_def
        split: if_splits sum.splits prod.splits go_error.splits)
  note F = compact_tables_frame [OF ct]
  from removed_tables [OF selected_tables [OF srt sel(1)]] sel(2)
  show "Suc (length (cp_tables (fst s'))) \<le> length (cp_tables (fst s))" by (simp add: s' F)
  show "cp_totalCompactions (fst s') = cp_totalCompactions (fst s) + 1" by (simp add: s' F)
qed

text \<open>
  Compaction comes to rest.  Between registrations, and whatever the strategy, the files
  and the faults, only finitely many cycles can compact: each replaces at least two tables by
  one, so \<open>n\<close> of them leave at least \<open>n\<close> tables fewer, and the counter has counted them.
\<close>

theorem compaction_comes_to_rest:
  assumes "(compacts B ^^ n) s s'"
  shows "n + length (cp_tables (fst s')) \<le> length (cp_tables (fst s))
    \<and> cp_totalCompactions (fst s') = cp_totalCompactions (fst s) + of_nat n"
  using assms
proof (induction n arbitrary: s')
  case (Suc n)
  from Suc.prems obtain s1 where s1: "(compacts B ^^ n) s s1" "compacts B s1 s'" by auto
  from Suc.IH [OF s1(1)] compacts_step [OF s1(2)] show ?case by simp
qed simp

lemma demo_compacts:
  "\<exists>s'. run_compaction tiny_bloom io_fine (sort_key ti_Size) 0 demo_compactor demo_files = (Inr (), s')
     \<and> compacts tiny_bloom (demo_compactor, demo_files) s'"
proof -
  let ?contents = "[[([4], [9])], [([2], [9])], [([3], [9])], [([1], [9])]] :: kv list list"
  have inp: "compaction_inputs tiny_bloom io_fine id 0 demo_compactor demo_files
     (take 4 (cp_tables demo_compactor)) ?contents"
    by (rule demo_inputs) simp_all
  have "list_all2 (table_scans tiny_bloom io_fine demo_files) (map ti_Path (take 4 (cp_tables demo_compactor))) ?contents"
    by (simp add: demo_compactor_def register_table_def new_compactor_def demo_scans demo_files_def)
  from run_compaction_keeps [OF tiny_bloom_ok tiny_enc inp this] obtain c' fs' t where
    r: "run_compaction tiny_bloom io_fine id 0 demo_compactor demo_files = (Inr (), c', fs')"
    "cp_tables c' = filter (\<lambda>t. ti_Path t \<notin> ti_Path ` set (take 4 (cp_tables demo_compactor))) (cp_tables demo_compactor) @ [t]"
    by blast
  have start: "length (cp_tables demo_compactor) = 5" "cp_strategy demo_compactor = StrategyLeveled"
    by (simp_all add: demo_compactor_def register_table_def new_compactor_def)
  have "length (cp_tables c') \<noteq> 5"
    unfolding r(2) by (simp add: demo_compactor_def register_table_def new_compactor_def)
  moreover have "run_compaction tiny_bloom io_fine (sort_key ti_Size) 0 demo_compactor demo_files = (Inr (), c', fs')"
    using r(1) by (simp only: run_compaction_def select_tables_def start(2) strategy.case)
  ultimately have "run_compaction tiny_bloom io_fine (sort_key ti_Size) 0 demo_compactor demo_files = (Inr (), (c', fs'))"
    "compacts tiny_bloom (demo_compactor, demo_files) (c', fs')"
    unfolding compacts_def using sort_key_size_order start(1) by (metis fst_conv snd_conv)+
  then show ?thesis by blast
qed

theorem compaction_comes_to_rest_witness:
  "\<exists>s'. (compacts tiny_bloom ^^ 1) (demo_compactor, demo_files) s'
     \<and> 1 + length (cp_tables (fst s')) \<le> 5 \<and> cp_totalCompactions (fst s') = 1"
proof -
  from demo_compacts obtain s' where s': "(compacts tiny_bloom ^^ 1) (demo_compactor, demo_files) s'"
    by (auto simp: relcompp_apply)
  have "length (cp_tables demo_compactor) = 5" "cp_totalCompactions demo_compactor = 0"
    by (simp_all add: demo_compactor_def register_table_def new_compactor_def)
  then show ?thesis using compaction_comes_to_rest [OF s'] s' by (intro exI [of _ s']) (simp del: One_nat_def relpowp_1)
qed

end
