(* ===== verification/Flusher.thy ===== *)
theory Flusher
  imports Compaction Memtable
begin

text \<open>
  \<open>pkg/persistence/flusher.go\<close>: writing a memtable out as a table file.  The entries come in
  the order \<open>sync.Map.Range\<close> visits them, which is an argument; a scheduled flush is one of
  these, run later.  A stopped flusher can be started again.
\<close>

section \<open>State and operations\<close>

record flusher =
  fl_dataDir :: bytes
  fl_flushInterval :: int
  fl_running :: bool
  fl_cancelled :: bool
  fl_totalFlushes :: u64
  fl_totalBytes :: u64
  fl_totalEntries :: u64
  fl_failedFlushes :: u64

record flusher_config =
  fc_DataDir :: bytes
  fc_FlushInterval :: int

definition default_flusher_config :: flusher_config where
  "default_flusher_config = \<lparr>fc_DataDir = lit ''./data/sstables'', fc_FlushInterval = 5 * 1000000000\<rparr>"

definition new_flusher :: "flusher_config option \<Rightarrow> flusher" where
  "new_flusher config =
     (let config = (case config of None \<Rightarrow> default_flusher_config | Some c \<Rightarrow> c)
      in \<lparr>fl_dataDir = fc_DataDir config, fl_flushInterval = fc_FlushInterval config, fl_running = False,
          fl_cancelled = False, fl_totalFlushes = 0, fl_totalBytes = 0, fl_totalEntries = 0, fl_failedFlushes = 0\<rparr>)"

definition flusher_start :: "flusher \<Rightarrow> unit res \<times> flusher" where
  "flusher_start f =
     (if fl_running f then (Inl (Err ''flusher already running''), f)
      else (Inr (), f\<lparr>fl_running := True\<rparr>))"

definition flusher_stop :: "flusher \<Rightarrow> unit res \<times> flusher" where
  "flusher_stop f =
     (if \<not> fl_running f then (Inl (Err ''flusher not running''), f)
      else (Inr (), f\<lparr>fl_running := False, fl_cancelled := True\<rparr>))"

definition flush_path :: "flusher \<Rightarrow> int \<Rightarrow> u64 \<Rightarrow> bytes" where
  "flush_path f laneID now =
     path_join (fl_dataDir f) (lit ''lane-'' @ decimal laneID @ lit ''-'' @ decimal (sint now) @ lit ''.sst'')"

fun flush_entries :: "'b bloom \<Rightarrow> (bytes \<times> slice) list \<Rightarrow> 'b sst_writer \<Rightarrow> unit res \<times> 'b sst_writer" where
  "flush_entries B [] w = (Inr (), w)"
| "flush_entries B ((key, value) # es) w =
     bindS (wrapS ''failed to write entry'' (sst_add B key (slice_bytes value) w)) (\<lambda>_ w. flush_entries B es w)"

definition count_failed :: "flusher \<Rightarrow> flusher" where
  "count_failed f = f\<lparr>fl_failedFlushes := fl_failedFlushes f + 1\<rparr>"

definition flush_memtable ::
  "'b bloom \<Rightarrow> wal_io \<Rightarrow> u64 \<Rightarrow> bytes list \<Rightarrow> memtable \<Rightarrow> int \<Rightarrow> flusher \<Rightarrow> filesys \<Rightarrow> unit res \<times> flusher \<times> filesys" where
  "flush_memtable B io now ks mt laneID f fs =
     (if \<not> fl_running f then (Inl (Err ''flusher not running''), f, fs)
      else
        let filename = flush_path f laneID now; entries = mt_entries ks mt
        in if entries = [] then (Inr (), f, fs)
        else case wrapE ''failed to create SSTable writer'' (create_writer B io (length entries)) of
          Inl e \<Rightarrow> (Inl e, count_failed f, fs)
        | Inr w \<Rightarrow>
            (case flush_entries B entries w of
               (Inl e, w) \<Rightarrow>
                 \<comment> \<open>the deferred \<open>Close\<close> writes out what there is\<close>
                 (Inl e, if is_panic e then f else count_failed f, fs(filename \<mapsto> sw_file (snd (sst_close B io w))))
             | (Inr _, w) \<Rightarrow>
                 (case sst_close B io w of
                    (Inl e, w) \<Rightarrow>
                      (wrapE ''failed to close SSTable'' (Inl e), if is_panic e then f else count_failed f,
                       fs(filename \<mapsto> sw_file (snd (sst_close B io w))))
                  | (Inr _, w) \<Rightarrow>
                      (Inr (), f\<lparr>fl_totalFlushes := fl_totalFlushes f + 1,
                                 fl_totalBytes := fl_totalBytes f + writer_file_size w,
                                 fl_totalEntries := fl_totalEntries f + entries_count w\<rparr>,
                       fs(filename \<mapsto> sw_file w)))))"

record flusher_stats =
  fs_TotalFlushes :: u64
  fs_TotalBytes :: u64
  fs_TotalEntries :: u64
  fs_FailedFlushes :: u64
  fs_Running :: bool

definition stats_of_flusher :: "flusher \<Rightarrow> flusher_stats" where
  "stats_of_flusher f =
     \<lparr>fs_TotalFlushes = fl_totalFlushes f, fs_TotalBytes = fl_totalBytes f, fs_TotalEntries = fl_totalEntries f,
      fs_FailedFlushes = fl_failedFlushes f, fs_Running = fl_running f\<rparr>"

text \<open>A scheduled job runs the flush and only prints its error.\<close>

record flush_job =
  fj_LaneID :: int
  fj_Memtable :: memtable
  fj_Timestamp :: u64

definition run_flush_job ::
  "'b bloom \<Rightarrow> wal_io \<Rightarrow> u64 \<Rightarrow> bytes list \<Rightarrow> flush_job \<Rightarrow> flusher \<Rightarrow> filesys \<Rightarrow> flusher \<times> filesys" where
  "run_flush_job B io now ks job f fs = snd (flush_memtable B io now ks (fj_Memtable job) (fj_LaneID job) f fs)"

section \<open>What a flush writes\<close>

definition flush_kvs :: "bytes list \<Rightarrow> memtable \<Rightarrow> kv list" where
  "flush_kvs ks mt = map (\<lambda>(k, v). (k, slice_bytes v)) (mt_entries ks mt)"

lemma flush_kvs_keys [simp]: "map fst (flush_kvs ks mt) = ks"
  by (induction ks) (simp_all add: flush_kvs_def mt_entries_def)

lemma length_mt_entries [simp]: "length (mt_entries ks mt) = length ks"
  by (simp add: mt_entries_def)

lemma flush_entries_add_all:
  "case flush_entries B es w of
     (Inr _, w') \<Rightarrow> add_all B (map (\<lambda>(k, v). (k, slice_bytes v)) es) w = (Inr (), w')
   | (Inl e, w') \<Rightarrow> \<not> succeeds (fst (add_all B (map (\<lambda>(k, v). (k, slice_bytes v)) es) w))"
proof (induction es arbitrary: w)
  case (Cons kv es)
  obtain k v where kv: "kv = (k, v)" by force
  obtain r w1 where a: "sst_add B k (slice_bytes v) w = (r, w1)" by force
  from Cons.IH [of w1] show ?case
    by (cases r) (auto simp: kv a wrapS_def succeeds_def wrapE_def split: go_error.splits sum.splits)
qed simp

lemma map_of_flush_kvs:
  assumes "range_order mt ks"
  shows "map_of (flush_kvs ks mt) k = map_option (\<lambda>v. slice_bytes (stored_slice v)) (mt_data mt k)"
proof -
  have "map_of (flush_kvs ks mt) k = (if k \<in> set ks then Some (slice_bytes (stored_slice (the (mt_data mt k)))) else None)"
    by (induction ks) (auto simp: flush_kvs_def mt_entries_def)
  with assms show ?thesis by (auto simp: range_order_def)
qed

lemma table_image_reads:
  assumes ok: "table_ok bs d" and B: "bloom_ok B" "bl_encode B b = Inr d" and io: "can_open io"
    and test: "\<forall>kv\<in>set (concat bs). bl_test B (fst kv) b"
  shows "\<exists>r. open_reader B io (Some (table_image bs d)) = Inr r
    \<and> (\<forall>key. case map_of (concat bs) key of
         Some v \<Rightarrow> sst_get B r key = (if v = [] then Inl (Err ''key deleted'') else Inr v)
       | None \<Rightarrow> \<not> succeeds (sst_get B r key))"
proof -
  from open_reader_image [OF ok B io] obtain bl where
    r: "open_reader B io (Some (table_image bs d)) = Inr (opened bs d bl)"
    and bl: "\<forall>k. bl_test B k bl = bl_test B k b" by blast
  from bl test have "\<forall>kv\<in>set (concat bs). bl_test B (fst kv) bl" by simp
  note G = sst_get_opened [OF ok this]
  show ?thesis
  proof (intro exI conjI allI)
    show "case map_of (concat bs) key of
         Some v \<Rightarrow> sst_get B (opened bs d bl) key = (if v = [] then Inl (Err ''key deleted'') else Inr v)
       | None \<Rightarrow> \<not> succeeds (sst_get B (opened bs d bl) key)" for key
      using G [of key] by (simp split: option.splits)
  qed (rule r)
qed

lemma flush_sorted:
  assumes B: "bloom_ok B" and enc: "\<And>b. \<exists>d. bl_encode B b = Inr d" and io: "no_faults io" and run: "fl_running f"
    and ord: "range_order mt ks" and ne: "ks \<noteq> []" and fits: "fits_format (flush_kvs ks mt)"
    and sorted: "sorted_wrt (<) ks"
  obtains f' d where "flush_memtable B io now ks mt laneID f fs = (Inr (), f', fs(flush_path f laneID now \<mapsto> d))"
    "length d < 2 ^ 64 \<longrightarrow> (\<exists>r. open_reader B io (Some d) = Inr r
      \<and> (\<forall>key. case map_of (flush_kvs ks mt) key of
           Some v \<Rightarrow> sst_get B r key = (if v = [] then Inl (Err ''key deleted'') else Inr v)
         | None \<Rightarrow> \<not> succeeds (sst_get B r key)))"
    "fl_totalEntries f' = fl_totalEntries f + word_of_nat (length ks)"
proof -
  let ?kvs = "flush_kvs ks mt"
  have ok: "list_all kv_ok ?kvs" "\<forall>kv\<in>set ?kvs. length (fst kv) + 20 < 2 ^ 32" "length ?kvs < 2 ^ 32"
    using fits by (simp_all add: fits_format_def)
  have keys: "sorted_wrt (<) (map fst ?kvs)" using sorted by simp
  have io': "io_sync_ok io" "io_close_ok io" "can_open io" using io by (simp_all add: no_faults_def can_open_def)
  obtain w1 w2 where w1: "add_all B ?kvs (new_writer B None (length ks)) = (Inr (), w1)"
    and w2: "sst_close B io w1 = (Inr (), w2)" and "sw_closed w2"
    and count: "entries_count w2 = word_of_nat (length ?kvs)"
    and table: "length (sw_file w2) < 2 ^ 64 \<longrightarrow> (\<exists>bs d. table_ok bs d \<and> concat bs = ?kvs \<and> sw_file w2 = table_image bs d
       \<and> bl_encode B (sw_bloom w1) = Inr d \<and> (\<forall>kv\<in>set ?kvs. bl_test B (fst kv) (sw_bloom w1)))"
    by (rule healthy_table [OF B enc io'(1,2) ok(1) keys ok(2,3), where n = "length ks"])
  have "flush_entries B (mt_entries ks mt) (new_writer B None (length ks)) = (Inr (), w1)"
    using flush_entries_add_all [of B "mt_entries ks mt" "new_writer B None (length ks)"] w1
    unfolding flush_kvs_def [symmetric] by (auto simp: succeeds_def split: prod.splits sum.splits)
  moreover have "mt_entries ks mt \<noteq> []" using ne by (simp add: mt_entries_def)
  moreover have "create_writer B io (length ks) = Inr (new_writer B None (length ks))"
    using io by (simp add: create_writer_def no_faults_def)
  ultimately have fl: "flush_memtable B io now ks mt laneID f fs =
      (Inr (), f\<lparr>fl_totalFlushes := fl_totalFlushes f + 1, fl_totalBytes := fl_totalBytes f + writer_file_size w2,
        fl_totalEntries := fl_totalEntries f + entries_count w2\<rparr>, fs(flush_path f laneID now \<mapsto> sw_file w2))"
    using run w2 by (simp add: flush_memtable_def Let_def)
  have len: "length ?kvs = length ks" by (metis flush_kvs_keys length_map)
  show thesis
  proof (rule that [OF fl])
    show "length (sw_file w2) < 2 ^ 64 \<longrightarrow> (\<exists>r. open_reader B io (Some (sw_file w2)) = Inr r
      \<and> (\<forall>key. case map_of ?kvs key of
           Some v \<Rightarrow> sst_get B r key = (if v = [] then Inl (Err ''key deleted'') else Inr v)
         | None \<Rightarrow> \<not> succeeds (sst_get B r key)))"
    proof
      assume "length (sw_file w2) < 2 ^ 64"
      with table obtain bs d where t: "table_ok bs d" "concat bs = ?kvs" "sw_file w2 = table_image bs d"
        "bl_encode B (sw_bloom w1) = Inr d" "\<forall>kv\<in>set ?kvs. bl_test B (fst kv) (sw_bloom w1)" by blast
      from table_image_reads [OF t(1) B t(4) io'(3)] t show "\<exists>r. open_reader B io (Some (sw_file w2)) = Inr r
      \<and> (\<forall>key. case map_of ?kvs key of
           Some v \<Rightarrow> sst_get B r key = (if v = [] then Inl (Err ''key deleted'') else Inr v)
         | None \<Rightarrow> \<not> succeeds (sst_get B r key))" by simp
    qed
  qed (simp add: count len)
qed

text \<open>The writer panics on no entry the format can hold.\<close>

definition no_panic :: "'r res \<times> 's \<Rightarrow> bool" where
  "no_panic m \<longleftrightarrow> (\<forall>e. fst m = Inl e \<longrightarrow> \<not> is_panic e)"

lemma no_panic_bindS: "no_panic m \<Longrightarrow> (\<And>x s. no_panic (f x s)) \<Longrightarrow> no_panic (bindS m f)"
  by (cases m; cases "fst m") (simp_all add: no_panic_def)

lemma no_panic_put [simp]: "no_panic (sw_put msg p w)"
  by (simp add: no_panic_def sw_put_def split: prod.split)

lemma no_panic_Inr [simp]: "no_panic (Inr x, s)"
  by (simp add: no_panic_def)

lemma no_panic_flush_block [simp]: "no_panic (flush_block w)"
  unfolding flush_block_def Let_def by (simp add: no_panic_bindS)

lemma sst_add_calm: "kv_ok (k, v) \<Longrightarrow> no_panic (sst_add B k v w)"
  unfolding sst_add_def Let_def
  by (simp add: encode_kv_ok no_panic_bindS) (simp add: no_panic_def)

lemma flush_entries_calm:
  "list_all kv_ok (map (\<lambda>(k, v). (k, slice_bytes v)) es) \<Longrightarrow> flush_entries B es w = (Inl e, w') \<Longrightarrow> \<not> is_panic e"
proof (induction es arbitrary: w)
  case (Cons kv es)
  obtain k v where kv: "kv = (k, v)" by force
  obtain r w1 where a: "sst_add B k (slice_bytes v) w = (r, w1)" by force
  with Cons show ?case
    using sst_add_calm [of k "slice_bytes v" B w]
    by (cases r) (auto simp: kv wrapS_def wrapE_def no_panic_def split: go_error.splits)
qed simp

lemma flush_unsorted:
  assumes io: "no_faults io" and run: "fl_running f" and ord: "range_order mt ks" and ne: "[] \<notin> set ks"
    and fits: "fits_format (flush_kvs ks mt)" and unsorted: "\<not> sorted_wrt (<) ks"
  obtains e fs' where "flush_memtable B io now ks mt laneID f fs = (Inl e, count_failed f, fs')" "\<not> is_panic e"
    "\<forall>p. p \<noteq> flush_path f laneID now \<longrightarrow> fs' p = fs p"
proof -
  let ?w = "new_writer B None (length ks)"
  have ok: "list_all kv_ok (flush_kvs ks mt)" using fits by (simp add: fits_format_def)
  have "[] \<notin> fst ` set (flush_kvs ks mt)" using ne by (metis flush_kvs_keys set_map)
  from add_all_iff [OF new_writer_healthy(1,2) ok this] unsorted
  have "\<not> succeeds (fst (add_all B (flush_kvs ks mt) ?w))" by simp
  then obtain e w' where fe: "flush_entries B (mt_entries ks mt) ?w = (Inl e, w')"
    using flush_entries_add_all [of B "mt_entries ks mt" ?w] unfolding flush_kvs_def
    by (cases "flush_entries B (mt_entries ks mt) ?w"; cases "fst (flush_entries B (mt_entries ks mt) ?w)")
      (auto simp: succeeds_def)
  from flush_entries_calm [OF ok [unfolded flush_kvs_def] fe] have e: "\<not> is_panic e" .
  have "mt_entries ks mt \<noteq> []" using unsorted by (auto simp: mt_entries_def)
  moreover have "create_writer B io (length ks) = Inr ?w" using io by (simp add: create_writer_def no_faults_def)
  ultimately have "flush_memtable B io now ks mt laneID f fs =
      (Inl e, count_failed f, fs(flush_path f laneID now \<mapsto> sw_file (snd (sst_close B io w'))))"
    using fe run e by (simp add: flush_memtable_def Let_def)
  from that [OF this e] show thesis by simp
qed

text \<open>
  C12: A flush needs the entries in order, and nothing gives it them.  \<open>Entries\<close> returns the
  table in the order of a hash map's iteration, the table writer refuses a key that is not
  above the last one: on a healthy device a flush of a table succeeds exactly when the
  iteration happened to be ascending.  When it is, the new file opens, returns every key's
  value, and finds neither a deleted key (nor one with an empty value) nor one the table does
  not have; no other file is touched.
\<close>

theorem flush_succeeds_iff_ascending:
  assumes B: "bloom_ok B" and enc: "\<And>b. succeeds (bl_encode B b)" and io: "no_faults io" and run: "fl_running f"
    and ord: "range_order mt ks" and ne: "[] \<notin> set ks" and fits: "fits_format (flush_kvs ks mt)"
    and fl: "flush_memtable B io now ks mt laneID f fs = (r, f', fs')"
  shows "(succeeds r \<longleftrightarrow> sorted_wrt (<) ks)
    \<and> (\<forall>p. p \<noteq> flush_path f laneID now \<longrightarrow> fs' p = fs p)
    \<and> (sorted_wrt (<) ks \<and> ks \<noteq> [] \<longrightarrow>
        (\<exists>d. fs' (flush_path f laneID now) = Some d
          \<and> (length d < 2 ^ 64 \<longrightarrow> (\<exists>rd. open_reader B io (Some d) = Inr rd
              \<and> (\<forall>k. let (v, found) = mt_get mt k
                     in if found \<and> slice_bytes v \<noteq> [] then sst_get B rd k = Inr (slice_bytes v)
                        else \<not> succeeds (sst_get B rd k))))))"
proof (cases "ks = []")
  case True
  with fl run show ?thesis by (auto simp: flush_memtable_def mt_entries_def succeeds_def Let_def)
next
  case nonempty: False
  have frame: "\<forall>p. p \<noteq> flush_path f laneID now \<longrightarrow> fs' p = fs p"
    using fl by (auto simp: flush_memtable_def Let_def split: if_splits sum.splits prod.splits)
  have enc': "\<And>b. \<exists>d. bl_encode B b = Inr d"
    using enc by (metis succeeds_def sum.case_eq_if sum.collapse(2))
  show ?thesis
  proof (cases "sorted_wrt (<) ks")
    case True
    obtain f1 d where fl1: "flush_memtable B io now ks mt laneID f fs = (Inr (), f1, fs(flush_path f laneID now \<mapsto> d))"
      and rd: "length d < 2 ^ 64 \<longrightarrow> (\<exists>r. open_reader B io (Some d) = Inr r
      \<and> (\<forall>key. case map_of (flush_kvs ks mt) key of
           Some v \<Rightarrow> sst_get B r key = (if v = [] then Inl (Err ''key deleted'') else Inr v)
         | None \<Rightarrow> \<not> succeeds (sst_get B r key)))"
      and "fl_totalEntries f1 = fl_totalEntries f + word_of_nat (length ks)"
      by (rule flush_sorted [OF B enc' io run ord nonempty fits True])
    have get: "let (v, found) = mt_get mt k
        in if found \<and> slice_bytes v \<noteq> [] then sst_get B rd k = Inr (slice_bytes v) else \<not> succeeds (sst_get B rd k)"
      if "case map_of (flush_kvs ks mt) k of
           Some v \<Rightarrow> sst_get B rd k = (if v = [] then Inl (Err ''key deleted'') else Inr v)
         | None \<Rightarrow> \<not> succeeds (sst_get B rd k)" for k rd
      using that by (auto simp: map_of_flush_kvs [OF ord] mt_get_def succeeds_def split: option.splits stored.splits if_splits)
    have "\<exists>rd. open_reader B io (Some d) = Inr rd \<and> (\<forall>k. let (v, found) = mt_get mt k
        in if found \<and> slice_bytes v \<noteq> [] then sst_get B rd k = Inr (slice_bytes v) else \<not> succeeds (sst_get B rd k))"
      if len: "length d < 2 ^ 64"
    proof -
      from rd len obtain r where r: "open_reader B io (Some d) = Inr r"
        "\<forall>key. case map_of (flush_kvs ks mt) key of
           Some v \<Rightarrow> sst_get B r key = (if v = [] then Inl (Err ''key deleted'') else Inr v)
         | None \<Rightarrow> \<not> succeeds (sst_get B r key)" by blast
      have "let (v, found) = mt_get mt k in if found \<and> slice_bytes v \<noteq> [] then sst_get B r k = Inr (slice_bytes v)
          else \<not> succeeds (sst_get B r k)" for k
        by (rule get) (rule spec [OF r(2)])
      with r(1) show ?thesis by blast
    qed
    moreover from fl fl1 have "r = Inr ()" "fs' (flush_path f laneID now) = Some d" by auto
    ultimately show ?thesis using True frame by (simp add: succeeds_def)
  next
    case False
    obtain e fs1 where "flush_memtable B io now ks mt laneID f fs = (Inl e, count_failed f, fs1)"
      by (rule flush_unsorted [OF io run ord ne fits False])
    with fl have "\<not> succeeds r" by (auto simp: succeeds_def)
    with False frame show ?thesis by simp
  qed
qed

definition demo_memtable :: memtable where
  "demo_memtable = snd (mt_put [3] (Some [4]) (snd (mt_put [1] (Some [2]) (mt_new 100))))"

lemma demo_memtable_data: "mt_data demo_memtable = [[1] \<mapsto> SvBytes (Some [2]), [3] \<mapsto> SvBytes (Some [4])]"
  by (simp add: demo_memtable_def mt_put_def mt_new_def Let_def slice_len_def)

theorem flush_succeeds_iff_ascending_witness:
  "succeeds (fst (flush_memtable tiny_bloom io_fine 0 [[1], [3]] demo_memtable 0 (snd (flusher_start (new_flusher None))) Map.empty))
   \<and> \<not> succeeds (fst (flush_memtable tiny_bloom io_fine 0 [[3], [1]] demo_memtable 0 (snd (flusher_start (new_flusher None))) Map.empty))"
proof -
  let ?f = "snd (flusher_start (new_flusher None))"
  have f: "fl_running ?f" by (simp add: flusher_start_def new_flusher_def)
  have io: "no_faults io_fine" by (simp add: no_faults_def io_fine_def)
  have "range_order demo_memtable [[1], [3]]" "range_order demo_memtable [[3], [1]]"
    by (auto simp: range_order_def demo_memtable_data)
  moreover have "fits_format (flush_kvs [[1], [3]] demo_memtable)" "fits_format (flush_kvs [[3], [1]] demo_memtable)"
    by (simp_all add: fits_format_def flush_kvs_def mt_entries_def demo_memtable_data kv_ok_def)
  moreover have "[] \<notin> set [[1], [3 :: byte]]" "[] \<notin> set [[3], [1 :: byte]]" by simp_all
  moreover have split: "X = (fst X, fst (snd X), snd (snd X))" for X :: "unit res \<times> flusher \<times> filesys" by simp
  ultimately have
    "succeeds (fst (flush_memtable tiny_bloom io_fine 0 [[1], [3]] demo_memtable 0 ?f Map.empty)) \<longleftrightarrow> sorted_wrt (<) [[1], [3 :: byte]]"
    "succeeds (fst (flush_memtable tiny_bloom io_fine 0 [[3], [1]] demo_memtable 0 ?f Map.empty)) \<longleftrightarrow> sorted_wrt (<) [[3], [1 :: byte]]"
    using flush_succeeds_iff_ascending [OF tiny_bloom_ok tiny_enc io f _ _ _ split, THEN conjunct1] by blast+
  then show ?thesis by simp
qed

text \<open>
  A failed flush is counted, and leaves a file.  Each attempt on a running flusher with
  something to flush counts exactly one flush or one failure (unless the writer panics); one
  that fails after the file was created leaves that file, with whatever the deferred \<open>Close\<close>
  wrote, in the data directory.
\<close>

theorem flush_accounting:
  assumes run: "fl_running f" and ks: "ks \<noteq> []" and fl: "flush_memtable B io now ks mt laneID f fs = (r, f', fs')"
  shows "(succeeds r \<longrightarrow> fl_totalFlushes f' = fl_totalFlushes f + 1 \<and> fl_failedFlushes f' = fl_failedFlushes f)
    \<and> (\<not> succeeds r \<longrightarrow> fl_totalFlushes f' = fl_totalFlushes f \<and> fl_totalEntries f' = fl_totalEntries f
        \<and> ((\<exists>p. r = Inl (Panic p)) \<or> fl_failedFlushes f' = fl_failedFlushes f + 1))
    \<and> (io_mkdir_ok io \<and> io_open_ok io \<longrightarrow> fs' (flush_path f laneID now) \<noteq> None)"
proof -
  have entries: "mt_entries ks mt \<noteq> []" using ks by (simp add: mt_entries_def)
  have panic: "is_panic e \<Longrightarrow> \<exists>p. e = Panic p" for e by (cases e) simp_all
  show ?thesis
  proof (cases "create_writer B io (length ks)")
    case (Inl e)
    then have "\<not> (io_mkdir_ok io \<and> io_open_ok io)" "\<not> is_panic e" by (auto simp: create_writer_def split: if_splits)
    with fl run entries Inl show ?thesis
      by (auto simp: flush_memtable_def Let_def wrapE_def succeeds_def count_failed_def split: go_error.splits)
  next
    case (Inr w)
    obtain r1 w1 where 1: "flush_entries B (mt_entries ks mt) w = (r1, w1)" by force
    obtain r2 w2 where 2: "sst_close B io w1 = (r2, w2)" by force
    show ?thesis
    proof (cases r1)
      case (Inl e)
      with fl run entries Inr 1 panic [of e] show ?thesis
        by (cases "is_panic e") (auto simp: flush_memtable_def Let_def succeeds_def count_failed_def)
    next
      case r1: (Inr u)
      show ?thesis
      proof (cases r2)
        case (Inl e)
        with fl run entries \<open>create_writer B io (length ks) = Inr w\<close> 1 r1 2 panic [of e] show ?thesis
          by (cases "is_panic e") (auto simp: flush_memtable_def Let_def succeeds_def count_failed_def wrapE_def split: go_error.splits)
      next
        case (Inr u')
        with fl run entries \<open>create_writer B io (length ks) = Inr w\<close> 1 r1 2 show ?thesis
          by (auto simp: flush_memtable_def Let_def succeeds_def)
      qed
    qed
  qed
qed

theorem flush_accounting_witness:
  "\<exists>e f'. flush_memtable tiny_bloom (io_fine\<lparr>io_open_ok := False\<rparr>) 0 [[3], [1]] demo_memtable 0
      (snd (flusher_start (new_flusher None))) Map.empty = (Inl e, f', Map.empty) \<and> fl_failedFlushes f' = 1"
proof -
  let ?f = "snd (flusher_start (new_flusher None))" and ?io = "io_fine\<lparr>io_open_ok := False\<rparr>"
  have f: "fl_running ?f" "fl_failedFlushes ?f = 0" by (simp_all add: flusher_start_def new_flusher_def)
  have "\<exists>e f'. flush_memtable tiny_bloom ?io 0 [[3], [1]] demo_memtable 0 ?f Map.empty = (Inl e, f', Map.empty)
      \<and> \<not> is_panic e"
    using f(1) by (simp add: flush_memtable_def mt_entries_def Let_def create_writer_def io_fine_def wrapE_def)
  then obtain e f' where fl: "flush_memtable tiny_bloom ?io 0 [[3], [1]] demo_memtable 0 ?f Map.empty = (Inl e, f', Map.empty)"
    and e: "\<not> is_panic e" by blast
  have "[[3], [1 :: byte]] \<noteq> []" by simp
  from flush_accounting [OF f(1) this fl] e f(2) fl show ?thesis by (auto simp: succeeds_def)
qed

end
