(* ===== verification/Manifest.thy ===== *)
theory Manifest
  imports Files Graph_Types
begin

text \<open>
  \<open>pkg/manifest/manifest.go\<close>: the list of live tables, saved as JSON through a temporary file
  and a rename.  Every operation holds the mutex.  The JSON text itself is not modelled: the
  marshaller and the unmarshaller are arguments (\<open>json\<close>), and what is needed of them, that a
  given manifest reads back as itself, is a hypothesis (\<open>reads_back\<close>); it fails for a path
  that is not UTF-8.
\<close>

section \<open>State and operations\<close>

record sstable_entry =
  se_Path :: bytes
  se_Level :: int
  se_Size :: int
  se_NumEntries :: u64
  se_CreatedAt :: u64
  se_MinKey :: bytes
  se_MaxKey :: bytes

text \<open>The exported fields, which are what is saved, and the whole manifest with its path.\<close>

record manifest_data =
  mf_Version :: u64
  mf_SSTables :: "sstable_entry list"
  mf_UpdatedAt :: u64

record manifest = manifest_data +
  mf_path :: bytes

record json =
  js_marshal :: "manifest_data \<Rightarrow> bytes res"
  js_unmarshal :: "bytes \<Rightarrow> manifest_data res"

definition exported :: "manifest \<Rightarrow> manifest_data" where
  "exported m = \<lparr>mf_Version = mf_Version m, mf_SSTables = mf_SSTables m, mf_UpdatedAt = mf_UpdatedAt m\<rparr>"

definition manifest_save :: "json \<Rightarrow> wal_io \<Rightarrow> manifest \<Rightarrow> filesys \<Rightarrow> unit res \<times> filesys" where
  "manifest_save J io m fs =
     (case wrapE ''failed to marshal manifest'' (js_marshal J (exported m)) of
        Inl e \<Rightarrow> (Inl e, fs)
      | Inr data \<Rightarrow>
          (let tempPath = mf_path m @ lit ''.tmp''
           in case write_file io tempPath data fs of
                (Inl e, fs) \<Rightarrow> (wrapE ''failed to write manifest'' (Inl e), fs)
              | (Inr _, fs) \<Rightarrow>
                  (case rename_file io tempPath (mf_path m) fs of
                     (Inl e, fs) \<Rightarrow> (wrapE ''failed to rename manifest'' (Inl e), snd (remove_file io tempPath fs))
                   | (Inr _, fs) \<Rightarrow> (Inr (), fs))))"

text \<open>The common end of the changes: the version, the time, the save.\<close>

definition commit :: "json \<Rightarrow> wal_io \<Rightarrow> u64 \<Rightarrow> sstable_entry list \<Rightarrow> manifest \<Rightarrow> filesys \<Rightarrow> unit res \<times> manifest \<times> filesys" where
  "commit J io now tables m fs =
     (let m = m\<lparr>mf_SSTables := tables, mf_Version := mf_Version m + 1, mf_UpdatedAt := now\<rparr>;
          (r, fs) = manifest_save J io m fs
      in (r, m, fs))"

definition add_sstable :: "json \<Rightarrow> wal_io \<Rightarrow> u64 \<Rightarrow> sstable_entry \<Rightarrow> manifest \<Rightarrow> filesys \<Rightarrow> unit res \<times> manifest \<times> filesys" where
  "add_sstable J io now en m fs = commit J io now (mf_SSTables m @ [en]) m fs"

definition remove_sstable :: "json \<Rightarrow> wal_io \<Rightarrow> u64 \<Rightarrow> bytes \<Rightarrow> manifest \<Rightarrow> filesys \<Rightarrow> unit res \<times> manifest \<times> filesys" where
  "remove_sstable J io now path m fs = commit J io now (filter (\<lambda>t. se_Path t \<noteq> path) (mf_SSTables m)) m fs"

definition remove_sstables :: "json \<Rightarrow> wal_io \<Rightarrow> u64 \<Rightarrow> bytes list \<Rightarrow> manifest \<Rightarrow> filesys \<Rightarrow> unit res \<times> manifest \<times> filesys" where
  "remove_sstables J io now paths m fs =
     commit J io now (filter (\<lambda>t. se_Path t \<notin> set paths) (mf_SSTables m)) m fs"

definition update_sstables ::
  "json \<Rightarrow> wal_io \<Rightarrow> u64 \<Rightarrow> sstable_entry list \<Rightarrow> bytes list \<Rightarrow> manifest \<Rightarrow> filesys \<Rightarrow> unit res \<times> manifest \<times> filesys" where
  "update_sstables J io now toAdd toRemove m fs =
     commit J io now (filter (\<lambda>t. se_Path t \<notin> set toRemove) (mf_SSTables m) @ toAdd) m fs"

definition get_sstables :: "manifest \<Rightarrow> sstable_entry list" where
  "get_sstables m = mf_SSTables m"

text \<open>\<open>loadManifest\<close>; the path is not part of what is loaded.\<close>

definition load_manifest :: "json \<Rightarrow> wal_io \<Rightarrow> bytes \<Rightarrow> filesys \<Rightarrow> manifest_data res" where
  "load_manifest J io path fs =
     (case fs path of
        None \<Rightarrow> Inl (Err ''not exist'')
      | Some d \<Rightarrow>
          if \<not> io_open_ok io then Inl (Err ''open'')
          else wrapE ''failed to unmarshal manifest'' (js_unmarshal J d))"

definition manifest_path :: "bytes \<Rightarrow> bytes" where
  "manifest_path dataDir = path_join dataDir (lit ''MANIFEST'')"

definition with_path :: "bytes \<Rightarrow> manifest_data \<Rightarrow> manifest" where
  "with_path path d =
     \<lparr>mf_Version = mf_Version d, mf_SSTables = mf_SSTables d, mf_UpdatedAt = mf_UpdatedAt d, mf_path = path\<rparr>"

definition new_manifest :: "json \<Rightarrow> wal_io \<Rightarrow> u64 \<Rightarrow> bytes option \<Rightarrow> filesys \<Rightarrow> manifest res \<times> filesys" where
  "new_manifest J io now dataDir fs =
     (let dir = (case dataDir of None \<Rightarrow> lit ''./data'' | Some d \<Rightarrow> d);
          path = manifest_path dir
      in if \<not> io_mkdir_ok io then (Inl (Wrap ''failed to create data directory'' (Err ''mkdir'')), fs)
         else case load_manifest J io path fs of
           Inr d \<Rightarrow> (Inr (with_path path d), fs)
         | Inl e \<Rightarrow>
             if e = Err ''not exist'' then
               (let m = \<lparr>mf_Version = 1, mf_SSTables = [], mf_UpdatedAt = now, mf_path = path\<rparr>
                in case manifest_save J io m fs of
                     (Inl e, fs) \<Rightarrow> (wrapE ''failed to save initial manifest'' (Inl e), fs)
                   | (Inr _, fs) \<Rightarrow> (Inr m, fs))
             else (wrapE ''failed to load manifest'' (Inl e), fs))"

record manifest_stats =
  mst_Version :: u64
  mst_NumSSTables :: nat
  mst_TotalSize :: int
  mst_NumLevels :: int
  mst_TablesPerLevel :: "int \<Rightarrow> nat"
  mst_UpdatedAt :: u64

fun tally :: "sstable_entry list \<Rightarrow> int \<times> int \<times> (int \<Rightarrow> nat) \<Rightarrow> int \<times> int \<times> (int \<Rightarrow> nat)" where
  "tally [] acc = acc"
| "tally (t # ts) (totalSize, maxLevel, tablesPerLevel) =
     tally ts (totalSize + se_Size t, if se_Level t > maxLevel then se_Level t else maxLevel,
               tablesPerLevel(se_Level t := tablesPerLevel (se_Level t) + 1))"

definition stats_of_manifest :: "manifest \<Rightarrow> manifest_stats" where
  "stats_of_manifest m =
     (let (totalSize, maxLevel, tablesPerLevel) = tally (mf_SSTables m) (0, 0, (\<lambda>_. 0))
      in \<lparr>mst_Version = mf_Version m, mst_NumSSTables = length (mf_SSTables m), mst_TotalSize = totalSize,
          mst_NumLevels = maxLevel + 1, mst_TablesPerLevel = tablesPerLevel, mst_UpdatedAt = mf_UpdatedAt m\<rparr>)"

definition checkpoint :: "json \<Rightarrow> wal_io \<Rightarrow> u64 \<Rightarrow> manifest \<Rightarrow> filesys \<Rightarrow> unit res \<times> filesys" where
  "checkpoint J io nowUnix m fs =
     (case wrapE ''failed to marshal manifest'' (js_marshal J (exported m)) of
        Inl e \<Rightarrow> (Inl e, fs)
      | Inr data \<Rightarrow>
          (case write_file io (mf_path m @ lit ''.'' @ decimal (sint nowUnix)) data fs of
             (Inl e, fs) \<Rightarrow> (wrapE ''failed to write checkpoint'' (Inl e), fs)
           | (Inr _, fs) \<Rightarrow> (Inr (), fs)))"

fun verify_tables :: "wal_io \<Rightarrow> sstable_entry list \<Rightarrow> filesys \<Rightarrow> unit res" where
  "verify_tables io [] fs = Inr ()"
| "verify_tables io (t # ts) fs =
     (if fs (se_Path t) = None then Inl (Err ''SSTable does not exist'')
      else if \<not> io_stat_ok io then Inl (Wrap ''failed to stat SSTable'' (Err ''stat''))
      else verify_tables io ts fs)"

definition manifest_verify :: "wal_io \<Rightarrow> manifest \<Rightarrow> filesys \<Rightarrow> unit res" where
  "manifest_verify io m fs = verify_tables io (mf_SSTables m) fs"

section \<open>Saving\<close>

definition reads_back :: "json \<Rightarrow> manifest_data \<Rightarrow> bool" where
  "reads_back J m \<longleftrightarrow> (\<exists>d. js_marshal J m = Inr d \<and> js_unmarshal J d = Inr m)"

lemma temp_path: "m @ lit ''.tmp'' \<noteq> m"
  by (simp add: lit_def)

lemma manifest_save_cases:
  assumes "manifest_save J io m fs = (r, fs')"
  shows "(r = Inr () \<longrightarrow> (\<exists>d. js_marshal J (exported m) = Inr d \<and> fs' (mf_path m) = Some d))
    \<and> (r \<noteq> Inr () \<longrightarrow> fs' (mf_path m) = fs (mf_path m))
    \<and> (\<forall>p. p \<noteq> mf_path m \<longrightarrow> p \<noteq> mf_path m @ lit ''.tmp'' \<longrightarrow> fs' p = fs p)"
proof (cases "js_marshal J (exported m)")
  case (Inl e)
  with assms show ?thesis by (auto simp: manifest_save_def wrapE_def split: go_error.splits)
next
  case (Inr d)
  let ?t = "mf_path m @ lit ''.tmp''"
  obtain r1 fs1 where w: "write_file io ?t d fs = (r1, fs1)" by force
  have f1: "\<forall>p. p \<noteq> ?t \<longrightarrow> fs1 p = fs p" using write_file_frame [of _ ?t io d fs] w by simp
  show ?thesis
  proof (cases r1)
    case (Inl e)
    with assms w f1 Inr temp_path [of "mf_path m"] show ?thesis
      by (auto simp: manifest_save_def wrapE_def Let_def split: go_error.splits)
  next
    case (Inr u)
    with w have fs1: "fs1 = fs(?t \<mapsto> d)" using write_file_ok by blast
    show ?thesis
    proof (cases "io_rename_ok io")
      case True
      with assms w fs1 Inr \<open>js_marshal J (exported m) = Inr d\<close> show ?thesis
        by (auto simp: manifest_save_def Let_def rename_file_def)
    next
      case False
      with assms w fs1 Inr \<open>js_marshal J (exported m) = Inr d\<close> temp_path [of "mf_path m"]
      show ?thesis by (auto simp: manifest_save_def Let_def rename_file_def remove_file_def wrapE_Inr_iff split: if_splits)
    qed
  qed
qed

section \<open>Histories\<close>

datatype manifest_op =
    OpAdd sstable_entry | OpRemove bytes | OpRemoveAll "bytes list" | OpUpdate "sstable_entry list" "bytes list"

text \<open>What each operation promises for the list of tables.\<close>

fun spec_op :: "manifest_op \<Rightarrow> sstable_entry list \<Rightarrow> sstable_entry list" where
  "spec_op (OpAdd en) ts = ts @ [en]"
| "spec_op (OpRemove p) ts = filter (\<lambda>t. se_Path t \<noteq> p) ts"
| "spec_op (OpRemoveAll ps) ts = filter (\<lambda>t. se_Path t \<notin> set ps) ts"
| "spec_op (OpUpdate add rm) ts = filter (\<lambda>t. se_Path t \<notin> set rm) ts @ add"

fun do_op :: "json \<Rightarrow> wal_io \<Rightarrow> u64 \<Rightarrow> manifest_op \<Rightarrow> manifest \<Rightarrow> filesys \<Rightarrow> unit res \<times> manifest \<times> filesys" where
  "do_op J io now (OpAdd en) m fs = add_sstable J io now en m fs"
| "do_op J io now (OpRemove p) m fs = remove_sstable J io now p m fs"
| "do_op J io now (OpRemoveAll ps) m fs = remove_sstables J io now ps m fs"
| "do_op J io now (OpUpdate add rm) m fs = update_sstables J io now add rm m fs"

text \<open>
  A run, with the faults and the time of each operation; the last component is the manifest
  as it was after the last operation that reported success.
\<close>

fun run_ops :: "json \<Rightarrow> (wal_io \<times> u64 \<times> manifest_op) list \<Rightarrow> manifest \<times> filesys \<times> manifest \<Rightarrow> manifest \<times> filesys \<times> manifest" where
  "run_ops J [] st = st"
| "run_ops J ((io, now, op) # es) (m, fs, saved) =
     (case do_op J io now op m fs of
        (r, m', fs') \<Rightarrow> run_ops J es (m', fs', if r = Inr () then m' else saved))"

definition on_disk :: "json \<Rightarrow> manifest \<Rightarrow> filesys \<Rightarrow> bool" where
  "on_disk J m fs \<longleftrightarrow> (\<exists>d. js_marshal J (exported m) = Inr d \<and> fs (mf_path m) = Some d)"

lemma do_op_commit: "do_op J io now op m fs = commit J io now (spec_op op (mf_SSTables m)) m fs"
  by (cases op) (simp_all add: add_sstable_def remove_sstable_def remove_sstables_def update_sstables_def)

lemma do_op_effect:
  assumes "do_op J io now op m fs = (r, m', fs')"
  shows "mf_SSTables m' = spec_op op (mf_SSTables m) \<and> mf_path m' = mf_path m \<and> mf_Version m' = mf_Version m + 1
    \<and> (r = Inr () \<longrightarrow> on_disk J m' fs') \<and> (r \<noteq> Inr () \<longrightarrow> fs' (mf_path m) = fs (mf_path m))"
proof -
  let ?m = "m\<lparr>mf_SSTables := spec_op op (mf_SSTables m), mf_Version := mf_Version m + 1, mf_UpdatedAt := now\<rparr>"
  from assms have m': "m' = ?m" and s: "manifest_save J io ?m fs = (r, fs')"
    by (auto simp: do_op_commit commit_def Let_def split: prod.splits)
  from manifest_save_cases [OF s] show ?thesis by (simp add: m' on_disk_def)
qed

lemma run_ops_inv:
  "run_ops J es (m, fs, saved) = (m', fs', saved') \<Longrightarrow> on_disk J saved fs \<Longrightarrow> mf_path saved = mf_path m \<Longrightarrow>
   on_disk J saved' fs' \<and> mf_path saved' = mf_path m \<and> mf_path m' = mf_path m
   \<and> mf_SSTables m' = fold (\<lambda>(_, _, op). spec_op op) es (mf_SSTables m)"
proof (induction es arbitrary: m fs saved)
  case (Cons ev es)
  obtain io now op where e: "ev = (io, now, op)" by (metis prod_cases3)
  obtain r m1 fs1 where d: "do_op J io now op m fs = (r, m1, fs1)" by (metis prod_cases3)
  note E = do_op_effect [OF d]
  let ?saved = "if r = Inr () then m1 else saved"
  have run: "run_ops J es (m1, fs1, ?saved) = (m', fs', saved')" using Cons.prems(1) d by (simp add: e)
  have "on_disk J ?saved fs1"
  proof (cases "r = Inr ()")
    case False
    with E Cons.prems(2,3) show ?thesis by (simp add: on_disk_def)
  qed (use E in simp)
  moreover have "mf_path ?saved = mf_path m1" using E Cons.prems(3) by simp
  ultimately have "on_disk J saved' fs' \<and> mf_path saved' = mf_path m1 \<and> mf_path m' = mf_path m1
   \<and> mf_SSTables m' = fold (\<lambda>(_, _, op). spec_op op) es (mf_SSTables m1)"
    by (rule Cons.IH [OF run])
  with E show ?case by (simp add: e)
qed simp

lemma with_path_exported: "with_path (mf_path m) (exported m) = m"
  by (simp add: with_path_def exported_def)

text \<open>
  C19: The manifest survives crashes.  Start a manifest in a fresh directory and apply any
  changes, each with its own faults (a write cut off anywhere, a failed rename).  The tables
  in memory are those the changes promise; on disk is, whole, the manifest of the last change
  that reported success, never a torn or mixed one, so opening the directory again gives it
  back.  A change that reported an error is kept in memory though it is not on disk.
\<close>

theorem manifest_recovers:
  assumes fresh: "fs0 (manifest_path dir) = None" and new: "new_manifest J io0 now0 (Some dir) fs0 = (Inr m0, fs1)"
    and run: "run_ops J es (m0, fs1, m0) = (m, fs, saved)"
    and json: "reads_back J (exported saved)" and io: "io_mkdir_ok io" "io_open_ok io"
  shows "mf_SSTables m = fold (\<lambda>(_, _, op). spec_op op) es []
    \<and> new_manifest J io now (Some dir) fs = (Inr saved, fs)"
proof -
  let ?path = "manifest_path dir"
  let ?m = "\<lparr>mf_Version = 1, mf_SSTables = [], mf_UpdatedAt = now0, mf_path = ?path\<rparr>"
  from new fresh have m0: "m0 = ?m" and s: "manifest_save J io0 ?m fs0 = (Inr (), fs1)"
    by (auto simp: new_manifest_def load_manifest_def Let_def wrapE_def split: if_splits prod.splits sum.splits go_error.splits)
  from manifest_save_cases [OF s] have "on_disk J m0 fs1" by (simp add: on_disk_def m0)
  from run_ops_inv [OF run this refl] have inv: "on_disk J saved fs" "mf_path saved = ?path"
    "mf_SSTables m = fold (\<lambda>(_, _, op). spec_op op) es []" by (simp_all add: m0)
  from inv(1,2) json have "load_manifest J io ?path fs = Inr (exported saved)"
    using io(2) by (auto simp: on_disk_def load_manifest_def reads_back_def)
  with io(1) inv with_path_exported [of saved] show ?thesis
    by (simp add: new_manifest_def Let_def)
qed

text \<open>A marshaller that reads one manifest back.\<close>

definition one_json :: "manifest_data \<Rightarrow> json" where
  "one_json m = \<lparr>js_marshal = (\<lambda>_. Inr [7]), js_unmarshal = (\<lambda>_. Inr m)\<rparr>"

definition demo_entry :: sstable_entry where
  "demo_entry = \<lparr>se_Path = [1], se_Level = 0, se_Size = 9, se_NumEntries = 1, se_CreatedAt = 3, se_MinKey = [2], se_MaxKey = [2]\<rparr>"

theorem manifest_recovers_witness:
  "\<exists>m fs saved J. run_ops J [(io_fine, 5, OpAdd demo_entry), (io_fine\<lparr>io_rename_ok := False\<rparr>, 6, OpRemove (se_Path demo_entry))]
        (\<lparr>mf_Version = 1, mf_SSTables = [], mf_UpdatedAt = 4, mf_path = manifest_path [100]\<rparr>,
         [manifest_path [100] \<mapsto> [7]],
         \<lparr>mf_Version = 1, mf_SSTables = [], mf_UpdatedAt = 4, mf_path = manifest_path [100]\<rparr>) = (m, fs, saved)
     \<and> mf_SSTables m = [] \<and> mf_SSTables saved = [demo_entry]
     \<and> fst (new_manifest J io_fine 7 (Some [100]) fs) = Inr saved"
proof -
  let ?p = "manifest_path [100]"
  let ?m0 = "\<lparr>mf_Version = 1, mf_SSTables = [], mf_UpdatedAt = 4, mf_path = ?p\<rparr>"
  let ?saved = "\<lparr>mf_Version = 2, mf_SSTables = [demo_entry], mf_UpdatedAt = 5, mf_path = ?p\<rparr>"
  let ?J = "one_json (exported ?saved)"
  let ?es = "[(io_fine, 5, OpAdd demo_entry), (io_fine\<lparr>io_rename_ok := False\<rparr>, 6, OpRemove (se_Path demo_entry))]"
  have save: "manifest_save ?J io_fine (m :: manifest) fs = (Inr (), fs(mf_path m @ lit ''.tmp'' := None, mf_path m \<mapsto> [7]))"
    for m fs
    by (simp add: manifest_save_def one_json_def write_file_def file_write_def io_fine_def rename_file_def Let_def)
  have nsave: "manifest_save ?J (io_fine\<lparr>io_rename_ok := False\<rparr>) (m :: manifest) fs \<noteq> (Inr (), fs')" for m fs fs'
    by (simp add: manifest_save_def one_json_def write_file_def file_write_def io_fine_def rename_file_def Let_def wrapE_def)
  have fs1: "[manifest_path [100] \<mapsto> [7]] = Map.empty(?p @ lit ''.tmp'' := None, ?p \<mapsto> [7])" by simp
  have new: "new_manifest ?J io_fine 4 (Some [100]) Map.empty = (Inr ?m0, [?p \<mapsto> [7]])"
    by (simp add: new_manifest_def load_manifest_def save Let_def io_fine_def [THEN arg_cong, of io_mkdir_ok])
  obtain m fs saved where run: "run_ops ?J ?es (?m0, [?p \<mapsto> [7]], ?m0) = (m, fs, saved)" by (metis prod_cases3)
  have saved: "saved = ?saved"
    using run nsave by (auto simp: add_sstable_def remove_sstable_def commit_def save Let_def split: prod.splits if_splits)
  have io: "io_mkdir_ok io_fine" "io_open_ok io_fine" by (simp_all add: io_fine_def)
  have "reads_back ?J (exported saved)" unfolding saved by (simp add: reads_back_def one_json_def)
  from manifest_recovers [OF _ new run this io, of 7] have
    "mf_SSTables m = []" "new_manifest ?J io_fine 7 (Some [100]) fs = (Inr saved, fs)" by simp_all
  with run saved show ?thesis by (intro exI [of _ m] exI [of _ fs] exI [of _ saved] exI [of _ ?J]) simp
qed

text \<open>
  \<open>UpdateSSTables\<close> is its parts in one version.  An update leaves the tables that removing
  each path and then adding each entry one at a time would leave, but as a single new version
  and a single save.
\<close>

theorem update_is_removes_then_adds:
  "mf_SSTables (fst (snd (update_sstables J io now toAdd toRemove m fs))) =
     mf_SSTables (foldl (\<lambda>m en. fst (snd (add_sstable J io1 now1 en m fs1)))
       (foldl (\<lambda>m p. fst (snd (remove_sstable J io2 now2 p m fs2))) m toRemove) toAdd)
   \<and> mf_Version (fst (snd (update_sstables J io now toAdd toRemove m fs))) = mf_Version m + 1"
proof -
  have tables: "mf_SSTables (fst (snd (commit J io now ts m fs))) = ts" for io now ts and m :: manifest and fs
    by (simp add: commit_def Let_def split: prod.splits)
  have add: "mf_SSTables (foldl (\<lambda>m en. fst (snd (add_sstable J io1 now1 en m fs1))) m toAdd) = mf_SSTables m @ toAdd"
    for m by (induction toAdd arbitrary: m) (simp_all add: add_sstable_def tables)
  have rm: "mf_SSTables (foldl (\<lambda>m p. fst (snd (remove_sstable J io2 now2 p m fs2))) m toRemove)
      = filter (\<lambda>t. se_Path t \<notin> set toRemove) (mf_SSTables m)" for m
  proof (induction toRemove arbitrary: m)
    case (Cons p ps)
    then show ?case by (simp add: remove_sstable_def tables)
  qed simp
  have "mf_Version (fst (snd (update_sstables J io now toAdd toRemove m fs))) = mf_Version m + 1"
    by (simp add: update_sstables_def commit_def Let_def split: prod.splits)
  then show ?thesis by (simp add: add rm update_sstables_def tables)
qed

section \<open>Statistics and verification\<close>

lemma tally_spec:
  "tally ts (size0, lev0, per0) =
     (size0 + sum_list (map se_Size ts), foldl max lev0 (map se_Level ts),
      (\<lambda>l. per0 l + length (filter (\<lambda>t. se_Level t = l) ts)))"
  by (induction ts arbitrary: size0 lev0 per0) (auto simp: max_def fun_eq_iff)

text \<open>
  \<open>Stats\<close> and \<open>Verify\<close>.  The statistics count what is in the list: the total size is the
  sum, each level's count is the number of its tables, and no table is above the reported
  number of levels.  \<open>Verify\<close> passes exactly when every listed file exists (on a device where
  \<open>stat\<close> works).
\<close>

theorem manifest_stats_and_verify:
  "mst_TotalSize (stats_of_manifest m) = sum_list (map se_Size (get_sstables m))
   \<and> mst_TablesPerLevel (stats_of_manifest m) l = length (filter (\<lambda>t. se_Level t = l) (get_sstables m))
   \<and> (l < mst_NumLevels (stats_of_manifest m) \<or> mst_TablesPerLevel (stats_of_manifest m) l = 0)
   \<and> (succeeds (manifest_verify (io\<lparr>io_stat_ok := True\<rparr>) m fs) \<longleftrightarrow> se_Path ` set (get_sstables m) \<subseteq> dom fs)"
proof -
  have max: "lev0 \<le> foldl max lev0 ls \<and> (\<forall>l\<in>set ls. l \<le> foldl max lev0 ls)" for lev0 :: int and ls
    by (induction ls arbitrary: lev0) (auto, (metis max.bounded_iff)+)
  have ver: "succeeds (verify_tables (io\<lparr>io_stat_ok := True\<rparr>) ts fs) \<longleftrightarrow> se_Path ` set ts \<subseteq> dom fs" for ts
    by (induction ts) (auto simp: succeeds_def)
  have "l < foldl max 0 (map se_Level (mf_SSTables m)) + 1 \<or> filter (\<lambda>t. se_Level t = l) (mf_SSTables m) = []"
    using max [of 0 "map se_Level (mf_SSTables m)"] by (auto simp: filter_empty_conv)
  then show ?thesis
    unfolding manifest_verify_def get_sstables_def ver
    by (simp add: stats_of_manifest_def tally_spec)
qed

end
