(* ===== verification/Engine.thy ===== *)
theory Engine
  imports Recovery Multilevel_Cache Flusher Manifest
begin

unbundle bit_operations_syntax

text \<open>
  \<open>pkg/storage/engine.go\<close>: the lanes, the cache and the background components.  An operation is
  a state transformer; operations of different goroutines are the steps of an interleaving.
  The iteration order of a Go map (a set of identifiers, the properties of an update) and of a
  table's entries is an argument, as is the clock.
\<close>

section \<open>State\<close>

record engine =
  en_lanes :: "lane list"
  en_numLanes :: nat
  en_memtableSize :: int
  en_cache :: mlc
  en_flusher :: flusher
  en_compactor :: compactor
  en_manifest :: manifest
  en_running :: bool
  en_cancelled :: bool
  en_fs :: filesys

record engine_config =
  ec_NumWriteLanes :: int
  ec_MemtableSize :: int
  ec_CacheSize :: int
  ec_DataDir :: bytes
  ec_WALDir :: bytes
  ec_EnableWAL :: bool

definition default_engine_config :: engine_config where
  "default_engine_config =
     \<lparr>ec_NumWriteLanes = 16, ec_MemtableSize = 64 * 1024 * 1024, ec_CacheSize = 4 * 1024 * 1024 * 1024,
      ec_DataDir = lit ''./data'', ec_WALDir = lit ''./data/wal'', ec_EnableWAL = True\<rparr>"

text \<open>
  The lanes of \<open>NewEngine\<close>, each with the log it finds in the directory; without \<open>EnableWAL\<close>
  the lanes get no configuration, which \<open>NewWAL\<close> takes for the default one: the log is on
  all the same.
\<close>

definition wal_dir :: "engine_config \<Rightarrow> bytes" where
  "wal_dir config = (if ec_EnableWAL config then ec_WALDir config else wc_DataDir default_wal_config)"

fun open_lanes :: "wal_io \<Rightarrow> int \<Rightarrow> (nat \<Rightarrow> bytes option) \<Rightarrow> nat \<Rightarrow> nat \<Rightarrow> lane list res" where
  "open_lanes io memtableSize logs i 0 = Inr []"
| "open_lanes io memtableSize logs i (Suc n) =
     bindE (wrapE ''failed to create write lane'' (open_write_lane io i memtableSize default_wal_config (logs i))) (\<lambda>l.
     bindE (open_lanes io memtableSize logs (Suc i) n) (\<lambda>ls. Inr (l # ls)))"

definition new_engine ::
  "json \<Rightarrow> wal_io \<Rightarrow> u64 \<Rightarrow> (bytes \<Rightarrow> nat \<Rightarrow> bytes option) \<Rightarrow> engine_config option \<Rightarrow> filesys \<Rightarrow> engine res \<times> filesys" where
  "new_engine J io now logs config fs =
     (let config = (case config of None \<Rightarrow> default_engine_config | Some c \<Rightarrow> c)
      in if ec_NumWriteLanes config \<le> 0 then (Inl (Err ''number of write lanes must be positive''), fs)
         else if ec_MemtableSize config \<le> 0 then (Inl (Err ''memtable size must be positive''), fs)
         else
           let mlCache = new_mlc_from_size (ec_CacheSize config);
               flusher = new_flusher (Some \<lparr>fc_DataDir = ec_DataDir config, fc_FlushInterval = 0\<rparr>);
               compactor = new_compactor (Some (default_compaction_config
                 \<lparr>cc_DataDir := ec_DataDir config @ lit ''/sstables''\<rparr>))
           in case new_manifest J io now (Some (ec_DataDir config)) fs of
                (Inl e, fs) \<Rightarrow> (wrapE ''failed to create manifest'' (Inl e), fs)
              | (Inr mani, fs) \<Rightarrow>
                  (case open_lanes io (ec_MemtableSize config) (logs (wal_dir config)) 0 (nat (ec_NumWriteLanes config)) of
                     Inl e \<Rightarrow> (Inl e, fs)
                   | Inr lanes \<Rightarrow>
                       (Inr \<lparr>en_lanes = lanes, en_numLanes = nat (ec_NumWriteLanes config),
                             en_memtableSize = ec_MemtableSize config, en_cache = mlCache, en_flusher = flusher,
                             en_compactor = compactor, en_manifest = mani, en_running = False,
                             en_cancelled = False, en_fs = fs\<rparr>, fs)))"

section \<open>Life cycle\<close>

fun recover_lanes :: "wal_io \<Rightarrow> lane list \<Rightarrow> unit res \<times> lane list" where
  "recover_lanes io [] = (Inr (), [])"
| "recover_lanes io (l # ls) =
     (case lane_recover io l of
        (Inl e, l) \<Rightarrow> (wrapE ''failed to recover lane'' (Inl e), l # ls)
      | (Inr _, l) \<Rightarrow> (case recover_lanes io ls of (r, ls) \<Rightarrow> (r, l # ls)))"

definition engine_start :: "wal_io \<Rightarrow> engine \<Rightarrow> unit res \<times> engine" where
  "engine_start io e =
     (if en_running e then (Inl (Err ''engine already running''), e)
      else case recover_lanes io (en_lanes e) of
        (Inl er, lanes) \<Rightarrow>
          (wrapE ''failed to recover from WAL'' (Inl er), e\<lparr>en_lanes := lanes, en_running := is_panic er\<rparr>)
      | (Inr _, lanes) \<Rightarrow>
          (let e = e\<lparr>en_lanes := lanes, en_running := True\<rparr>
           in case flusher_start (en_flusher e) of
                (Inl er, _) \<Rightarrow> (wrapE ''failed to start flusher'' (Inl er), e\<lparr>en_running := False\<rparr>)
              | (Inr _, f) \<Rightarrow>
                  (let e = e\<lparr>en_flusher := f\<rparr>
                   in case compactor_start (en_compactor e) of
                        (Inl er, _) \<Rightarrow> (wrapE ''failed to start compactor'' (Inl er), e\<lparr>en_running := False\<rparr>)
                      | (Inr _, c) \<Rightarrow> (Inr (), e\<lparr>en_compactor := c\<rparr>))))"

text \<open>
  The body of \<open>runLaneFlusher\<close>: on a flush signal, and on the stop signal.  A worker is also told
  to end by the cancelled context, and Go picks any ready case, so which lanes still flush on a
  stop is an argument (\<open>drained\<close>).
\<close>

fun flush_old_tables ::
  "'b bloom \<Rightarrow> wal_io \<Rightarrow> (nat \<Rightarrow> u64) \<Rightarrow> (memtable \<Rightarrow> bytes list) \<Rightarrow> (nat \<times> memtable) list
    \<Rightarrow> lane \<times> flusher \<times> filesys \<Rightarrow> unit res \<times> lane \<times> flusher \<times> filesys" where
  "flush_old_tables B io clock ord [] st = (Inr (), st)"
| "flush_old_tables B io clock ord ((i, mt) # ts) (l, f, fs) =
     (if mt_is_frozen mt then
        (case flush_memtable B io (clock i) (ord mt) mt (int (l_id l)) f fs of
           (Inl e, f, fs) \<Rightarrow> if is_panic e then (Inl e, l, f, fs) else flush_old_tables B io clock ord ts (l, f, fs)
         | (Inr _, f, fs) \<Rightarrow> flush_old_tables B io clock ord ts (remove_old_memtable i l, f, fs))
      else flush_old_tables B io clock ord ts (l, f, fs))"

definition on_flush_signal ::
  "'b bloom \<Rightarrow> wal_io \<Rightarrow> (nat \<Rightarrow> u64) \<Rightarrow> (memtable \<Rightarrow> bytes list) \<Rightarrow> nat \<Rightarrow> engine \<Rightarrow> unit res \<times> engine" where
  "on_flush_signal B io clock ord i e =
     (let l = en_lanes e ! i
      in if \<not> l_flushCh l then (Inr (), e)
         else case flush_old_tables B io clock ord (get_old_memtables l) (l\<lparr>l_flushCh := False\<rparr>, en_flusher e, en_fs e) of
           (r, l, f, fs) \<Rightarrow> (r, e\<lparr>en_lanes := (en_lanes e)[i := l], en_flusher := f, en_fs := fs\<rparr>))"

fun drain_tables ::
  "'b bloom \<Rightarrow> wal_io \<Rightarrow> (nat \<Rightarrow> u64) \<Rightarrow> (memtable \<Rightarrow> bytes list) \<Rightarrow> int \<Rightarrow> (nat \<times> memtable) list
    \<Rightarrow> flusher \<times> filesys \<Rightarrow> unit res \<times> flusher \<times> filesys" where
  "drain_tables B io clock ord laneID [] st = (Inr (), st)"
| "drain_tables B io clock ord laneID ((i, mt) # ts) (f, fs) =
     (case flush_memtable B io (clock i) (ord mt) mt laneID f fs of
        (Inl e, f, fs) \<Rightarrow> if is_panic e then (Inl e, f, fs) else drain_tables B io clock ord laneID ts (f, fs)
      | (Inr _, f, fs) \<Rightarrow> drain_tables B io clock ord laneID ts (f, fs))"

fun drain_lanes ::
  "'b bloom \<Rightarrow> wal_io \<Rightarrow> (nat \<Rightarrow> u64) \<Rightarrow> (memtable \<Rightarrow> bytes list) \<Rightarrow> (nat \<Rightarrow> bool) \<Rightarrow> lane list
    \<Rightarrow> flusher \<times> filesys \<Rightarrow> unit res \<times> flusher \<times> filesys" where
  "drain_lanes B io clock ord drained [] st = (Inr (), st)"
| "drain_lanes B io clock ord drained (l # ls) st =
     (if drained (l_id l) then
        (case drain_tables B io clock ord (int (l_id l)) (get_old_memtables l) st of
           (Inl e, st) \<Rightarrow> (Inl e, st)
         | (Inr _, st) \<Rightarrow> drain_lanes B io clock ord drained ls st)
      else drain_lanes B io clock ord drained ls st)"

definition engine_stop ::
  "'b bloom \<Rightarrow> json \<Rightarrow> wal_io \<Rightarrow> (nat \<Rightarrow> u64) \<Rightarrow> (memtable \<Rightarrow> bytes list) \<Rightarrow> (nat \<Rightarrow> bool) \<Rightarrow> engine \<Rightarrow> unit res \<times> engine" where
  "engine_stop B J io clock ord drained e =
     (if \<not> en_running e then (Inl (Err ''engine not running''), e)
      else
        let e = e\<lparr>en_running := False, en_lanes := map (lane_stop io) (en_lanes e), en_cancelled := True\<rparr>
        in case drain_lanes B io clock ord drained (en_lanes e) (en_flusher e, en_fs e) of
          (Inl er, f, fs) \<Rightarrow> (Inl er, e\<lparr>en_flusher := f, en_fs := fs\<rparr>)
        | (Inr _, f, fs) \<Rightarrow>
            (let e = e\<lparr>en_flusher := f, en_fs := fs\<rparr>
             in case compactor_stop (en_compactor e) of
                  (Inl er, c) \<Rightarrow> (wrapE ''failed to stop compactor'' (Inl er), e\<lparr>en_compactor := c\<rparr>)
                | (Inr _, c) \<Rightarrow>
                    (let e = e\<lparr>en_compactor := c\<rparr>
                     in case flusher_stop (en_flusher e) of
                          (Inl er, f) \<Rightarrow> (wrapE ''failed to stop flusher'' (Inl er), e\<lparr>en_flusher := f\<rparr>)
                        | (Inr _, f) \<Rightarrow>
                            (let e = e\<lparr>en_flusher := f\<rparr>
                             in case manifest_save J io (en_manifest e) (en_fs e) of
                                  (Inl er, fs) \<Rightarrow> (wrapE ''failed to save manifest'' (Inl er), e\<lparr>en_fs := fs\<rparr>)
                                | (Inr _, fs) \<Rightarrow> (Inr (), e\<lparr>en_fs := fs\<rparr>)))))"

section \<open>Nodes\<close>

definition fnv_step :: "u32 \<Rightarrow> byte \<Rightarrow> u32" where
  "fnv_step h b = (h XOR ucast b) * 16777619"

definition fnv32a :: "bytes \<Rightarrow> u32" where
  "fnv32a key = foldl fnv_step 2166136261 key"

definition lane_index :: "engine \<Rightarrow> bytes \<Rightarrow> nat" where
  "lane_index e key = unat (fnv32a key mod word_of_nat (en_numLanes e))"

definition set_lane :: "nat \<Rightarrow> lane \<Rightarrow> engine \<Rightarrow> engine" where
  "set_lane i l e = e\<lparr>en_lanes := (en_lanes e)[i := l]\<rparr>"

definition create_node :: "wal_io \<Rightarrow> u64 \<Rightarrow> node \<Rightarrow> engine \<Rightarrow> unit res \<times> engine" where
  "create_node io now n e =
     (if \<not> en_running e then (Inl (Err ''engine not running''), e)
      else let i = lane_index e (n_ID n)
           in case write_node io now n (en_lanes e ! i) of (r, l) \<Rightarrow> (r, set_lane i l e))"

text \<open>The lanes a read looks at: the one the key hashes to, then the others.\<close>

definition probe_order :: "engine \<Rightarrow> bytes \<Rightarrow> lane list" where
  "probe_order e key =
     (let i = lane_index e key
      in en_lanes e ! i # map (\<lambda>j. en_lanes e ! j) (filter (\<lambda>j. j \<noteq> i) [0..<length (en_lanes e)]))"

definition engine_get_node :: "bytes \<Rightarrow> engine \<Rightarrow> node res \<times> engine" where
  "engine_get_node nodeID e =
     (if \<not> en_running e then (Inl (Err ''engine not running''), e)
      else case mlc_get_node nodeID (en_cache e) of
        (Inl er, c) \<Rightarrow> (Inl er, e\<lparr>en_cache := c\<rparr>)
      | (Inr (Some n), c) \<Rightarrow> (Inr (clone_node n), e\<lparr>en_cache := c\<rparr>)
      | (Inr None, c) \<Rightarrow>
          (case first_found (\<lambda>l. read_node l nodeID) (probe_order e nodeID) of
             Some n \<Rightarrow>
               (let cachedNode = clone_node n
                in (Inr (clone_node cachedNode), e\<lparr>en_cache := snd (mlc_put_node_by_id cachedNode c)\<rparr>))
           | None \<Rightarrow> (Inl (Err ''node not found''), e\<lparr>en_cache := c\<rparr>)))"

text \<open>
  \<open>t\<close> is the time the last \<open>SetProperty\<close> of the loop reads; the earlier ones are overwritten
  (\<open>set_each_last\<close>).
\<close>

definition update_node :: "wal_io \<Rightarrow> u64 \<Rightarrow> gotime \<Rightarrow> bytes \<Rightarrow> props \<Rightarrow> engine \<Rightarrow> unit res \<times> engine" where
  "update_node io now t nodeID properties e =
     (if \<not> en_running e then (Inl (Err ''engine not running''), e)
      else case engine_get_node nodeID e of
        (Inl er, e) \<Rightarrow> (wrapE ''failed to get node'' (Inl er), e)
      | (Inr n, e) \<Rightarrow>
          (case set_properties t properties (clone_node n) of
             Inl er \<Rightarrow> (Inl er, e)
           | Inr n \<Rightarrow>
               (let e = e\<lparr>en_cache := invalidate_node nodeID (en_cache e)\<rparr>; i = lane_index e nodeID
                in case write_node io now n (en_lanes e ! i) of (r, l) \<Rightarrow> (r, set_lane i l e))))"

definition delete_node :: "bytes \<Rightarrow> engine \<Rightarrow> unit res \<times> engine" where
  "delete_node nodeID e =
     (if \<not> en_running e then (Inl (Err ''engine not running''), e)
      else (Inl (Err ''not implemented''), e))"

section \<open>Edges\<close>

definition create_edge :: "wal_io \<Rightarrow> u64 \<Rightarrow> edge \<Rightarrow> engine \<Rightarrow> unit res \<times> engine" where
  "create_edge io now ed e =
     (if \<not> en_running e then (Inl (Err ''engine not running''), e)
      else case engine_get_node (e_FromNodeID ed) e of
        (Inl er, e) \<Rightarrow> (wrapE ''source node not found'' (Inl er), e)
      | (Inr _, e) \<Rightarrow>
          (case engine_get_node (e_ToNodeID ed) e of
             (Inl er, e) \<Rightarrow> (wrapE ''target node not found'' (Inl er), e)
           | (Inr _, e) \<Rightarrow>
               (let i = lane_index e (e_ID ed)
                in case write_edge io now ed (en_lanes e ! i) of (r, l) \<Rightarrow> (r, set_lane i l e))))"

definition engine_get_edge :: "bytes \<Rightarrow> engine \<Rightarrow> edge res \<times> engine" where
  "engine_get_edge edgeID e =
     (if \<not> en_running e then (Inl (Err ''engine not running''), e)
      else case mlc_get_edge edgeID (en_cache e) of
        (Inl er, c) \<Rightarrow> (Inl er, e\<lparr>en_cache := c\<rparr>)
      | (Inr (Some ed), c) \<Rightarrow> (Inr (clone_edge ed), e\<lparr>en_cache := c\<rparr>)
      | (Inr None, c) \<Rightarrow>
          (case first_found (\<lambda>l. read_edge l edgeID) (probe_order e edgeID) of
             Some ed \<Rightarrow>
               (let cachedEdge = clone_edge ed
                in (Inr (clone_edge cachedEdge), e\<lparr>en_cache := snd (mlc_put_edge_by_id cachedEdge c)\<rparr>))
           | None \<Rightarrow> (Inl (Err ''edge not found''), e\<lparr>en_cache := c\<rparr>)))"

text \<open>The last loop of the edge and neighbour queries: an identifier that is not found is left out.\<close>

fun fetch_all :: "(bytes \<Rightarrow> engine \<Rightarrow> 'a res \<times> engine) \<Rightarrow> bytes list \<Rightarrow> 'a list \<Rightarrow> engine \<Rightarrow> 'a list res \<times> engine" where
  "fetch_all get [] acc e = (Inr acc, e)"
| "fetch_all get (i # is) acc e =
     (case get i e of
        (Inr x, e) \<Rightarrow> fetch_all get is (acc @ [x]) e
      | (Inl er, e) \<Rightarrow> if is_panic er then (Inl er, e) else fetch_all get is acc e)"

definition engine_outgoing :: "(bytes list \<Rightarrow> bytes list) \<Rightarrow> bytes \<Rightarrow> engine \<Rightarrow> edge list res \<times> engine" where
  "engine_outgoing ord nodeID e =
     (if \<not> en_running e then (Inl (Err ''engine not running''), e)
      else let edgeIDs = remdups (concat (map (\<lambda>l. lane_outgoing l nodeID) (en_lanes e)))
           in fetch_all engine_get_edge (ord edgeIDs) [] e)"

definition engine_incoming :: "(bytes list \<Rightarrow> bytes list) \<Rightarrow> bytes \<Rightarrow> engine \<Rightarrow> edge list res \<times> engine" where
  "engine_incoming ord nodeID e =
     (if \<not> en_running e then (Inl (Err ''engine not running''), e)
      else let edgeIDs = remdups (concat (map (\<lambda>l. lane_incoming l nodeID) (en_lanes e)))
           in fetch_all engine_get_edge (ord edgeIDs) [] e)"

definition neighbor_ids ::
  "(bytes list \<Rightarrow> bytes list) \<Rightarrow> bytes \<Rightarrow> direction \<Rightarrow> engine \<Rightarrow> bytes list res \<times> engine" where
  "neighbor_ids ord nodeID d e =
     (case d of
        DirectionOut \<Rightarrow>
          (case engine_outgoing ord nodeID e of
             (Inl er, e) \<Rightarrow> (Inl er, e) | (Inr es, e) \<Rightarrow> (Inr (map e_ToNodeID es), e))
      | DirectionIn \<Rightarrow>
          (case engine_incoming ord nodeID e of
             (Inl er, e) \<Rightarrow> (Inl er, e) | (Inr es, e) \<Rightarrow> (Inr (map e_FromNodeID es), e))
      | DirectionBoth \<Rightarrow>
          (case engine_outgoing ord nodeID e of
             (Inl er, e) \<Rightarrow> (Inl er, e)
           | (Inr outgoing, e) \<Rightarrow>
               (case engine_incoming ord nodeID e of
                  (Inl er, e) \<Rightarrow> (Inl er, e)
                | (Inr incoming, e) \<Rightarrow> (Inr (map e_ToNodeID outgoing @ map e_FromNodeID incoming), e)))
      | DirectionOther _ \<Rightarrow> (Inr [], e))"

definition engine_neighbors ::
  "(bytes list \<Rightarrow> bytes list) \<Rightarrow> bytes \<Rightarrow> direction \<Rightarrow> engine \<Rightarrow> node list res \<times> engine" where
  "engine_neighbors ord nodeID d e =
     (if \<not> en_running e then (Inl (Err ''engine not running''), e)
      else case neighbor_ids ord nodeID d e of
        (Inl er, e) \<Rightarrow> (Inl er, e)
      | (Inr ids, e) \<Rightarrow> fetch_all engine_get_node (ord (remdups ids)) [] e)"

section \<open>Statistics\<close>

record engine_stats =
  es_NumLanes :: nat
  es_TotalActiveSize :: int
  es_TotalActiveCount :: int
  es_TotalOldMemtables :: nat
  es_TotalSize :: int
  es_LaneStats :: "lane_stats list"
  es_CacheStats :: mlc_stats
  es_FlusherStats :: flusher_stats
  es_CompactionStats :: compaction_stats
  es_ManifestStats :: manifest_stats

definition stats_of_engine :: "engine \<Rightarrow> engine_stats" where
  "stats_of_engine e =
     (let lanes = map stats_of_lane (en_lanes e)
      in \<lparr>es_NumLanes = en_numLanes e,
          es_TotalActiveSize = foldl (\<lambda>n s. n + ls_ActiveSize s) 0 lanes,
          es_TotalActiveCount = foldl (\<lambda>n s. n + ls_ActiveCount s) 0 lanes,
          es_TotalOldMemtables = foldl (\<lambda>n s. n + ls_OldMemtableCount s) 0 lanes,
          es_TotalSize = foldl (\<lambda>n s. n + ls_TotalSize s) 0 lanes,
          es_LaneStats = lanes, es_CacheStats = mlc_stats_of (en_cache e),
          es_FlusherStats = stats_of_flusher (en_flusher e),
          es_CompactionStats = stats_of_compactor (en_compactor e),
          es_ManifestStats = stats_of_manifest (en_manifest e)\<rparr>)"

end
