(* ===== verification/Engine_Store.thy ===== *)
theory Engine_Store
  imports Engine
begin

text \<open>
  The engine against one graph: what a client sees of the lanes, the cache and the adjacency
  lists is a store of nodes and edges (\<open>engine_store\<close>), and every request is answered from it.
\<close>

section \<open>The graph an engine stores\<close>

text \<open>
  The lane an identifier hashes to, and the store of the whole engine: a record is read from
  its home lane, the adjacency lists are gathered from all of them.
\<close>

definition home :: "engine \<Rightarrow> bytes \<Rightarrow> lane" where
  "home e k = en_lanes e ! lane_index e k"

definition engine_store :: "engine \<Rightarrow> store" where
  "engine_store e =
     \<lparr>st_nodes = (\<lambda>i. node_view (home e i) i), st_edges = (\<lambda>i. edge_view (home e i) i),
      st_out = (\<lambda>i. \<Sum>l\<leftarrow>en_lanes e. out_view l i), st_in = (\<lambda>i. \<Sum>l\<leftarrow>en_lanes e. in_view l i)\<rparr>"

text \<open>
  The invariant of a running engine: every record sits in its home lane under its own
  identifier, and what the cache holds is what the lanes hold.
\<close>

definition homed :: "engine \<Rightarrow> bool" where
  "homed e \<longleftrightarrow> (\<forall>j<length (en_lanes e). lane_wf (en_lanes e ! j)
     \<and> (\<forall>i n. node_view (en_lanes e ! j) i = Some n \<longrightarrow> lane_index e i = j \<and> n_ID n = i \<and> node_ok n \<and> n_Properties n \<noteq> None)
     \<and> (\<forall>i ed. edge_view (en_lanes e ! j) i = Some ed \<longrightarrow> lane_index e i = j \<and> e_ID ed = i \<and> edge_ok ed))"

definition lanes_ok :: "engine \<Rightarrow> bool" where
  "lanes_ok e \<longleftrightarrow> 0 < en_numLanes e \<and> en_numLanes e < 2 ^ 32 \<and> length (en_lanes e) = en_numLanes e \<and> homed e"

definition cache_ok :: "engine \<Rightarrow> bool" where
  "cache_ok e = tiers_hold (\<lambda>k n. st_nodes (engine_store e) k = Some n)
     (\<lambda>k ed. st_edges (engine_store e) k = Some ed) (en_cache e)"

definition engine_ok :: "engine \<Rightarrow> bool" where
  "engine_ok e \<longleftrightarrow> lanes_ok e \<and> cache_ok e"

lemma engine_store_sel:
  "st_nodes (engine_store e) i = node_view (home e i) i"
  "st_edges (engine_store e) i = edge_view (home e i) i"
  by (simp_all add: engine_store_def)

lemma lane_index_less: "0 < en_numLanes e \<Longrightarrow> en_numLanes e < 2 ^ 32 \<Longrightarrow> lane_index e k < en_numLanes e"
  by (simp add: lane_index_def unat_mod unat_of_nat)

lemma lane_index_cong: "en_numLanes e' = en_numLanes e \<Longrightarrow> lane_index e' = lane_index e"
  by (simp add: lane_index_def fun_eq_iff)

lemma cache_frame [simp]:
  "lane_index (e\<lparr>en_cache := c\<rparr>) = lane_index e" "home (e\<lparr>en_cache := c\<rparr>) = home e"
  "engine_store (e\<lparr>en_cache := c\<rparr>) = engine_store e" "lanes_ok (e\<lparr>en_cache := c\<rparr>) = lanes_ok e"
  "probe_order (e\<lparr>en_cache := c\<rparr>) = probe_order e"
  by (simp_all add: lane_index_def home_def engine_store_def lanes_ok_def homed_def probe_order_def
      fun_eq_iff)

lemma first_found_none: "(\<And>t. t \<in> set ts \<Longrightarrow> \<exists>e. f t = Inl e) \<Longrightarrow> first_found f ts = None"
  by (induction ts) force+

text \<open>The other lanes never have what the home lane lacks.\<close>

lemma homedD:
  assumes "lanes_ok e" and "j < en_numLanes e"
  shows "node_view (en_lanes e ! j) i = Some n \<Longrightarrow> lane_index e i = j \<and> n_ID n = i \<and> node_ok n \<and> n_Properties n \<noteq> None"
    "edge_view (en_lanes e ! j) i = Some ed \<Longrightarrow> lane_index e i = j \<and> e_ID ed = i \<and> edge_ok ed"
    "lane_wf (en_lanes e ! j)"
  using assms by (auto simp: lanes_ok_def homed_def)

lemma home_index: "lanes_ok e \<Longrightarrow> lane_index e k < en_numLanes e"
  by (simp add: lanes_ok_def lane_index_less)

lemma probe_node:
  assumes "lanes_ok e"
  shows "first_found (\<lambda>l. read_node l i) (probe_order e i) = st_nodes (engine_store e) i"
proof -
  let ?others = "map (\<lambda>j. en_lanes e ! j) (filter (\<lambda>j. j \<noteq> lane_index e i) [0..<length (en_lanes e)])"
  from assms have len: "length (en_lanes e) = en_numLanes e" by (simp add: lanes_ok_def)
  have "\<exists>er. read_node l i = Inl er" if "l \<in> set ?others" for l
  proof -
    from that obtain j where j: "j < en_numLanes e" "j \<noteq> lane_index e i" "l = en_lanes e ! j"
      by (auto simp: len)
    with homedD(1) [OF assms j(1), of i] have "node_view l i = None"
      by (cases "node_view l i") auto
    then show ?thesis by (simp add: read_node_view)
  qed
  then have "first_found (\<lambda>l. read_node l i) ?others = None" by (rule first_found_none)
  then show ?thesis
    by (simp add: probe_order_def Let_def engine_store_sel home_def read_node_view split: option.splits)
qed

lemma probe_edge:
  assumes "lanes_ok e"
  shows "first_found (\<lambda>l. read_edge l i) (probe_order e i) = st_edges (engine_store e) i"
proof -
  let ?others = "map (\<lambda>j. en_lanes e ! j) (filter (\<lambda>j. j \<noteq> lane_index e i) [0..<length (en_lanes e)])"
  from assms have len: "length (en_lanes e) = en_numLanes e" by (simp add: lanes_ok_def)
  have "\<exists>er. read_edge l i = Inl er" if "l \<in> set ?others" for l
  proof -
    from that obtain j where j: "j < en_numLanes e" "j \<noteq> lane_index e i" "l = en_lanes e ! j"
      by (auto simp: len)
    with homedD(2) [OF assms j(1), of i] have "edge_view l i = None"
      by (cases "edge_view l i") auto
    then show ?thesis by (simp add: read_edge_view)
  qed
  then have "first_found (\<lambda>l. read_edge l i) ?others = None" by (rule first_found_none)
  then show ?thesis
    by (simp add: probe_order_def Let_def engine_store_sel home_def read_edge_view split: option.splits)
qed

lemma stored_node:
  assumes "lanes_ok e" and "st_nodes (engine_store e) i = Some n"
  shows "n_ID n = i" "node_ok n" "n_Properties n \<noteq> None" "clone_node n = n"
  using homedD(1) [OF assms(1) home_index [OF assms(1)], of i i n] assms(2)
  by (simp_all add: engine_store_sel home_def) (simp_all add: clone_node_id node_ok_def wire_props_ok_def)

lemma stored_edge:
  assumes "lanes_ok e" and "st_edges (engine_store e) i = Some ed"
  shows "e_ID ed = i" "edge_ok ed" "clone_edge ed = ed"
  using homedD(2) [OF assms(1) home_index [OF assms(1)], of i i ed] assms(2)
  by (simp_all add: engine_store_sel home_def) (simp_all add: clone_edge_id edge_ok_def wire_props_ok_def)

section \<open>Reads\<close>

text \<open>What a lookup gives, and what it may do to the engine: only the cache changes.\<close>

definition found :: "string \<Rightarrow> 'a option \<Rightarrow> 'a res" where
  "found what r = (case r of Some x \<Rightarrow> Inr x | None \<Rightarrow> Inl (Err (what @ '' not found'')))"

definition reads :: "(engine \<Rightarrow> 'r \<times> engine) \<Rightarrow> engine \<Rightarrow> 'r \<Rightarrow> bool" where
  "reads f e r \<longleftrightarrow> (\<exists>c. f e = (r, e\<lparr>en_cache := c\<rparr>) \<and> cache_ok (e\<lparr>en_cache := c\<rparr>))"

lemma readsE:
  assumes "reads f e r"
  obtains c where "f e = (r, e\<lparr>en_cache := c\<rparr>)" "cache_ok (e\<lparr>en_cache := c\<rparr>)"
  using assms unfolding reads_def by blast

lemma get_node_reads:
  assumes "engine_ok e" and "en_running e"
  shows "reads (engine_get_node i) e (found ''node'' (st_nodes (engine_store e) i))"
proof -
  from assms have L: "lanes_ok e" and C: "cache_ok e" by (simp_all add: engine_ok_def)
  obtain r c where g: "mlc_get_node i (en_cache e) = (r, c)" by force
  from mlc_get_node_ok [OF C [unfolded cache_ok_def] g]
  have c: "cache_ok (e\<lparr>en_cache := c\<rparr>)"
    and r: "r = Inr None \<or> (\<exists>n. r = Inr (Some n) \<and> st_nodes (engine_store e) i = Some n)"
    by (simp_all add: cache_ok_def)
  from r show ?thesis
  proof
    assume "\<exists>n. r = Inr (Some n) \<and> st_nodes (engine_store e) i = Some n"
    then obtain n where n: "r = Inr (Some n)" "st_nodes (engine_store e) i = Some n" by blast
    with assms(2) g c stored_node [OF L n(2)] show ?thesis
      unfolding reads_def by (intro exI [of _ c]) (simp add: engine_get_node_def found_def)
  next
    assume miss: "r = Inr None"
    show ?thesis
    proof (cases "st_nodes (engine_store e) i")
      case None
      with assms(2) g c miss show ?thesis
        unfolding reads_def by (intro exI [of _ c]) (simp add: engine_get_node_def found_def probe_node [OF L])
    next
      case (Some n)
      note S = stored_node [OF L Some]
      obtain r' c' where p: "mlc_put_node (n_ID n) n c = (r', c')" by force
      from c have "tiers_hold (\<lambda>k n. st_nodes (engine_store e) k = Some n)
          (\<lambda>k ed. st_edges (engine_store e) k = Some ed) c" by (simp add: cache_ok_def)
      from mlc_put_node_ok [OF this _ p] Some S have "cache_ok (e\<lparr>en_cache := c'\<rparr>)" by (simp add: cache_ok_def)
      with assms(2) g miss Some S p show ?thesis
        unfolding reads_def by (intro exI [of _ c'])
          (simp add: engine_get_node_def found_def probe_node [OF L] mlc_put_node_by_id_eq)
    qed
  qed
qed

lemma get_edge_reads:
  assumes "engine_ok e" and "en_running e"
  shows "reads (engine_get_edge i) e (found ''edge'' (st_edges (engine_store e) i))"
proof -
  from assms have L: "lanes_ok e" and C: "cache_ok e" by (simp_all add: engine_ok_def)
  obtain r c where g: "mlc_get_edge i (en_cache e) = (r, c)" by force
  from mlc_get_edge_ok [OF C [unfolded cache_ok_def] g]
  have c: "cache_ok (e\<lparr>en_cache := c\<rparr>)"
    and r: "r = Inr None \<or> (\<exists>n. r = Inr (Some n) \<and> st_edges (engine_store e) i = Some n)"
    by (simp_all add: cache_ok_def)
  from r show ?thesis
  proof
    assume "\<exists>n. r = Inr (Some n) \<and> st_edges (engine_store e) i = Some n"
    then obtain n where n: "r = Inr (Some n)" "st_edges (engine_store e) i = Some n" by blast
    with assms(2) g c stored_edge [OF L n(2)] show ?thesis
      unfolding reads_def by (intro exI [of _ c]) (simp add: engine_get_edge_def found_def)
  next
    assume miss: "r = Inr None"
    show ?thesis
    proof (cases "st_edges (engine_store e) i")
      case None
      with assms(2) g c miss show ?thesis
        unfolding reads_def by (intro exI [of _ c]) (simp add: engine_get_edge_def found_def probe_edge [OF L])
    next
      case (Some n)
      note S = stored_edge [OF L Some]
      obtain r' c' where p: "mlc_put_edge (e_ID n) n c = (r', c')" by force
      from c have "tiers_hold (\<lambda>k n. st_nodes (engine_store e) k = Some n)
          (\<lambda>k ed. st_edges (engine_store e) k = Some ed) c" by (simp add: cache_ok_def)
      from mlc_put_edge_ok [OF this _ p] Some S have "cache_ok (e\<lparr>en_cache := c'\<rparr>)" by (simp add: cache_ok_def)
      with assms(2) g miss Some S p show ?thesis
        unfolding reads_def by (intro exI [of _ c'])
          (simp add: engine_get_edge_def found_def probe_edge [OF L] mlc_put_edge_by_id_eq)
    qed
  qed
qed

text \<open>The loops that fetch a list of identifiers keep those that are found.\<close>

lemma fetch_all_reads:
  assumes get: "\<And>e i. engine_ok e \<Longrightarrow> en_running e \<Longrightarrow> reads (get i) e (found what (look (engine_store e) i))"
    and "engine_ok e" and "en_running e"
  shows "reads (fetch_all get ids acc) e (Inr (acc @ List.map_filter (look (engine_store e)) ids))"
  using assms(2,3)
proof (induction ids arbitrary: acc e)
  case Nil
  then have "cache_ok (e\<lparr>en_cache := en_cache e\<rparr>)" by (simp add: engine_ok_def)
  then show ?case
    unfolding reads_def by (intro exI [of _ "en_cache e"]) (simp add: List.map_filter_simps)
next
  case (Cons i ids)
  from get [OF Cons.prems, of i] obtain c where c: "get i e = (found what (look (engine_store e) i), e\<lparr>en_cache := c\<rparr>)"
    "cache_ok (e\<lparr>en_cache := c\<rparr>)" by (rule readsE)
  let ?acc = "acc @ (case look (engine_store e) i of None \<Rightarrow> [] | Some x \<Rightarrow> [x])"
  from Cons.prems c(2) have "engine_ok (e\<lparr>en_cache := c\<rparr>)" "en_running (e\<lparr>en_cache := c\<rparr>)"
    by (simp_all add: engine_ok_def)
  from Cons.IH [OF this, of ?acc] obtain c' where
    "fetch_all get ids ?acc (e\<lparr>en_cache := c\<rparr>)
       = (Inr (?acc @ List.map_filter (look (engine_store e)) ids), e\<lparr>en_cache := c'\<rparr>)"
    "cache_ok (e\<lparr>en_cache := c'\<rparr>)" by (auto elim!: readsE)
  with c(1) show ?case
    by (cases "look (engine_store e) i")
      (auto simp: reads_def found_def List.map_filter_simps intro!: exI [of _ c'])
qed

section \<open>Writes\<close>

lemma sum_list_update_add:
  fixes f :: "'x \<Rightarrow> 'y :: comm_monoid_add"
  assumes "j < length xs" and "f y = f (xs ! j) + d"
  shows "(\<Sum>x\<leftarrow>xs[j := y]. f x) = (\<Sum>x\<leftarrow>xs. f x) + d"
  using assms
proof (induction xs arbitrary: j)
  case (Cons x xs)
  then show ?case by (cases j) (auto simp: ac_simps)
qed simp

lemma sum_list_update_same:
  fixes f :: "'x \<Rightarrow> 'y :: comm_monoid_add"
  assumes "j < length xs" and "f y = f (xs ! j)"
  shows "(\<Sum>x\<leftarrow>xs[j := y]. f x) = (\<Sum>x\<leftarrow>xs. f x)"
  using sum_list_update_add [OF assms(1), of f y 0] assms(2) by simp

lemma set_lane_frame [simp]:
  "en_numLanes (set_lane j l e) = en_numLanes e" "lane_index (set_lane j l e) = lane_index e"
  "en_cache (set_lane j l e) = en_cache e" "en_running (set_lane j l e) = en_running e"
  "en_lanes (set_lane j l e) = (en_lanes e)[j := l]"
  by (simp_all add: set_lane_def lane_index_def fun_eq_iff)

lemma home_set_lane:
  assumes "lanes_ok e" and "j < en_numLanes e"
  shows "home (set_lane j l e) k = (if lane_index e k = j then l else home e k)"
  using assms home_index [OF assms(1), of k] by (auto simp: home_def lanes_ok_def)

text \<open>
  One lane changes: the engine stays well formed when the changed lane holds what it held,
  and perhaps one more node or edge whose home it is.
\<close>

lemma set_lane_ok:
  assumes L: "lanes_ok e" and j: "j < en_numLanes e" and wf: "lane_wf l'"
    and nodes: "node_view l' = node_view (en_lanes e ! j) \<or>
      node_ok n \<and> n_Properties n \<noteq> None \<and> lane_index e (n_ID n) = j
        \<and> node_view l' = (node_view (en_lanes e ! j))(n_ID n \<mapsto> n)"
    and edges: "edge_view l' = edge_view (en_lanes e ! j) \<or>
      edge_ok ed \<and> lane_index e (e_ID ed) = j
        \<and> edge_view l' = (edge_view (en_lanes e ! j))(e_ID ed \<mapsto> ed)"
  shows "lanes_ok (set_lane j l' e)"
proof -
  from L have len: "length (en_lanes e) = en_numLanes e" by (simp add: lanes_ok_def)
  have N: "lane_index e i = j \<and> n_ID m = i \<and> node_ok m \<and> n_Properties m \<noteq> None" if "node_view l' i = Some m" for i m
    using nodes that homedD(1) [OF L j, of i m] by (auto split: if_splits)
  have E: "lane_index e i = j \<and> e_ID m = i \<and> edge_ok m" if "edge_view l' i = Some m" for i m
    using edges that homedD(2) [OF L j, of i m] by (auto split: if_splits)
  have "lane_wf ((en_lanes e)[j := l'] ! k)
     \<and> (\<forall>i n. node_view ((en_lanes e)[j := l'] ! k) i = Some n \<longrightarrow> lane_index e i = k \<and> n_ID n = i \<and> node_ok n \<and> n_Properties n \<noteq> None)
     \<and> (\<forall>i ed. edge_view ((en_lanes e)[j := l'] ! k) i = Some ed \<longrightarrow> lane_index e i = k \<and> e_ID ed = i \<and> edge_ok ed)"
    if "k < en_numLanes e" for k
  proof (cases "k = j")
    case True
    with wf N E j len show ?thesis by auto
  next
    case False
    then show ?thesis using homedD [OF L that] by (auto simp: nth_list_update_neq)
  qed
  with L show ?thesis by (simp add: lanes_ok_def homed_def len)
qed

lemma engine_store_same:
  assumes "lanes_ok e" and "j < en_numLanes e" and "lane_store l' = lane_store (en_lanes e ! j)"
  shows "engine_store (set_lane j l' e) = engine_store e"
  using assms
  by (auto simp: engine_store_def home_set_lane lane_store_def home_def [of e] lanes_ok_def fun_eq_iff
      intro!: sum_list_update_same)

lemma engine_store_node:
  assumes "lanes_ok e" and "j = lane_index e (n_ID n)"
    and "lane_store l' = apply_write (WNode n) (lane_store (en_lanes e ! j))"
  shows "engine_store (set_lane j l' e) = apply_write (WNode n) (engine_store e)"
  using assms home_index [OF assms(1), of "n_ID n"]
  by (auto simp: engine_store_def home_set_lane lane_store_def home_def [of e] lanes_ok_def fun_eq_iff
      intro!: sum_list_update_same)

text \<open>The three ways an edge write may end, and what each leaves.\<close>

datatype edge_effect = NoEffect | EdgeOnly | EdgeAndOut | EdgeWhole

fun apply_edge :: "edge_effect \<Rightarrow> edge \<Rightarrow> store \<Rightarrow> store" where
  "apply_edge NoEffect ed s = s"
| "apply_edge EdgeOnly ed s = s\<lparr>st_edges := (st_edges s)(e_ID ed \<mapsto> wire_edge ed)\<rparr>"
| "apply_edge EdgeAndOut ed s =
     s\<lparr>st_edges := (st_edges s)(e_ID ed \<mapsto> wire_edge ed),
       st_out := (st_out s)(e_FromNodeID ed := st_out s (e_FromNodeID ed) + {#e_ID ed#})\<rparr>"
| "apply_edge EdgeWhole ed s = apply_write (WEdge ed) s"

lemma lane_store_sel:
  "st_nodes (lane_store l) = node_view l" "st_edges (lane_store l) = edge_view l"
  "st_out (lane_store l) = out_view l" "st_in (lane_store l) = in_view l"
  by (simp_all add: lane_store_def)

lemma engine_store_edge:
  assumes L: "lanes_ok e" and j: "j = lane_index e (e_ID ed)"
    and l': "lane_store l' = apply_edge x ed (lane_store (en_lanes e ! j))"
  shows "engine_store (set_lane j l' e) = apply_edge x ed (engine_store e)"
proof -
  have jl: "j < length (en_lanes e)" using home_index [OF L, of "e_ID ed"] L j by (simp add: lanes_ok_def)
  have H: "home (set_lane j l' e) k = (if lane_index e k = j then l' else home e k)" for k
    using home_set_lane [OF L, of j l' k] jl L by (simp add: lanes_ok_def)
  have jh: "en_lanes e ! j = home e (e_ID ed)" by (simp add: home_def j)
  have S: "(\<Sum>l\<leftarrow>(en_lanes e)[j := l']. f l) = (\<Sum>l\<leftarrow>en_lanes e. f l) + d" if "f l' = f (home e (e_ID ed)) + d"
    for f :: "lane \<Rightarrow> bytes multiset" and d
    by (rule sum_list_update_add [OF jl]) (simp add: jh that)
  note S0 = S [where d = "{#}", simplified] and S1 = S [where d = "{#x#}" for x, simplified]
  have views: "node_view l' = st_nodes (apply_edge x ed (lane_store (home e (e_ID ed))))"
    "edge_view l' = st_edges (apply_edge x ed (lane_store (home e (e_ID ed))))"
    "out_view l' = st_out (apply_edge x ed (lane_store (home e (e_ID ed))))"
    "in_view l' = st_in (apply_edge x ed (lane_store (home e (e_ID ed))))"
    using arg_cong [OF l', of st_nodes] arg_cong [OF l', of st_edges] arg_cong [OF l', of st_out]
      arg_cong [OF l', of st_in] by (simp_all add: jh lane_store_sel)
  show ?thesis
    by (cases x)
      (auto simp: engine_store_def H views lane_store_def fun_eq_iff j [symmetric] home_def [of e] intro!: S0 S1)
qed

text \<open>What a refused edge write has done, which its error says.\<close>

fun effect_of :: "go_error \<Rightarrow> edge_effect" where
  "effect_of (Wrap msg _) =
     (if msg = ''failed to update incoming adjacency'' then EdgeAndOut
      else if msg \<in> {''failed to update outgoing adjacency'', ''failed to rewrite edge after rotation''} then EdgeOnly
      else NoEffect)"
| "effect_of _ = NoEffect"

lemma wrapE_Inl_Wrap: "wrapE msg r = Inl e \<Longrightarrow> \<not> is_panic e \<Longrightarrow> \<exists>e1. r = Inl e1 \<and> e = Wrap msg e1 \<and> \<not> is_panic e1"
  by (auto simp: wrapE_def split: sum.splits go_error.splits)

lemma effect_not_whole: "effect_of er \<noteq> EdgeWhole"
  by (cases er) auto

lemma update_adjacency_Err:
  assumes run: "update_adjacency e l = (Inl er, l')" "\<not> is_panic er" and wf: "lane_wf l"
    and ok: "edge_ok e" "edge_id_ok (e_ID e)" and stored: "edge_view l (e_ID e) = Some (wire_edge e)"
  shows "lane_wf l' \<and> lane_store l' = apply_edge (effect_of er) e (lane_store l)"
proof -
  have ident: "apply_edge EdgeAndOut e (lane_store l) = (lane_store l)\<lparr>st_out := (out_view l)(e_FromNodeID e := out_view l (e_FromNodeID e) + {#e_ID e#})\<rparr>"
    using stored by (auto simp: lane_store_def fun_eq_iff)
  let ?r = "rotate_memtable l"
  have R: "lane_store ?r = lane_store l" "lane_wf ?r"
    using rotate_same_store [of l] wf by (simp_all add: same_store_def lane_store_def)
  have ident1: "apply_edge EdgeOnly e (lane_store l) = lane_store l"
    using stored by (auto simp: lane_store_def fun_eq_iff)
  from run consider (in1) l1 where "add_out e l = (Inr (), l1)" "l' = l1" "effect_of er = EdgeAndOut"
    | (edge) "l' = ?r" "effect_of er = EdgeOnly"
    | (out2) l1 where "on_edges (put_edge e) ?r = (Inr (), l1)" "l' = l1" "effect_of er = EdgeOnly"
    | (in2) l1 l2 where "on_edges (put_edge e) ?r = (Inr (), l1)" "add_out e l1 = (Inr (), l2)" "l' = l2"
        "effect_of er = EdgeAndOut"
    unfolding update_adjacency_def
    by (auto simp: on_error_Inl or_return_Inl dest!: check_rotation_store(2) wrapE_Inl_Wrap add_in_Err add_out_Err on_edges_Err)
  then show ?thesis
  proof cases
    case in1
    note A = add_out_ok [OF in1(1) wf ok(2)]
    with in1 show ?thesis by (simp only: ident) (auto simp: lane_store_def)
  next
    case edge
    with R ident1 show ?thesis by simp
  next
    case out2
    note P = on_edges_ok [OF out2(1) ok(1)]
    with out2 R stored have "lane_store l' = lane_store l" by (auto simp: lane_store_def fun_eq_iff)
    with P R out2 ident1 show ?thesis by simp
  next
    case in2
    note P = on_edges_ok [OF in2(1) ok(1)]
    from P R have "lane_wf l1" by simp
    note A = add_out_ok [OF in2(2) this ok(2)]
    have "lane_store l' = (lane_store l)\<lparr>st_out := (out_view l)(e_FromNodeID e := out_view l (e_FromNodeID e) + {#e_ID e#})\<rparr>"
      using P A R in2(3) stored by (auto simp: lane_store_def fun_eq_iff)
    with A in2 ident show ?thesis by simp
  qed
qed

lemma update_adjacency_effect:
  "update_adjacency e l = (Inl er, l') \<Longrightarrow> \<not> is_panic er \<Longrightarrow> effect_of er \<noteq> NoEffect"
  unfolding update_adjacency_def
  by (auto simp: on_error_Inl or_return_Inl dest!: check_rotation_store(2) wrapE_Inl_Wrap)

lemma write_edge_Err:
  assumes run: "write_edge io now e l = (Inl er, l')" "\<not> is_panic er" and wf: "lane_wf l"
    and ok: "edge_ok e" "edge_id_ok (e_ID e)"
  shows "lane_wf l' \<and> lane_store l' = apply_edge (effect_of er) e (lane_store l)"
proof -
  have keep: "lane_store l2 = lane_store l1 \<and> (lane_wf l1 \<longrightarrow> lane_wf l2)" if "same_store l1 l2" for l1 l2
    using that by (simp add: same_store_def lane_store_def)
  from run consider (none) "same_store l l'" "effect_of er = NoEffect"
    | (adj) l1 l2 where "same_store l l1" "on_edges (put_edge e) l1 = (Inr (), l2)" "update_adjacency e l2 = (Inl er, l')"
  proof -
    from run consider "l' = l" "effect_of er = NoEffect"
      | bs e' where "log_write io now EntryTypeEdge (e_ID e) bs l = (Inl e', l')" "effect_of er = NoEffect"
      | bs l1 where "log_write io now EntryTypeEdge (e_ID e) bs l = (Inr (), l1)"
        "on_error (on_edges (put_edge e) l1)
          (\<lambda>l. or_return ''failed to write edge'' (on_edges (put_edge e) (rotate_memtable l)) (update_adjacency e))
          (update_adjacency e) = (Inl er, l')"
      by (auto simp: write_edge_def or_return_Inl dest!: wrapE_Inl_Wrap split: if_splits sum.splits)
    then show thesis
    proof cases
      case 1
      then show thesis using none by simp
    next
      case 2
      then show thesis using none by (blast dest: log_write_store)
    next
      case (3 bs l1)
      note S = conjunct1 [OF log_write_store [OF 3(1)]]
      note R = same_store_trans [OF S rotate_same_store]
      from 3(2) run(2) consider "l' = rotate_memtable l1" "effect_of er = NoEffect"
        | l2 where "on_edges (put_edge e) l1 = (Inr (), l2)" "update_adjacency e l2 = (Inl er, l')"
        | l2 where "on_edges (put_edge e) (rotate_memtable l1) = (Inr (), l2)" "update_adjacency e l2 = (Inl er, l')"
        by (auto simp: on_error_Inl or_return_Inl dest!: wrapE_Inl_Wrap on_edges_Err)
      then show thesis
        using none R adj [OF S] adj [OF R] by cases simp_all
    qed
  qed
  then show ?thesis
  proof cases
    case none
    with keep wf show ?thesis by simp
  next
    case adj
    note P = on_edges_ok [OF adj(2) ok(1)]
    from keep [OF adj(1)] wf P have l2: "lane_wf l2" "edge_view l2 (e_ID e) = Some (wire_edge e)"
      "lane_store l2 = apply_edge EdgeOnly e (lane_store l)" by (simp_all add: lane_store_def)
    have "effect_of er \<noteq> NoEffect" using update_adjacency_effect [OF adj(3) run(2)] .
    with update_adjacency_Err [OF adj(3) run(2) l2(1) ok l2(2)] l2(3) show ?thesis
      by (cases "effect_of er") (auto simp: fun_eq_iff effect_not_whole)
  qed
qed

text \<open>
  C36: A refused edge write may have done part of its work, and its error says which: nothing
  before the edge table took the edge; the edge alone when its outgoing entry, or the retry
  after a rotation, was refused; the edge and its outgoing entry when only the incoming one
  was.  The caller gets an error, yet the edge can be read.
\<close>

theorem refused_edge_write:
  assumes run: "write_edge io now e l = (Inl er, l')" "\<not> is_panic er" and wf: "lane_wf l"
    and ok: "edge_ok e" "edge_id_ok (e_ID e)"
  shows "lane_wf l' \<and> lane_store l' = apply_edge (effect_of er) e (lane_store l)
    \<and> (effect_of er \<noteq> NoEffect \<longrightarrow> read_edge l' (e_ID e) = Inr (wire_edge e))"
proof -
  note E = write_edge_Err [OF assms]
  then have "edge_view l' = st_edges (apply_edge (effect_of er) e (lane_store l))" by (simp add: lane_store_sel(2) [symmetric])
  then have "effect_of er \<noteq> NoEffect \<longrightarrow> edge_view l' (e_ID e) = Some (wire_edge e)"
    by (cases "effect_of er") auto
  with E show ?thesis by (simp add: read_edge_view)
qed

definition full_lane :: lane where
  "full_lane = (new_write_lane 0 85 (new_wal 0 False 4096 None))
     \<lparr>l_activeAdj := snd (add_outgoing_edge [1] (replicate 60 0x61) (mt_new 85))\<rparr>"

definition demo_edge :: edge where
  "demo_edge = \<lparr>e_ID = [0x65], e_FromNodeID = [0x66], e_ToNodeID = [0x74], e_Type = [], e_Properties = None,
     e_Version = 1, e_CreatedAt = time_unix 0, e_UpdatedAt = time_unix 0\<rparr>"

lemma demo_edge_facts:
  "edge_ok demo_edge" "e_ID demo_edge = [0x65]" "e_FromNodeID demo_edge = [0x66]" "e_ToNodeID demo_edge = [0x74]"
  "edge_id_ok [0x65]" "edge_id_ok (replicate 60 0x61)"
  "\<exists>bs. serialize_edge demo_edge = Inr bs \<and> length bs = 47"
  by (simp_all add: demo_edge_def edge_ok_def wire_props_ok_def str_ok_def props_ok_def props_of_def
      serialize_edge_def edge_id_ok_def comma_def valid_ascii list_all_iff)

lemma full_lane_facts:
  "lane_wf full_lane" "\<not> l_stopped full_lane" "l_wal full_lane = new_wal 0 False 4096 None"
  "l_activeEdges full_lane = mt_new 85" "mt_size (l_activeAdj full_lane) = 70" "mt_maxSize (l_activeAdj full_lane) = 85"
  "\<not> mt_frozen (l_activeAdj full_lane)"
  "mt_data (l_activeAdj full_lane) (adj_out_key [0x66]) = None" "mt_data (l_activeAdj full_lane) (adj_in_key [0x74]) = None"
proof -
  obtain m where m: "add_outgoing_edge [1] (replicate 60 0x61) (mt_new 85) = (Inr (), m)"
    "mt_size m = 70" "mt_maxSize m = 85" "\<not> mt_frozen m" "mt_data m (adj_out_key [0x66]) = None"
    "mt_data m (adj_in_key [0x74]) = None"
    by (simp add: add_outgoing_edge_def mt_put_def mt_new_def mt_get_def slice_len_def Let_def adj_out_key_def adj_in_key_def lit_def)
  have "adj_wf m" by (rule add_outgoing_edge_ok(1) [OF adj_wf_new demo_edge_facts(6) m(1)])
  with m show "lane_wf full_lane" "\<not> l_stopped full_lane" "l_wal full_lane = new_wal 0 False 4096 None"
  "l_activeEdges full_lane = mt_new 85" "mt_size (l_activeAdj full_lane) = 70" "mt_maxSize (l_activeAdj full_lane) = 85"
  "\<not> mt_frozen (l_activeAdj full_lane)"
  "mt_data (l_activeAdj full_lane) (adj_out_key [0x66]) = None" "mt_data (l_activeAdj full_lane) (adj_in_key [0x74]) = None"
    by (simp_all add: full_lane_def new_write_lane_def lane_wf_def adj_tables_def)
qed

lemma full_lane_refuses:
  "\<exists>l. write_edge io_fine 0 demo_edge full_lane
     = (Inl (Wrap ''failed to update incoming adjacency'' (Err ''memtable size limit exceeded'')), l)"
proof -
  from demo_edge_facts obtain bs where bs: "serialize_edge demo_edge = Inr bs" "length bs = 47" by blast
  have "\<exists>w. wal_append io_fine 0 EntryTypeEdge [0x65] bs (new_wal 0 False 4096 None) = (Inr (), w)"
    by (simp add: wal_append_def new_wal_def new_bufio_def bs
        Let_def bufio_write.simps length_serialize_entry)
  then obtain w where w: "wal_append io_fine 0 EntryTypeEdge [0x65] bs (new_wal 0 False 4096 None) = (Inr (), w)" ..
  show ?thesis
    by (simp add: write_edge_def full_lane_facts bs log_write_def w demo_edge_facts or_return_def on_error_def
        on_edges_def put_edge_def mt_put_def mt_new_def slice_len_def edge_key_def Let_def lit_def
        update_adjacency_def wrapE_def add_out_def add_in_def on_adj_def add_outgoing_edge_eq add_incoming_edge_eq adj_value_def mt_get_def
        split: prod.splits)
qed

theorem refused_edge_write_witness:
  "\<exists>er l'. write_edge io_fine 0 demo_edge full_lane = (Inl er, l') \<and> effect_of er = EdgeAndOut
    \<and> read_edge l' [0x65] = Inr (wire_edge demo_edge)
    \<and> [0x65] \<in># out_view l' [0x66] \<and> in_view l' = in_view full_lane"
proof -
  obtain l' where l': "write_edge io_fine 0 demo_edge full_lane
     = (Inl (Wrap ''failed to update incoming adjacency'' (Err ''memtable size limit exceeded'')), l')"
    using full_lane_refuses by blast
  from refused_edge_write [OF l' _ full_lane_facts(1) demo_edge_facts(1)]
  have R: "lane_store l' = apply_edge EdgeAndOut demo_edge (lane_store full_lane)"
    "read_edge l' [0x65] = Inr (wire_edge demo_edge)" by (simp_all add: demo_edge_facts)
  then have "out_view l' = st_out (apply_edge EdgeAndOut demo_edge (lane_store full_lane))"
    "in_view l' = st_in (apply_edge EdgeAndOut demo_edge (lane_store full_lane))"
    by (simp_all add: lane_store_sel(3,4) [symmetric])
  with l' R show ?thesis by (auto simp: demo_edge_facts lane_store_sel)
qed

section \<open>Requests and what they must do\<close>

datatype request =
    CreateNode node | UpdateNode bytes props | GetNode bytes
  | CreateEdge edge | GetEdge bytes | Outgoing bytes | Incoming bytes | Neighbors bytes direction

datatype reply = Done "unit res" | ANode "node res" | AnEdge "edge res" | Edges "edge list res" | Nodes "node list res"

fun handle ::
  "wal_io \<Rightarrow> u64 \<Rightarrow> gotime \<Rightarrow> (bytes list \<Rightarrow> bytes list) \<Rightarrow> request \<Rightarrow> engine \<Rightarrow> reply \<times> engine" where
  "handle io now t ord (CreateNode n) e = apfst Done (create_node io now n e)"
| "handle io now t ord (UpdateNode i ps) e = apfst Done (update_node io now t i ps e)"
| "handle io now t ord (GetNode i) e = apfst ANode (engine_get_node i e)"
| "handle io now t ord (CreateEdge ed) e = apfst Done (create_edge io now ed e)"
| "handle io now t ord (GetEdge i) e = apfst AnEdge (engine_get_edge i e)"
| "handle io now t ord (Outgoing i) e = apfst Edges (engine_outgoing ord i e)"
| "handle io now t ord (Incoming i) e = apfst Edges (engine_incoming ord i e)"
| "handle io now t ord (Neighbors i d) e = apfst Nodes (engine_neighbors ord i d e)"

lemma handle_simps:
  "handle io now t ord (CreateNode n) e = (rp, e') \<longleftrightarrow> (\<exists>r. create_node io now n e = (r, e') \<and> rp = Done r)"
  "handle io now t ord (UpdateNode i ps) e = (rp, e') \<longleftrightarrow> (\<exists>r. update_node io now t i ps e = (r, e') \<and> rp = Done r)"
  "handle io now t ord (GetNode i) e = (rp, e') \<longleftrightarrow> (\<exists>r. engine_get_node i e = (r, e') \<and> rp = ANode r)"
  "handle io now t ord (GetEdge i) e = (rp, e') \<longleftrightarrow> (\<exists>r. engine_get_edge i e = (r, e') \<and> rp = AnEdge r)"
  "handle io now t ord (CreateEdge ed) e = (rp, e') \<longleftrightarrow> (\<exists>r. create_edge io now ed e = (r, e') \<and> rp = Done r)"
  "handle io now t ord (Outgoing i) e = (rp, e') \<longleftrightarrow> (\<exists>r. engine_outgoing ord i e = (r, e') \<and> rp = Edges r)"
  "handle io now t ord (Incoming i) e = (rp, e') \<longleftrightarrow> (\<exists>r. engine_incoming ord i e = (r, e') \<and> rp = Edges r)"
  "handle io now t ord (Neighbors i d) e = (rp, e') \<longleftrightarrow> (\<exists>r. engine_neighbors ord i d e = (r, e') \<and> rp = Nodes r)"
  by (auto simp: apfst_def map_prod_def split: prod.splits)

text \<open>
  The specification: a relation between the store before, the reply, and the store after.
  An edge whose identifier an adjacency list has, but no lane, is left out of a query.
\<close>

definition succeeded :: "unit res \<Rightarrow> bool" where
  "succeeded r \<longleftrightarrow> (\<exists>u. r = Inr u)"

definition edges_in :: "store \<Rightarrow> bytes multiset \<Rightarrow> edge set" where
  "edges_in s ids = {ed. \<exists>i \<in># ids. st_edges s i = Some ed}"

definition neighbor_set :: "store \<Rightarrow> bytes \<Rightarrow> direction \<Rightarrow> bytes set" where
  "neighbor_set s i d =
     (if d \<in> {DirectionOut, DirectionBoth} then e_ToNodeID ` edges_in s (st_out s i) else {})
     \<union> (if d \<in> {DirectionIn, DirectionBoth} then e_FromNodeID ` edges_in s (st_in s i) else {})"

fun answers :: "gotime \<Rightarrow> request \<Rightarrow> store \<Rightarrow> reply \<Rightarrow> store \<Rightarrow> bool" where
  "answers t (CreateNode n) s (Done r) s' \<longleftrightarrow> s' = (if succeeded r then apply_write (WNode n) s else s)"
| "answers t (UpdateNode i ps) s (Done r) s' \<longleftrightarrow>
     (case st_nodes s i of
        None \<Rightarrow> r = Inl (Wrap ''failed to get node'' (Err ''node not found'')) \<and> s' = s
      | Some n \<Rightarrow> (\<exists>n'. set_properties t ps n = Inr n'
            \<and> s' = (if succeeded r then apply_write (WNode n') s else s)))"
| "answers t (GetNode i) s (ANode r) s' \<longleftrightarrow> r = found ''node'' (st_nodes s i) \<and> s' = s"
| "answers t (CreateEdge ed) s (Done r) s' \<longleftrightarrow>
     (if st_nodes s (e_FromNodeID ed) = None then
        r = Inl (Wrap ''source node not found'' (Err ''node not found'')) \<and> s' = s
      else if st_nodes s (e_ToNodeID ed) = None then
        r = Inl (Wrap ''target node not found'' (Err ''node not found'')) \<and> s' = s
      else s' = apply_edge (case r of Inl er \<Rightarrow> effect_of er | Inr _ \<Rightarrow> EdgeWhole) ed s)"
| "answers t (GetEdge i) s (AnEdge r) s' \<longleftrightarrow> r = found ''edge'' (st_edges s i) \<and> s' = s"
| "answers t (Outgoing i) s (Edges r) s' \<longleftrightarrow>
     (\<exists>es. r = Inr es \<and> set es = edges_in s (st_out s i) \<and> distinct (map e_ID es)) \<and> s' = s"
| "answers t (Incoming i) s (Edges r) s' \<longleftrightarrow>
     (\<exists>es. r = Inr es \<and> set es = edges_in s (st_in s i) \<and> distinct (map e_ID es)) \<and> s' = s"
| "answers t (Neighbors i d) s (Nodes r) s' \<longleftrightarrow>
     (\<exists>ns. r = Inr ns \<and> set ns = {n. \<exists>j \<in> neighbor_set s i d. st_nodes s j = Some n}
        \<and> distinct (map n_ID ns)) \<and> s' = s"
| "answers t _ s _ s' \<longleftrightarrow> False"

text \<open>
  What a client has to respect: an identifier is created once, and the records fit the
  encoding.  A panic ends the process, so it has no reply.
\<close>

fun admissible :: "gotime \<Rightarrow> request \<Rightarrow> store \<Rightarrow> bool" where
  "admissible t (CreateNode n) s \<longleftrightarrow> node_ok n \<and> st_nodes s (n_ID n) = None"
| "admissible t (UpdateNode i ps) s \<longleftrightarrow>
     (\<forall>n n'. st_nodes s i = Some n \<longrightarrow> set_properties t ps n = Inr n' \<longrightarrow> node_ok n')"
| "admissible t (CreateEdge ed) s \<longleftrightarrow> edge_ok ed \<and> edge_id_ok (e_ID ed) \<and> st_edges s (e_ID ed) = None"
| "admissible t _ s \<longleftrightarrow> True"

fun panicked :: "reply \<Rightarrow> bool" where
  "panicked (Done (Inl e)) = is_panic e"
| "panicked _ = False"

section \<open>Every request does what the store prescribes\<close>

lemma cache_ok_set_lane:
  assumes "cache_ok e"
    and "\<And>k n. st_nodes (engine_store e) k = Some n \<Longrightarrow> st_nodes (engine_store (set_lane j l e)) k = Some n"
    and "\<And>k d. st_edges (engine_store e) k = Some d \<Longrightarrow> st_edges (engine_store (set_lane j l e)) k = Some d"
  shows "cache_ok (set_lane j l e)"
  using assms unfolding cache_ok_def by (auto intro: tiers_hold_mono)

lemma invalidated_cache:
  assumes "cache_ok e"
  shows "tiers_hold (\<lambda>k n. k \<noteq> i \<and> st_nodes (engine_store e) k = Some n)
     (\<lambda>k d. st_edges (engine_store e) k = Some d) (invalidate_node i (en_cache e))"
proof -
  from assms have "mlc_inv (en_cache e)" by (simp add: cache_ok_def tiers_hold_def)
  note V = invalidate_node_views [OF this, of i]
  show ?thesis
    using tiers_holdD [OF assms [unfolded cache_ok_def]] V(4)
    by (simp add: tiers_hold_def V(1-3) split: if_splits)
qed

text \<open>Writing a node to its home lane, from whatever cache the request has left.\<close>

lemma node_write:
  assumes L: "lanes_ok e" and ok: "node_ok n"
    and run: "write_node io now n (home e (n_ID n)) = (r, l)" and np: "\<not> panicked (Done r)"
  shows "lanes_ok (set_lane (lane_index e (n_ID n)) l e)
    \<and> engine_store (set_lane (lane_index e (n_ID n)) l e)
        = (if succeeded r then apply_write (WNode n) (engine_store e) else engine_store e)"
proof -
  let ?j = "lane_index e (n_ID n)"
  have h: "home e (n_ID n) = en_lanes e ! ?j" by (simp add: home_def)
  have j: "?j < en_numLanes e" by (rule home_index [OF L])
  note wf = homedD(3) [OF L j]
  show ?thesis
  proof (cases r)
    case (Inl er)
    with write_node_Err run np have same: "same_store (en_lanes e ! ?j) l" by (simp add: h)
    then have "lane_store l = lane_store (en_lanes e ! ?j)" "lane_wf l"
      using wf by (simp_all add: same_store_def lane_store_def)
    with engine_store_same [OF L j] set_lane_ok [OF L j, of l n] same Inl show ?thesis
      by (simp add: same_store_def succeeded_def)
  next
    case (Inr u)
    note W = write_node_ok [OF run [unfolded Inr h] ok]
    have n: "node_ok (wire_node n)" "n_Properties (wire_node n) \<noteq> None" "n_ID (wire_node n) = n_ID n"
      using wire_node_ok [OF ok] by (simp_all add: wire_node_def wire_props_def)
    have "lane_store l = apply_write (WNode n) (lane_store (en_lanes e ! ?j))"
      using W by (simp add: lane_store_def)
    from engine_store_node [OF L refl this] set_lane_ok [OF L j, of l "wire_node n"] W n wf Inr show ?thesis
      by (simp add: succeeded_def)
  qed
qed

lemma create_node_answers:
  assumes E: "engine_ok e" "en_running e" and ad: "admissible t (CreateNode n) (engine_store e)"
    and run: "create_node io now n e = (r, e')" and np: "\<not> panicked (Done r)"
  shows "engine_ok e' \<and> en_running e' \<and> answers t (CreateNode n) (engine_store e) (Done r) (engine_store e')"
proof -
  obtain l where w: "write_node io now n (home e (n_ID n)) = (r, l)"
    and e': "e' = set_lane (lane_index e (n_ID n)) l e"
    using run E(2) by (auto simp: create_node_def home_def Let_def split: prod.splits)
  from E have L: "lanes_ok e" "cache_ok e" by (simp_all add: engine_ok_def)
  from ad have n: "node_ok n" "st_nodes (engine_store e) (n_ID n) = None" by simp_all
  note W = node_write [OF L(1) n(1) w, folded e']
  have "lanes_ok e'" and S: "engine_store e' = (if succeeded r then apply_write (WNode n) (engine_store e) else engine_store e)"
    using W np by auto
  moreover have "cache_ok e'"
    unfolding e' using L(2) S n(2) by (intro cache_ok_set_lane) (auto simp: e')
  ultimately show ?thesis using E(2) by (simp add: engine_ok_def e')
qed

lemma update_node_answers:
  assumes E: "engine_ok e" "en_running e" and ad: "admissible t (UpdateNode i ps) (engine_store e)"
    and run: "update_node io now t i ps e = (r, e')" and np: "\<not> panicked (Done r)"
  shows "engine_ok e' \<and> en_running e' \<and> answers t (UpdateNode i ps) (engine_store e) (Done r) (engine_store e')"
proof -
  from E have L: "lanes_ok e" by (simp add: engine_ok_def)
  obtain c where g: "engine_get_node i e = (found ''node'' (st_nodes (engine_store e) i), e\<lparr>en_cache := c\<rparr>)"
    and c: "cache_ok (e\<lparr>en_cache := c\<rparr>)"
    using get_node_reads [OF E] by (rule readsE)
  show ?thesis
  proof (cases "st_nodes (engine_store e) i")
    case None
    with run g E have "r = Inl (Wrap ''failed to get node'' (Err ''node not found''))" "e' = e\<lparr>en_cache := c\<rparr>"
      by (auto simp: update_node_def found_def wrapE_def)
    with None L c E(2) show ?thesis by (simp add: engine_ok_def)
  next
    case (Some n)
    note S = stored_node [OF L Some]
    from set_properties_ok [OF S(3), of t ps] obtain n' where n': "set_properties t ps n = Inr n'" "n_ID n' = i"
      using S(1) by auto
    with ad Some have ok: "node_ok n'" by simp
    let ?c = "invalidate_node i c"
    let ?e = "e\<lparr>en_cache := ?c\<rparr>"
    obtain l where w: "write_node io now n' (home ?e (n_ID n')) = (r, l)"
      and e': "e' = set_lane (lane_index ?e (n_ID n')) l ?e"
      using run E(2) g Some n' S(4) by (auto simp: update_node_def found_def home_def Let_def split: prod.splits)
    have W: "lanes_ok e'" "engine_store e' = (if succeeded r then apply_write (WNode n') (engine_store e) else engine_store e)"
      using node_write [of ?e n', OF _ ok w, folded e'] L np by auto
    have "tiers_hold (\<lambda>k n. k \<noteq> i \<and> st_nodes (engine_store e) k = Some n)
       (\<lambda>k d. st_edges (engine_store e) k = Some d) ?c"
      using invalidated_cache [OF c, of i] by simp
    then have "cache_ok e'"
      unfolding cache_ok_def W(2) by (rule tiers_hold_mono [THEN subst [of ?c "en_cache e'", rotated]])
        (auto simp: e' n'(2))
    with W n' Some E(2) show ?thesis by (auto simp: engine_ok_def e')
  qed
qed

lemma create_edge_answers:
  assumes E: "engine_ok e" "en_running e" and ad: "admissible t (CreateEdge ed) (engine_store e)"
    and run: "create_edge io now ed e = (r, e')" and np: "\<not> panicked (Done r)"
  shows "engine_ok e' \<and> en_running e' \<and> answers t (CreateEdge ed) (engine_store e) (Done r) (engine_store e')"
proof -
  from E have L: "lanes_ok e" by (simp add: engine_ok_def)
  obtain c where g: "engine_get_node (e_FromNodeID ed) e =
      (found ''node'' (st_nodes (engine_store e) (e_FromNodeID ed)), e\<lparr>en_cache := c\<rparr>)"
    and c: "cache_ok (e\<lparr>en_cache := c\<rparr>)"
    using get_node_reads [OF E] by (rule readsE)
  let ?e1 = "e\<lparr>en_cache := c\<rparr>"
  from L c E(2) have E1: "engine_ok ?e1" "en_running ?e1" by (simp_all add: engine_ok_def)
  obtain c' where g': "engine_get_node (e_ToNodeID ed) ?e1 =
      (found ''node'' (st_nodes (engine_store e) (e_ToNodeID ed)), e\<lparr>en_cache := c'\<rparr>)"
    and c': "cache_ok (e\<lparr>en_cache := c'\<rparr>)"
    using get_node_reads [OF E1, of "e_ToNodeID ed"] by (auto elim: readsE)
  let ?e = "e\<lparr>en_cache := c'\<rparr>" and ?j = "lane_index e (e_ID ed)"
  show ?thesis
  proof (cases "st_nodes (engine_store e) (e_FromNodeID ed) = None \<or> st_nodes (engine_store e) (e_ToNodeID ed) = None")
    case True
    with run g g' E(2) L c c' show ?thesis
      by (cases "st_nodes (engine_store e) (e_FromNodeID ed)")
        (auto simp: create_edge_def found_def wrapE_def engine_ok_def)
  next
    case False
    then obtain n m where nm: "st_nodes (engine_store e) (e_FromNodeID ed) = Some n"
      "st_nodes (engine_store e) (e_ToNodeID ed) = Some m" by auto
    obtain l where w: "write_edge io now ed (en_lanes e ! ?j) = (r, l)" and e': "e' = set_lane ?j l ?e"
      using run E(2) g g' nm by (auto simp: create_edge_def found_def Let_def split: prod.splits)
    have j: "?j < en_numLanes e" by (rule home_index [OF L])
    note wf = homedD(3) [OF L j]
    from ad have ok: "edge_ok ed" "edge_id_ok (e_ID ed)" and fresh: "st_edges (engine_store e) (e_ID ed) = None"
      by simp_all
    let ?x = "case r of Inl er \<Rightarrow> effect_of er | Inr _ \<Rightarrow> EdgeWhole"
    obtain x where x: "lane_wf l" "lane_store l = apply_edge x ed (lane_store (en_lanes e ! ?j))" "x = ?x"
    proof (cases r)
      case (Inl er)
      with np have "\<not> is_panic er" by simp
      from write_edge_Err [OF w [unfolded Inl] this wf ok] that [of ?x] show thesis by (simp add: Inl)
    next
      case (Inr u)
      with write_edge_ok [OF w [unfolded Inr] wf ok] that [of ?x] show thesis by (simp add: lane_store_def)
    qed
    have S: "engine_store e' = apply_edge x ed (engine_store e)"
      using engine_store_edge [of ?e ?j ed l x] L x(2) by (simp add: e')
    have views: "node_view l = node_view (en_lanes e ! ?j)"
      "edge_view l = edge_view (en_lanes e ! ?j) \<or>
        edge_view l = (edge_view (en_lanes e ! ?j))(e_ID ed \<mapsto> wire_edge ed)"
      using arg_cong [OF x(2), of st_nodes] arg_cong [OF x(2), of st_edges]
      by (cases x; simp add: lane_store_sel)+
    have "e_ID (wire_edge ed) = e_ID ed" by (simp add: wire_edge_def)
    with set_lane_ok [of ?e ?j l n "wire_edge ed"] L j x(1) views wire_edge_ok [OF ok(1)]
    have "lanes_ok e'" by (simp add: e')
    moreover have "cache_ok e'"
      unfolding e' using c' S fresh e' by (intro cache_ok_set_lane) (cases x; auto)+
    ultimately show ?thesis
      using S E(2) nm by (simp add: engine_ok_def e' x(3))
  qed
qed

lemma adjacency_ids:
  "set (remdups (concat (map (\<lambda>l. lane_outgoing l i) (en_lanes e)))) = set_mset (st_out (engine_store e) i)"
  "set (remdups (concat (map (\<lambda>l. lane_incoming l i) (en_lanes e)))) = set_mset (st_in (engine_store e) i)"
  by (induction "en_lanes e") (auto simp: engine_store_def out_view_def in_view_def)

text \<open>An order in which a Go map is visited: a rearrangement of its keys.\<close>

definition map_order :: "(bytes list \<Rightarrow> bytes list) \<Rightarrow> bool" where
  "map_order ord \<longleftrightarrow> (\<forall>ks. distinct ks \<longrightarrow> distinct (ord ks) \<and> set (ord ks) = set ks)"

lemma distinct_map_filter:
  "distinct ks \<Longrightarrow> (\<And>k x. f k = Some x \<Longrightarrow> g x = k) \<Longrightarrow> distinct (map g (List.map_filter f ks))"
  by (induction ks) (auto simp: List.map_filter_simps map_filter_def split: option.splits)

lemma set_map_filter: "set (List.map_filter f ks) = {x. \<exists>k \<in> set ks. f k = Some x}"
  by (induction ks) (auto simp: List.map_filter_simps split: option.splits)

lemma outgoing_reads:
  assumes E: "engine_ok e" "en_running e" and ord: "map_order ord"
  shows "\<exists>es. reads (engine_outgoing ord i) e (Inr es)
    \<and> set es = edges_in (engine_store e) (st_out (engine_store e) i) \<and> distinct (map e_ID es)"
proof -
  let ?ids = "remdups (concat (map (\<lambda>l. lane_outgoing l i) (en_lanes e)))"
  have L: "lanes_ok e" using E by (simp add: engine_ok_def)
  have o: "distinct (ord ?ids)" "set (ord ?ids) = set_mset (st_out (engine_store e) i)"
    using ord adjacency_ids(1) [of i e] by (simp_all add: map_order_def)
  have "reads (fetch_all engine_get_edge (ord ?ids) []) e (Inr ([] @ List.map_filter (st_edges (engine_store e)) (ord ?ids)))"
    by (rule fetch_all_reads [OF get_edge_reads E])
  then have "reads (engine_outgoing ord i) e (Inr (List.map_filter (st_edges (engine_store e)) (ord ?ids)))"
    using E(2) by (simp add: reads_def engine_outgoing_def Let_def)
  moreover have "distinct (map e_ID (List.map_filter (st_edges (engine_store e)) (ord ?ids)))"
    by (rule distinct_map_filter [OF o(1)]) (rule stored_edge(1) [OF L])
  ultimately show ?thesis
    by (intro exI [of _ "List.map_filter (st_edges (engine_store e)) (ord ?ids)"])
      (simp add: set_map_filter edges_in_def o(2))
qed

lemma incoming_reads:
  assumes E: "engine_ok e" "en_running e" and ord: "map_order ord"
  shows "\<exists>es. reads (engine_incoming ord i) e (Inr es)
    \<and> set es = edges_in (engine_store e) (st_in (engine_store e) i) \<and> distinct (map e_ID es)"
proof -
  let ?ids = "remdups (concat (map (\<lambda>l. lane_incoming l i) (en_lanes e)))"
  have L: "lanes_ok e" using E by (simp add: engine_ok_def)
  have o: "distinct (ord ?ids)" "set (ord ?ids) = set_mset (st_in (engine_store e) i)"
    using ord adjacency_ids(2) [of i e] by (simp_all add: map_order_def)
  have "reads (fetch_all engine_get_edge (ord ?ids) []) e (Inr ([] @ List.map_filter (st_edges (engine_store e)) (ord ?ids)))"
    by (rule fetch_all_reads [OF get_edge_reads E])
  then have "reads (engine_incoming ord i) e (Inr (List.map_filter (st_edges (engine_store e)) (ord ?ids)))"
    using E(2) by (simp add: reads_def engine_incoming_def Let_def)
  moreover have "distinct (map e_ID (List.map_filter (st_edges (engine_store e)) (ord ?ids)))"
    by (rule distinct_map_filter [OF o(1)]) (rule stored_edge(1) [OF L])
  ultimately show ?thesis
    by (intro exI [of _ "List.map_filter (st_edges (engine_store e)) (ord ?ids)"])
      (simp add: set_map_filter edges_in_def o(2))
qed

lemma neighbor_ids_reads:
  assumes E: "engine_ok e" "en_running e" and ord: "map_order ord"
  shows "\<exists>ids. reads (neighbor_ids ord i d) e (Inr ids) \<and> set ids = neighbor_set (engine_store e) i d"
proof -
  obtain es c where es: "engine_outgoing ord i e = (Inr es, e\<lparr>en_cache := c\<rparr>)" "cache_ok (e\<lparr>en_cache := c\<rparr>)"
    "set es = edges_in (engine_store e) (st_out (engine_store e) i)"
    using outgoing_reads [OF E ord, of i] by (auto elim: readsE)
  obtain fs d1 where fs: "engine_incoming ord i e = (Inr fs, e\<lparr>en_cache := d1\<rparr>)" "cache_ok (e\<lparr>en_cache := d1\<rparr>)"
    "set fs = edges_in (engine_store e) (st_in (engine_store e) i)"
    using incoming_reads [OF E ord, of i] by (auto elim: readsE)
  have E1: "engine_ok (e\<lparr>en_cache := c\<rparr>)" "en_running (e\<lparr>en_cache := c\<rparr>)"
    using E es(2) by (simp_all add: engine_ok_def)
  obtain gs d' where gs: "engine_incoming ord i (e\<lparr>en_cache := c\<rparr>) = (Inr gs, e\<lparr>en_cache := d'\<rparr>)"
    "cache_ok (e\<lparr>en_cache := d'\<rparr>)" "set gs = edges_in (engine_store e) (st_in (engine_store e) i)"
    using incoming_reads [OF E1 ord, of i] by (auto elim!: readsE)
  have none: "e\<lparr>en_cache := en_cache e\<rparr> = e" "cache_ok e" using E by (simp_all add: engine_ok_def)
  show ?thesis
  proof (cases d)
    case DirectionOut
    with es show ?thesis by (auto simp: reads_def neighbor_ids_def neighbor_set_def)
  next
    case DirectionIn
    with fs show ?thesis by (auto simp: reads_def neighbor_ids_def neighbor_set_def)
  next
    case DirectionBoth
    with es(1,3) gs show ?thesis by (auto simp: reads_def neighbor_ids_def neighbor_set_def)
  next
    case (DirectionOther k)
    with none show ?thesis by (auto simp: reads_def neighbor_ids_def neighbor_set_def intro!: exI [of _ "en_cache e"])
  qed
qed

lemma query_answers:
  assumes E: "engine_ok e" "en_running e" and "reads f e r" and "f e = (r', e')"
  shows "r' = r \<and> engine_ok e' \<and> en_running e' \<and> engine_store e' = engine_store e"
  using assms by (auto simp: engine_ok_def elim!: readsE)

lemma neighbors_reads:
  assumes E: "engine_ok e" "en_running e" and ord: "map_order ord"
  shows "\<exists>ns. reads (engine_neighbors ord i d) e (Inr ns)
    \<and> set ns = {n. \<exists>j \<in> neighbor_set (engine_store e) i d. st_nodes (engine_store e) j = Some n}
    \<and> distinct (map n_ID ns)"
proof -
  obtain ids where ids: "reads (neighbor_ids ord i d) e (Inr ids)" "set ids = neighbor_set (engine_store e) i d"
    using neighbor_ids_reads [OF E ord] by blast
  from ids(1) obtain c where c: "neighbor_ids ord i d e = (Inr ids, e\<lparr>en_cache := c\<rparr>)"
    "cache_ok (e\<lparr>en_cache := c\<rparr>)" by (rule readsE)
  let ?e = "e\<lparr>en_cache := c\<rparr>" and ?ids = "ord (remdups ids)"
  have L: "lanes_ok e" using E by (simp add: engine_ok_def)
  have o: "distinct ?ids" "set ?ids = neighbor_set (engine_store e) i d"
    using ord ids(2) by (simp_all add: map_order_def)
  have E': "engine_ok ?e" "en_running ?e" using E c(2) by (simp_all add: engine_ok_def)
  have "reads (fetch_all engine_get_node ?ids []) ?e (Inr ([] @ List.map_filter (st_nodes (engine_store ?e)) ?ids))"
    by (rule fetch_all_reads [OF get_node_reads E'])
  then have "reads (engine_neighbors ord i d) e (Inr (List.map_filter (st_nodes (engine_store e)) ?ids))"
    using E(2) c(1) by (auto simp: reads_def engine_neighbors_def)
  moreover have "distinct (map n_ID (List.map_filter (st_nodes (engine_store e)) ?ids))"
    by (rule distinct_map_filter [OF o(1)]) (rule stored_node(1) [OF L])
  ultimately show ?thesis
    by (intro exI [of _ "List.map_filter (st_nodes (engine_store e)) ?ids"]) (simp add: set_map_filter o(2))
qed

lemma handle_answers:
  assumes E: "engine_ok e" "en_running e" and ad: "admissible t rq (engine_store e)" and ord: "map_order ord"
    and run: "handle io now t ord rq e = (rp, e')" and np: "\<not> panicked rp"
  shows "engine_ok e' \<and> en_running e' \<and> answers t rq (engine_store e) rp (engine_store e')"
proof (cases rq)
  case (CreateNode n)
  with run obtain r where r: "rp = Done r" "create_node io now n e = (r, e')"
    by (cases "create_node io now n e") auto
  from create_node_answers [OF E ad [unfolded CreateNode] r(2) np [unfolded r(1)]] show ?thesis
    unfolding CreateNode r(1) .
next
  case (UpdateNode i ps)
  with run obtain r where r: "rp = Done r" "update_node io now t i ps e = (r, e')"
    by (cases "update_node io now t i ps e") auto
  from update_node_answers [OF E ad [unfolded UpdateNode] r(2) np [unfolded r(1)]] show ?thesis
    unfolding UpdateNode r(1) .
next
  case (CreateEdge ed)
  with run obtain r where r: "rp = Done r" "create_edge io now ed e = (r, e')"
    by (cases "create_edge io now ed e") auto
  from create_edge_answers [OF E ad [unfolded CreateEdge] r(2) np [unfolded r(1)]] show ?thesis
    unfolding CreateEdge r(1) .
next
  case (GetNode i)
  with run obtain r where r: "rp = ANode r" "engine_get_node i e = (r, e')"
    by (cases "engine_get_node i e") auto
  from query_answers [OF E get_node_reads [OF E] r(2)] GetNode r(1) show ?thesis by simp
next
  case (GetEdge i)
  with run obtain r where r: "rp = AnEdge r" "engine_get_edge i e = (r, e')"
    by (cases "engine_get_edge i e") auto
  from query_answers [OF E get_edge_reads [OF E] r(2)] GetEdge r(1) show ?thesis by simp
next
  case (Outgoing i)
  with run obtain r where r: "rp = Edges r" "engine_outgoing ord i e = (r, e')"
    by (cases "engine_outgoing ord i e") auto
  from outgoing_reads [OF E ord, of i] obtain es where es: "reads (engine_outgoing ord i) e (Inr es)"
    "set es = edges_in (engine_store e) (st_out (engine_store e) i)" "distinct (map e_ID es)" by blast
  from query_answers [OF E es(1) r(2)] Outgoing r(1) es show ?thesis by simp
next
  case (Incoming i)
  with run obtain r where r: "rp = Edges r" "engine_incoming ord i e = (r, e')"
    by (cases "engine_incoming ord i e") auto
  from incoming_reads [OF E ord, of i] obtain es where es: "reads (engine_incoming ord i) e (Inr es)"
    "set es = edges_in (engine_store e) (st_in (engine_store e) i)" "distinct (map e_ID es)" by blast
  from query_answers [OF E es(1) r(2)] Incoming r(1) es show ?thesis by simp
next
  case (Neighbors i d)
  with run obtain r where r: "rp = Nodes r" "engine_neighbors ord i d e = (r, e')"
    by (cases "engine_neighbors ord i d e") auto
  from neighbors_reads [OF E ord, of i d] obtain ns where ns: "reads (engine_neighbors ord i d) e (Inr ns)"
    "set ns = {n. \<exists>j \<in> neighbor_set (engine_store e) i d. st_nodes (engine_store e) j = Some n}"
    "distinct (map n_ID ns)" by blast
  from query_answers [OF E ns(1) r(2)] Neighbors r(1) ns show ?thesis by simp
qed

section \<open>Runs\<close>

text \<open>
  A run of the engine: requests, and between them syncs of the logs and cycles of the
  compactor, which change no answer.  The trace holds the requests with their replies.
\<close>

inductive engine_run :: "'b bloom \<Rightarrow> engine \<Rightarrow> (gotime \<times> request \<times> reply) list \<Rightarrow> engine \<Rightarrow> bool" for B e0 where
  start: "engine_run B e0 [] e0"
| request: "engine_run B e0 tr e \<Longrightarrow> admissible t rq (engine_store e) \<Longrightarrow> map_order ord \<Longrightarrow>
     handle io now t ord rq e = (rp, e') \<Longrightarrow> \<not> panicked rp \<Longrightarrow> engine_run B e0 (tr @ [(t, rq, rp)]) e'"
| sync: "engine_run B e0 tr e \<Longrightarrow> j < en_numLanes e \<Longrightarrow> wal_sync io (l_wal (en_lanes e ! j)) = (r, w) \<Longrightarrow>
     engine_run B e0 tr (set_lane j ((en_lanes e ! j)\<lparr>l_wal := w\<rparr>) e)"
| compact: "engine_run B e0 tr e \<Longrightarrow> run_compaction B io srt now (en_compactor e) (en_fs e) = (r, c, fs) \<Longrightarrow>
     engine_run B e0 tr (e\<lparr>en_compactor := c, en_fs := fs\<rparr>)"

fun spec_run :: "store \<Rightarrow> (gotime \<times> request \<times> reply) list \<Rightarrow> store \<Rightarrow> bool" where
  "spec_run s [] s' \<longleftrightarrow> s' = s"
| "spec_run s ((t, rq, rp) # tr) s' \<longleftrightarrow> (\<exists>s1. answers t rq s rp s1 \<and> spec_run s1 tr s')"

lemma spec_run_snoc: "spec_run s (tr @ [(t, rq, rp)]) s' \<longleftrightarrow> (\<exists>s1. spec_run s tr s1 \<and> answers t rq s1 rp s')"
proof (induction tr arbitrary: s)
  case (Cons x tr)
  obtain t' rq' rp' where x: "x = (t', rq', rp')" by (cases x)
  show ?case by (simp add: x Cons) blast
qed simp

lemma compactor_frame [simp]:
  "engine_store (e\<lparr>en_compactor := c, en_fs := fs\<rparr>) = engine_store e"
  "engine_ok (e\<lparr>en_compactor := c, en_fs := fs\<rparr>) = engine_ok e"
proof -
  let ?e = "e\<lparr>en_compactor := c, en_fs := fs\<rparr>"
  have "lane_index ?e = lane_index e" by (rule lane_index_cong) simp
  moreover from this have "home ?e = home e" by (simp add: home_def fun_eq_iff)
  ultimately show "engine_store ?e = engine_store e" "engine_ok ?e = engine_ok e"
    by (simp_all add: engine_store_def engine_ok_def cache_ok_def lanes_ok_def homed_def)
qed

lemma sync_frame:
  assumes "engine_ok e" and j: "j < en_numLanes e"
  shows "engine_ok (set_lane j ((en_lanes e ! j)\<lparr>l_wal := w\<rparr>) e)
    \<and> engine_store (set_lane j ((en_lanes e ! j)\<lparr>l_wal := w\<rparr>) e) = engine_store e"
proof -
  let ?l = "(en_lanes e ! j)\<lparr>l_wal := w\<rparr>"
  from assms(1) have L: "lanes_ok e" "cache_ok e" by (simp_all add: engine_ok_def)
  have S: "engine_store (set_lane j ?l e) = engine_store e"
    by (rule engine_store_same [OF L(1) j]) simp
  have "same_store (en_lanes e ! j) ?l" by simp
  with set_lane_ok [OF L(1) j, of ?l n d for n d] homedD(3) [OF L(1) j]
  have "lanes_ok (set_lane j ?l e)" by (simp add: same_store_def)
  moreover have "cache_ok (set_lane j ?l e)"
    by (rule cache_ok_set_lane [OF L(2)]) (simp_all add: S)
  ultimately show ?thesis using S by (simp add: engine_ok_def)
qed

lemma engine_run_refines:
  assumes "engine_run B e0 tr e" and "engine_ok e0" and "en_running e0"
  shows "spec_run (engine_store e0) tr (engine_store e) \<and> engine_ok e \<and> en_running e"
  using assms
proof (induction rule: engine_run.induct)
  case start
  then show ?case by simp
next
  case (request tr e t rq ord io now rp e')
  then have IH: "spec_run (engine_store e0) tr (engine_store e)" "engine_ok e" "en_running e" by blast+
  from handle_answers [OF IH(2,3) request.hyps(2-5)] IH(1) show ?case by (auto simp: spec_run_snoc)
next
  case (sync tr e j io r w)
  with sync_frame show ?case by auto
next
  case (compact tr e io srt now r c fs)
  then show ?case by simp
qed

text \<open>
  C1: The engine as a graph store, for clients that create each identifier once.  The run
  (\<open>engine_run\<close>) starts at a well-formed running engine; a \<open>CreateNode\<close> or \<open>CreateEdge\<close> in it is for
  an identifier the graph does not have yet, records fit the 32-bit lengths of the format, edge
  identifiers are UTF-8 without a comma, and no request has panicked (\<open>admissible\<close>); syncs and
  compactions come in between, but no flush of a lane.  Then, whatever the file system does, the
  replies are those of one graph of nodes, edges and adjacency lists, and the invariant (every
  record in the lane its identifier hashes to, the cache holding only current records) is kept.
  A failed node write changes nothing; a failed edge write leaves what its error tells
  (\<open>effect_of\<close>): nothing, the edge, or the edge and its outgoing entry.  Identifiers created again
  and flushes break this (theory \<open>Engine_Life\<close>); what remains true of any run is in theory
  \<open>Provenance\<close>.
\<close>

theorem engine_refines_graph:
  assumes "engine_run B e0 tr e" and "engine_ok e0" and "en_running e0"
  shows "spec_run (engine_store e0) tr (engine_store e) \<and> engine_ok e \<and> en_running e"
  by (rule engine_run_refines [OF assms])

lemma sum_list_zero: "(\<And>x. x \<in> set xs \<Longrightarrow> f x = 0) \<Longrightarrow> (\<Sum>x\<leftarrow>xs. f x) = (0 :: 'x :: comm_monoid_add)"
  by (induction xs) auto

lemma fresh_engine:
  assumes "\<forall>l\<in>set (en_lanes e). lane_store l = empty_store \<and> lane_wf l"
    and "0 < en_numLanes e" "en_numLanes e < 2 ^ 32" "length (en_lanes e) = en_numLanes e"
    and "en_cache e = new_mlc_from_size sz"
  shows "engine_ok e" "engine_store e = empty_store"
proof -
  have V: "node_view l = Map.empty \<and> edge_view l = Map.empty \<and> out_view l = (\<lambda>_. {#}) \<and> in_view l = (\<lambda>_. {#}) \<and> lane_wf l"
    if "l \<in> set (en_lanes e)" for l
    using assms(1) that lane_store_sel [of l] by (auto simp: empty_store_def)
  have "homed e" using V by (simp add: homed_def)
  with assms show "engine_ok e" by (simp add: engine_ok_def lanes_ok_def cache_ok_def tiers_hold_new)
  have "home e k \<in> set (en_lanes e)" for k
    using assms(4) lane_index_less [OF assms(2,3), of k] by (simp add: home_def)
  with V have "(\<lambda>i. node_view (home e i) i) = Map.empty" "(\<lambda>i. edge_view (home e i) i) = Map.empty" by auto
  moreover have "(\<Sum>l\<leftarrow>en_lanes e. out_view l i) = {#}" "(\<Sum>l\<leftarrow>en_lanes e. in_view l i) = {#}" for i
    by (rule sum_list_zero; simp add: V)+
  ultimately show "engine_store e = empty_store" by (simp add: engine_store_def empty_store_def)
qed

definition demo_engine :: engine where
  "demo_engine = \<lparr>en_lanes = [new_write_lane 0 1000 (new_wal 0 False 4096 None)], en_numLanes = 1,
     en_memtableSize = 1000, en_cache = new_mlc_from_size 1000, en_flusher = new_flusher None,
     en_compactor = new_compactor None,
     en_manifest = \<lparr>mf_Version = 1, mf_SSTables = [], mf_UpdatedAt = 0, mf_path = []\<rparr>,
     en_running = True, en_cancelled = False, en_fs = Map.empty\<rparr>"

lemma demo_engine_ok: "engine_ok demo_engine" "engine_store demo_engine = empty_store" "en_running demo_engine"
  using fresh_engine [of demo_engine 1000] fresh_lane by (simp_all add: demo_engine_def)

lemma demo_create:
  "\<exists>e. handle io_fine 0 t ord (CreateNode demo_node) demo_engine = (Done (Inr ()), e)"
proof -
  obtain l where l: "write_node io_fine 0 demo_node (new_write_lane 0 1000 (new_wal 0 False 4096 None)) = (Inr (), l)"
    using demo_write by blast
  have "lane_index demo_engine k = 0" for k
    by (simp add: lane_index_def demo_engine_def)
  with l show ?thesis by (simp add: create_node_def demo_engine_def)
qed

theorem engine_refines_graph_witness:
  "\<exists>e tr. engine_run tiny_bloom demo_engine tr e \<and> spec_run empty_store tr (engine_store e)
     \<and> map (snd \<circ> snd) tr = [Done (Inr ()), ANode (Inr (wire_node demo_node))]"
proof -
  have ord: "map_order (\<lambda>ks. ks)" by (simp add: map_order_def)
  obtain e where e: "handle io_fine 0 (time_unix 0) (\<lambda>ks. ks) (CreateNode demo_node) demo_engine = (Done (Inr ()), e)"
    using demo_create by blast
  let ?tr = "[(time_unix 0, CreateNode demo_node, Done (Inr ()))]"
  have ad: "admissible (time_unix 0) (CreateNode demo_node) (engine_store demo_engine)"
    using demo_node_facts by (simp add: demo_engine_ok empty_store_def)
  have run: "engine_run tiny_bloom demo_engine ?tr e"
    using engine_run.request [OF engine_run.start ad ord e] by simp
  note R = engine_refines_graph [OF run demo_engine_ok(1,3)]
  then have S: "st_nodes (engine_store e) [0x61] = Some (wire_node demo_node)"
    by (simp add: demo_engine_ok succeeded_def demo_node_facts)
  from get_node_reads [of e "[0x61]"] R obtain e' where
    g: "handle io_fine 0 (time_unix 0) (\<lambda>ks. ks) (GetNode [0x61]) e = (ANode (Inr (wire_node demo_node)), e')"
    by (auto simp: S found_def elim: readsE)
  have run': "engine_run tiny_bloom demo_engine (?tr @ [(time_unix 0, GetNode [0x61], ANode (Inr (wire_node demo_node)))]) e'"
    by (rule engine_run.request [OF run _ ord g]) simp_all
  from engine_refines_graph [OF run' demo_engine_ok(1,3)] run' show ?thesis
    unfolding demo_engine_ok(2) by (intro exI conjI) (assumption | simp)+
qed

end
