(* ===== verification/Engine_Life.thy ===== *)
theory Engine_Life
  imports Engine_Store
begin

text \<open>
  The life of an engine: starting on the logs of an earlier run, stopping and starting again,
  the background flush, and a create that meets a cached identifier.
\<close>

section \<open>Starting on the logs of an earlier run\<close>

lemma open_lanes_Inr:
  "open_lanes io sz logs i n = Inr ls \<Longrightarrow>
   length ls = n \<and> (\<forall>j<n. ls ! j = new_write_lane (i + j) sz (new_wal (i + j) False (256 * 1024) (logs (i + j))))"
proof (induction n arbitrary: i ls)
  case (Suc n)
  then obtain l ls' where l: "l = new_write_lane i sz (new_wal i False (256 * 1024) (logs i))"
    and ls': "open_lanes io sz logs (Suc i) n = Inr ls'" and ls: "ls = l # ls'"
    by (auto simp: bindE_iff open_write_lane_def open_wal_def split: if_splits)
  from Suc.IH [OF ls'] show ?case
    by (auto simp: ls l nth_Cons split: nat.splits)
qed simp

lemma new_engine_Inr:
  assumes "new_engine J io now logs (Some cfg) fs = (Inr e, fs')"
  shows "0 < en_numLanes e" "en_numLanes e = nat (ec_NumWriteLanes cfg)" "length (en_lanes e) = en_numLanes e"
    "\<And>j. j < en_numLanes e \<Longrightarrow> en_lanes e ! j = new_write_lane j (ec_MemtableSize cfg) (new_wal j False (256 * 1024) (logs (wal_dir cfg) j))"
    "en_cache e = new_mlc_from_size (ec_CacheSize cfg)" "\<not> en_running e"
    "\<not> fl_running (en_flusher e)" "\<not> cp_running (en_compactor e)"
proof -
  from assms obtain ls where ls: "open_lanes io (ec_MemtableSize cfg) (logs (wal_dir cfg)) 0 (nat (ec_NumWriteLanes cfg)) = Inr ls"
    and e: "en_lanes e = ls" "en_numLanes e = nat (ec_NumWriteLanes cfg)" "en_cache e = new_mlc_from_size (ec_CacheSize cfg)"
      "\<not> en_running e" "\<not> fl_running (en_flusher e)" "\<not> cp_running (en_compactor e)" and pos: "0 < ec_NumWriteLanes cfg"
    by (auto simp: new_engine_def Let_def new_flusher_def new_compactor_def wrapE_Inr_iff split: if_splits prod.splits sum.splits)
  from open_lanes_Inr [OF ls] e pos show "0 < en_numLanes e" "en_numLanes e = nat (ec_NumWriteLanes cfg)"
    "length (en_lanes e) = en_numLanes e"
    "\<And>j. j < en_numLanes e \<Longrightarrow> en_lanes e ! j = new_write_lane j (ec_MemtableSize cfg) (new_wal j False (256 * 1024) (logs (wal_dir cfg) j))"
    "en_cache e = new_mlc_from_size (ec_CacheSize cfg)" "\<not> en_running e"
    "\<not> fl_running (en_flusher e)" "\<not> cp_running (en_compactor e)"
    by auto
qed

lemma recover_lanes_all:
  "list_all2 (\<lambda>l l'. lane_recover io l = (Inr (), l')) ls ls' \<Longrightarrow> recover_lanes io ls = (Inr (), ls')"
  by (induction rule: list_all2_induct) simp_all

text \<open>What a log of writes puts in a fresh store.\<close>

lemma store_after_nodes:
  "st_nodes (store_after ws empty_store) i = Some n \<Longrightarrow> \<exists>now n0. (now, WNode n0) \<in> set ws \<and> n_ID n0 = i \<and> n = wire_node n0"
proof (induction ws rule: rev_induct)
  case (snoc x ws)
  obtain now w where x: "x = (now, w)" by force
  from snoc show ?case by (cases w) (auto simp: x store_after_def split: if_splits)
qed (simp add: store_after_def empty_store_def)

lemma store_after_edges:
  "st_edges (store_after ws empty_store) i = Some d \<Longrightarrow> \<exists>now d0. (now, WEdge d0) \<in> set ws \<and> e_ID d0 = i \<and> d = wire_edge d0"
proof (induction ws rule: rev_induct)
  case (snoc x ws)
  obtain now w where x: "x = (now, w)" by force
  from snoc show ?case by (cases w) (auto simp: x store_after_def split: if_splits)
qed (simp add: store_after_def empty_store_def)

text \<open>The intact log of writes that one lane may have made.\<close>

definition lane_log_ok :: "(u64 \<times> update) list \<Rightarrow> bool" where
  "lane_log_ok ws \<longleftrightarrow> list_all entry_ok (log_of ws)
     \<and> (\<forall>(now, w)\<in>set ws. write_ok w \<and> write_data w = Inr (data_of w))"

lemma logged_node:
  assumes "lane_log_ok ws" and "st_nodes (store_after ws empty_store) i = Some n"
  shows "\<exists>now n0. (now, WNode n0) \<in> set ws \<and> n_ID n0 = i" "n_ID n = i" "node_ok n" "n_Properties n \<noteq> None"
proof -
  from store_after_nodes [OF assms(2)] obtain now n0 where n: "(now, WNode n0) \<in> set ws" "n_ID n0 = i" "n = wire_node n0"
    by blast
  with assms(1) have "node_ok n0" by (force simp: lane_log_ok_def)
  with n wire_node_ok [OF this] show "\<exists>now n0. (now, WNode n0) \<in> set ws \<and> n_ID n0 = i" "n_ID n = i" "node_ok n"
    "n_Properties n \<noteq> None" by (auto simp: wire_node_def wire_props_def)
qed

lemma logged_edge:
  assumes "lane_log_ok ws" and "st_edges (store_after ws empty_store) i = Some d"
  shows "\<exists>now d0. (now, WEdge d0) \<in> set ws \<and> e_ID d0 = i" "e_ID d = i" "edge_ok d"
proof -
  from store_after_edges [OF assms(2)] obtain now d0 where d: "(now, WEdge d0) \<in> set ws" "e_ID d0 = i" "d = wire_edge d0"
    by blast
  with assms(1) have "edge_ok d0" by (force simp: lane_log_ok_def)
  with d wire_edge_ok [OF this] show "\<exists>now d0. (now, WEdge d0) \<in> set ws \<and> e_ID d0 = i" "e_ID d = i" "edge_ok d"
    by (auto simp: wire_edge_def)
qed

lemma replay_loop_keeps:
  assumes step: "\<And>en s r s'. fn en s = (r, s') \<Longrightarrow> P s \<Longrightarrow> P s'" and "P s" and "replay_loop fn d s = (r, s')"
  shows "P s'"
  using assms(2,3)
proof (induction "length d" arbitrary: d s rule: less_induct)
  case less
  show ?case
  proof (cases "deserialize_entry d")
    case (Inl e)
    with less.prems show ?thesis by (subst (asm) replay_loop.simps) (auto split: if_splits)
  next
    case (Inr x)
    obtain en k d' where x: "x = ((en, k), d')" by (metis prod.exhaust)
    obtain q s1 where q: "fn en s = (q, s1)" by force
    from step [OF q less.prems(1)] have "P s1" .
    moreover from Inr x have "length d' < length d" by (auto dest: deserialize_entry_consumes)
    ultimately show ?thesis
      using less.hyps [of d' s1] less.prems(2) Inr x q
      by (subst (asm) (2) replay_loop.simps) (auto split: sum.splits)
  qed
qed

text \<open>What recovery leaves alone.\<close>

definition recover_frame :: "lane \<Rightarrow> lane \<Rightarrow> bool" where
  "recover_frame l l' \<longleftrightarrow> l_wal l' = l_wal l \<and> l_stopped l' = l_stopped l \<and> l_memtableSize l' = l_memtableSize l"

lemma on_tables_frame:
  "on_active f l = (r, l') \<Longrightarrow> recover_frame l l'" "on_edges f l = (r, l') \<Longrightarrow> recover_frame l l'"
  "on_adj f l = (r, l') \<Longrightarrow> recover_frame l l'"
  by (auto simp: recover_frame_def on_active_def on_edges_def on_adj_def split: prod.splits)

lemma recover_frame_trans: "recover_frame l l1 \<Longrightarrow> recover_frame l1 l2 \<Longrightarrow> recover_frame l l2"
  by (simp add: recover_frame_def)

lemma recover_frame_refl [simp]: "recover_frame l l"
  by (simp add: recover_frame_def)

lemma recover_entry_frame: "recover_entry en l = (r, l') \<Longrightarrow> recover_frame l l'"
  by (auto simp: recover_entry_def ignore_error_def on_error_def add_out_def add_in_def
      dest!: on_tables_frame split: if_splits sum.splits prod.splits intro: recover_frame_trans)

lemma lane_recover_keeps:
  assumes "lane_recover io l = (r, l')" and "\<And>en s r s'. recover_entry en s = (r, s') \<Longrightarrow> P s \<Longrightarrow> P s'" and "P l"
  shows "P l'"
proof (cases "w_file (l_wal l)")
  case (Some d)
  with assms(1,3) show ?thesis
    using replay_loop_keeps [of recover_entry P l d r l', OF assms(2)]
    by (auto simp: lane_recover_def wal_replay_def split: if_splits)
qed (use assms in \<open>simp add: lane_recover_def wal_replay_def\<close>)

lemma lane_recover_frame: "lane_recover io l = (r, l') \<Longrightarrow> recover_frame l l'"
  by (rule lane_recover_keeps [where P = "recover_frame l"]) (auto intro: recover_frame_trans recover_entry_frame)

definition log_file :: "bytes option \<Rightarrow> bytes" where
  \<comment> \<open>what opening a log, with \<open>O_CREATE\<close>, finds in it\<close>
  "log_file d = (case d of None \<Rightarrow> [] | Some d \<Rightarrow> d)"

lemma log_file_simps [simp]: "log_file None = []" "log_file (Some d) = d"
  by (simp_all add: log_file_def)

lemma recover_intact:
  assumes ok: "lane_log_ok ws" and io: "io_open_ok io" and fits: "2 * total_size ws \<le> sz"
    and log: "log_file d = log_bytes (log_of ws)"
  shows "\<exists>l. lane_recover io (new_write_lane i sz (new_wal i False bsz d)) = (Inr (), l)
    \<and> lane_store l = store_after ws empty_store \<and> lane_wf l \<and> l_wal l = new_wal i False bsz d
    \<and> lane_room sz (total_size ws) l \<and> \<not> l_stopped l \<and> l_memtableSize l = sz"
proof -
  let ?l = "new_write_lane i sz (new_wal i False bsz d)"
  have good: "\<forall>(now, w)\<in>set ws. write_ok w \<and> write_data w = Inr (data_of w)" and "list_all entry_ok (log_of ws)"
    using ok by (simp_all add: lane_log_ok_def)
  from fits have "2 * (0 + total_size ws) \<le> sz" by simp
  from recover_log [OF good fresh_lane(3) this _ fresh_lane(2)] obtain l where
    l: "apply_entries recover_entry (log_of ws) ?l = (Inr (), l)" "lane_store l = store_after ws empty_store" "lane_wf l"
      "lane_room sz (total_size ws) l"
    by (auto simp: fresh_lane)
  have rec: "lane_recover io ?l = replay_loop recover_entry (log_bytes (log_of ws)) ?l"
    using io log by (simp add: lane_recover_def wal_replay_def new_wal_def log_file_def Let_def)
  also have "\<dots> = (Inr (), l)" using l(1) replay_loop_entries [OF \<open>list_all entry_ok (log_of ws)\<close>, where fn = recover_entry and s = ?l] by simp
  finally have run: "lane_recover io ?l = (Inr (), l)" .
  from lane_recover_frame [OF run] run l(2-4) show ?thesis by (simp add: recover_frame_def new_write_lane_def)
qed

text \<open>The logs an engine is opened on, and the graph they describe.\<close>

definition logs_hold :: "(nat \<Rightarrow> bytes option) \<Rightarrow> int \<Rightarrow> engine \<Rightarrow> (nat \<Rightarrow> (u64 \<times> update) list) \<Rightarrow> bool" where
  "logs_hold logs sz e ws \<longleftrightarrow> (\<forall>j < en_numLanes e. log_file (logs j) = log_bytes (log_of (ws j)) \<and> lane_log_ok (ws j)
     \<and> 2 * total_size (ws j) \<le> sz \<and> (\<forall>(now, w)\<in>set (ws j). lane_index e (write_key w) = j))"

definition store_of_logs :: "engine \<Rightarrow> (nat \<Rightarrow> (u64 \<times> update) list) \<Rightarrow> store" where
  "store_of_logs e ws =
     \<lparr>st_nodes = (\<lambda>i. st_nodes (store_after (ws (lane_index e i)) empty_store) i),
      st_edges = (\<lambda>i. st_edges (store_after (ws (lane_index e i)) empty_store) i),
      st_out = (\<lambda>i. \<Sum>j\<leftarrow>[0..<en_numLanes e]. st_out (store_after (ws j) empty_store) i),
      st_in = (\<lambda>i. \<Sum>j\<leftarrow>[0..<en_numLanes e]. st_in (store_after (ws j) empty_store) i)\<rparr>"

lemma engine_start_store:
  assumes new: "new_engine J io now logs (Some cfg) fs = (Inr e, fs')" and lanes: "ec_NumWriteLanes cfg < 2 ^ 32"
    and logs: "logs_hold (logs (wal_dir cfg)) (ec_MemtableSize cfg) e ws" and io: "io_open_ok io'"
  shows "\<exists>e'. engine_start io' e = (Inr (), e') \<and> en_running e' \<and> engine_ok e' \<and> engine_store e' = store_of_logs e ws
    \<and> en_numLanes e' = en_numLanes e
    \<and> (\<forall>j < en_numLanes e. lane_store (en_lanes e' ! j) = store_after (ws j) empty_store
        \<and> l_wal (en_lanes e' ! j) = new_wal j False (256 * 1024) (logs (wal_dir cfg) j)
        \<and> lane_room (ec_MemtableSize cfg) (total_size (ws j)) (en_lanes e' ! j)
        \<and> \<not> l_stopped (en_lanes e' ! j) \<and> l_memtableSize (en_lanes e' ! j) = ec_MemtableSize cfg)"
proof -
  note N = new_engine_Inr [OF new]
  let ?n = "en_numLanes e" and ?S = "\<lambda>j. store_after (ws j) empty_store"
  have n: "?n < 2 ^ 32" using lanes N(2) by simp
  have "\<forall>j<?n. \<exists>l. lane_recover io' (en_lanes e ! j) = (Inr (), l) \<and> lane_store l = ?S j \<and> lane_wf l
      \<and> l_wal l = new_wal j False (256 * 1024) (logs (wal_dir cfg) j)
      \<and> lane_room (ec_MemtableSize cfg) (total_size (ws j)) l \<and> \<not> l_stopped l \<and> l_memtableSize l = ec_MemtableSize cfg"
    using logs recover_intact [OF _ io] N(4) by (auto simp: logs_hold_def)
  then obtain f where f: "\<And>j. j < ?n \<Longrightarrow> lane_recover io' (en_lanes e ! j) = (Inr (), f j) \<and> lane_store (f j) = ?S j \<and> lane_wf (f j)
      \<and> l_wal (f j) = new_wal j False (256 * 1024) (logs (wal_dir cfg) j)
      \<and> lane_room (ec_MemtableSize cfg) (total_size (ws j)) (f j) \<and> \<not> l_stopped (f j) \<and> l_memtableSize (f j) = ec_MemtableSize cfg"
    by metis
  let ?ls = "map f [0..<?n]"
  have "recover_lanes io' (en_lanes e) = (Inr (), ?ls)"
    by (rule recover_lanes_all) (simp add: list_all2_conv_all_nth N(3) f)
  then obtain fl cp where start: "engine_start io' e =
      (Inr (), e\<lparr>en_lanes := ?ls, en_running := True, en_flusher := fl, en_compactor := cp\<rparr>)" (is "_ = (_, ?e)")
    using N(6-8) by (simp add: engine_start_def flusher_start_def compactor_start_def)
  have idx: "lane_index ?e = lane_index e" by (rule lane_index_cong) simp
  have less: "lane_index e i < ?n" for i by (rule lane_index_less [OF N(1) n])
  have home: "home ?e i = f (lane_index e i)" for i using less [of i] by (simp add: home_def idx)
  have V: "node_view (f j) = st_nodes (?S j)" "edge_view (f j) = st_edges (?S j)"
    "out_view (f j) = st_out (?S j)" "in_view (f j) = st_in (?S j)" "lane_wf (f j)" if "j < ?n" for j
    using f [OF that] lane_store_sel [of "f j"] by simp_all
  have key: "lane_index e (write_key w) = j" if "j < ?n" "(t, w) \<in> set (ws j)" for j t w
    using logs that by (fastforce simp: logs_hold_def)
  have log: "lane_log_ok (ws j)" if "j < ?n" for j using logs that by (simp add: logs_hold_def)
  have nodes: "lane_index e i = j \<and> n_ID m = i \<and> node_ok m \<and> n_Properties m \<noteq> None"
    if "j < ?n" "node_view (f j) i = Some m" for j i m
    using logged_node [OF log [OF that(1)], of i m] that(2) key [OF that(1)] by (fastforce simp: V(1) [OF that(1)])
  have edges: "lane_index e i = j \<and> e_ID d = i \<and> edge_ok d"
    if "j < ?n" "edge_view (f j) i = Some d" for j i d
    using logged_edge [OF log [OF that(1)], of i d] that(2) key [OF that(1)] by (fastforce simp: V(2) [OF that(1)])
  have "homed ?e" using nodes edges V(5) by (simp add: homed_def idx)
  then have ok: "engine_ok ?e"
    using N(1,5) n by (simp add: engine_ok_def lanes_ok_def cache_ok_def tiers_hold_new)
  have lists: "map (\<lambda>l. out_view l i) ?ls = map (\<lambda>j. st_out (?S j) i) [0..<?n]"
    "map (\<lambda>l. in_view l i) ?ls = map (\<lambda>j. st_in (?S j) i) [0..<?n]" for i
    using V by simp_all
  have "engine_store ?e = \<lparr>st_nodes = (\<lambda>i. st_nodes (?S (lane_index e i)) i), st_edges = (\<lambda>i. st_edges (?S (lane_index e i)) i),
        st_out = (\<lambda>i. \<Sum>j\<leftarrow>[0..<?n]. st_out (?S j) i), st_in = (\<lambda>i. \<Sum>j\<leftarrow>[0..<?n]. st_in (?S j) i)\<rparr>"
    unfolding engine_store_def home using V(1,2) [OF less] by (simp add: lists del: map_map)
  moreover have "j < ?n \<Longrightarrow> lane_store (?ls ! j) = ?S j \<and> l_wal (?ls ! j) = new_wal j False (256 * 1024) (logs (wal_dir cfg) j)
      \<and> lane_room (ec_MemtableSize cfg) (total_size (ws j)) (?ls ! j)
      \<and> \<not> l_stopped (?ls ! j) \<and> l_memtableSize (?ls ! j) = ec_MemtableSize cfg" for j
    using f [of j] by simp
  ultimately show ?thesis
    using start ok by (intro exI [of _ ?e]) (simp add: store_of_logs_def)
qed

text \<open>
  Start-up.  An engine opened on the logs of an earlier run with the same number of lanes
  (each lane's log intact, holding writes of identifiers that hash to it, and together small
  enough for one table) starts, and serves exactly the graph those logs describe: every node
  and edge from the lane its identifier hashes to, the adjacency lists gathered over all
  lanes.  The engine it starts satisfies the invariant of the graph property.
\<close>

theorem engine_start_recovers:
  assumes new: "new_engine J io now logs (Some cfg) fs = (Inr e, fs')" and lanes: "ec_NumWriteLanes cfg < 2 ^ 32"
    and logs: "logs_hold (logs (wal_dir cfg)) (ec_MemtableSize cfg) e ws" and io: "io_open_ok io'"
  shows "\<exists>e'. engine_start io' e = (Inr (), e') \<and> en_running e' \<and> engine_ok e' \<and> engine_store e' = store_of_logs e ws"
  using engine_start_store [OF assms] by blast

definition demo_config :: engine_config where
  "demo_config = \<lparr>ec_NumWriteLanes = 1, ec_MemtableSize = 1000, ec_CacheSize = 1000, ec_DataDir = [100],
     ec_WALDir = [119], ec_EnableWAL = True\<rparr>"

lemma io_fine_ok: "io_open_ok io_fine" "io_mkdir_ok io_fine" "io_stat_ok io_fine"
  by (simp_all add: io_fine_def)

lemma fine_open_lanes: "\<exists>ls. open_lanes io_fine sz logs i n = Inr ls"
proof (induction n arbitrary: i)
  case (Suc n)
  from Suc.IH [of "Suc i"] show ?case by (auto simp: open_write_lane_def open_wal_def io_fine_ok bindE_def)
qed simp

lemma fine_new_engine:
  assumes "0 < ec_NumWriteLanes cfg" and "0 < ec_MemtableSize cfg"
  shows "\<exists>e fs. new_engine (one_json d) io_fine 0 logs (Some cfg) Map.empty = (Inr e, fs)"
proof -
  have save: "manifest_save (one_json d) io_fine (m :: manifest) fs = (Inr (), fs(mf_path m @ lit ''.tmp'' := None, mf_path m \<mapsto> [7]))"
    for m fs
    by (simp add: manifest_save_def one_json_def write_file_def file_write_def io_fine_def rename_file_def Let_def)
  have "\<exists>m fs. new_manifest (one_json d) io_fine 0 (Some (ec_DataDir cfg)) Map.empty = (Inr m, fs)"
    by (simp add: new_manifest_def load_manifest_def save Let_def io_fine_def [THEN arg_cong, of io_mkdir_ok])
  then obtain m fs where m: "new_manifest (one_json d) io_fine 0 (Some (ec_DataDir cfg)) Map.empty = (Inr m, fs)" by blast
  obtain ls where "open_lanes io_fine (ec_MemtableSize cfg) (logs (wal_dir cfg)) 0 (nat (ec_NumWriteLanes cfg)) = Inr ls"
    using fine_open_lanes by blast
  with m assms show ?thesis by (simp add: new_engine_def Let_def)
qed

lemma demo_new_engine:
  "\<exists>e fs. new_engine (one_json d) io_fine 0 logs (Some demo_config) Map.empty = (Inr e, fs)"
  by (rule fine_new_engine) (simp_all add: demo_config_def)

theorem engine_start_recovers_witness:
  "\<exists>J logs e fs e'. new_engine J io_fine 0 logs (Some demo_config) Map.empty = (Inr e, fs)
     \<and> engine_start io_fine e = (Inr (), e') \<and> st_nodes (engine_store e') [0x61] = Some (wire_node demo_node)"
proof -
  let ?ws = "\<lambda>j :: nat. [(0 :: u64, WNode demo_node)]"
  let ?logs = "\<lambda>(dir :: bytes) (j :: nat). Some (log_bytes (log_of (?ws j)))"
  obtain e fs where new: "new_engine (one_json d) io_fine 0 ?logs (Some demo_config) Map.empty = (Inr e, fs)"
    using demo_new_engine by blast
  have n: "en_numLanes e = 1" using new_engine_Inr(2) [OF new] by (simp add: demo_config_def)
  have idx: "lane_index e k = 0" for k by (simp add: lane_index_def n)
  from demo_node_facts have "write_ok (WNode demo_node)" "write_data (WNode demo_node) = Inr (data_of (WNode demo_node))"
    by (auto simp: data_of_def str_ok_def)
  then have "lane_log_ok (?ws 0)"
    using write_ok_key [of "WNode demo_node"]
    by (auto simp: lane_log_ok_def log_of_def write_entry_def)
  moreover have "2 * total_size (?ws 0) \<le> 1000"
    using demo_node_facts by (auto simp: total_size_def write_size_def data_of_def)
  ultimately have "logs_hold (?logs (wal_dir demo_config)) (ec_MemtableSize demo_config) e ?ws"
    by (simp add: logs_hold_def n idx demo_config_def)
  from engine_start_recovers [OF new _ this io_fine_ok(1)] obtain e' where
    "engine_start io_fine e = (Inr (), e')" "st_nodes (engine_store e') [0x61] = Some (wire_node demo_node)"
    using demo_node_facts by (auto simp: demo_config_def store_after_def store_of_logs_def)
  with new show ?thesis by blast
qed

section \<open>Stopping and starting again\<close>

lemma recover_lanes_stopped:
  "recover_lanes io ls = (r, ls') \<Longrightarrow> list_all l_stopped ls \<Longrightarrow> list_all l_stopped ls' \<and> length ls' = length ls"
proof (induction ls arbitrary: r ls')
  case (Cons l ls)
  obtain q l1 where q: "lane_recover io l = (q, l1)" by force
  obtain q2 ls1 where q2: "recover_lanes io ls = (q2, ls1)" by force
  from lane_recover_frame [OF q] Cons.IH [OF q2] Cons.prems q q2 show ?case
    by (cases q) (auto simp: wrapE_def recover_frame_def)
qed simp

lemma lane_stop_stopped [simp]: "l_stopped (lane_stop io l)"
  by (simp add: lane_stop_def)

text \<open>After a stop that reports success: the lanes are stopped, the compactor's channel is closed.\<close>

lemma engine_stop_Inr:
  assumes "engine_stop B J io clock ord drained e = (Inr (), e')"
  shows "list_all l_stopped (en_lanes e')" "length (en_lanes e') = length (en_lanes e)" "en_numLanes e' = en_numLanes e"
    "cp_stopCh (en_compactor e')" "\<not> en_running e'" "\<not> cp_running (en_compactor e')" "\<not> fl_running (en_flusher e')"
  using assms
  by (auto simp: engine_stop_def Let_def compactor_stop_def flusher_stop_def list_all_iff wrapE_def
      split: if_splits prod.splits sum.splits go_error.splits)

lemma engine_start_Inr:
  assumes "engine_start io e = (Inr (), e')" and "list_all l_stopped (en_lanes e)" and "cp_stopCh (en_compactor e)"
  shows "list_all l_stopped (en_lanes e')" "length (en_lanes e') = length (en_lanes e)" "en_numLanes e' = en_numLanes e"
    "cp_stopCh (en_compactor e')" "cp_running (en_compactor e')" "en_running e'"
proof -
  obtain r ls where ls: "recover_lanes io (en_lanes e) = (r, ls)" by force
  with recover_lanes_stopped [OF ls assms(2)] assms(1,3) show "list_all l_stopped (en_lanes e')"
    "length (en_lanes e') = length (en_lanes e)" "en_numLanes e' = en_numLanes e"
    "cp_stopCh (en_compactor e')" "cp_running (en_compactor e')" "en_running e'"
    by (auto simp: engine_start_def Let_def flusher_start_def compactor_start_def wrapE_def
        split: if_splits sum.splits prod.splits go_error.splits)
qed

text \<open>A read changes nothing but the cache.\<close>

lemma get_node_only_cache: "engine_get_node i e = (r, e') \<Longrightarrow> \<exists>c. e' = e\<lparr>en_cache := c\<rparr>"
  by (cases e) (auto simp: engine_get_node_def Let_def split: if_splits prod.splits sum.splits option.splits)

lemma wrapE_some [simp]: "\<exists>er'. wrapE msg (Inl er :: 'a res) = Inl er'"
  by (cases er) (auto simp: wrapE_def)

text \<open>An engine whose lanes are stopped, as \<open>Stop\<close> leaves them for good.\<close>

definition all_stopped :: "engine \<Rightarrow> bool" where
  "all_stopped e \<longleftrightarrow> en_running e \<and> list_all l_stopped (en_lanes e) \<and> 0 < en_numLanes e \<and> en_numLanes e < 2 ^ 32
     \<and> length (en_lanes e) = en_numLanes e"

lemma stopped_lane: "all_stopped e \<Longrightarrow> l_stopped (en_lanes e ! lane_index e k)"
  using lane_index_less [of e k] by (simp add: all_stopped_def list_all_length)

lemma all_stopped_cache [simp]: "all_stopped (e\<lparr>en_cache := c\<rparr>) = all_stopped e"
  by (simp add: all_stopped_def)

lemma stopped_write:
  "all_stopped e \<Longrightarrow> write_node io now n (en_lanes e ! lane_index e k) = (Inl (Err ''write lane is stopped''), en_lanes e ! lane_index e k)"
  "all_stopped e \<Longrightarrow> write_edge io now d (en_lanes e ! lane_index e k) = (Inl (Err ''write lane is stopped''), en_lanes e ! lane_index e k)"
  by (simp_all add: write_node_def write_edge_def stopped_lane)

lemma set_lane_same [simp]: "set_lane i (en_lanes e ! i) e = e"
  by (simp add: set_lane_def)

lemma stopped_create: "all_stopped e \<Longrightarrow> create_node io now n e = (Inl (Err ''write lane is stopped''), e)"
  by (simp add: create_node_def stopped_write all_stopped_def [THEN iffD1, THEN conjunct1] Let_def)

lemma stopped_update:
  assumes S: "all_stopped e" and run: "update_node io now t i ps e = (r, e')"
  shows "en_lanes e' = en_lanes e \<and> (\<exists>er. r = Inl er)
    \<and> (\<forall>n. fst (engine_get_node i e) = Inr n \<longrightarrow> succeeds (set_properties t ps (clone_node n)) \<longrightarrow> r = Inl (Err ''write lane is stopped''))"
proof -
  obtain q e1 where g: "engine_get_node i e = (q, e1)" by force
  from get_node_only_cache [OF g] obtain c where e1: "e1 = e\<lparr>en_cache := c\<rparr>" by blast
  have up: "en_running e" using S by (simp add: all_stopped_def)
  note w = stopped_write(1) [OF S]
  show ?thesis
    using run up g by (auto simp: update_node_def e1 Let_def w set_lane_def succeeds_def split: sum.splits prod.splits)
qed

lemma stopped_create_edge:
  assumes S: "all_stopped e" and run: "create_edge io now d e = (r, e')"
  shows "en_lanes e' = en_lanes e \<and> (\<exists>er. r = Inl er)
    \<and> (succeeds (fst (engine_get_node (e_FromNodeID d) e))
        \<longrightarrow> succeeds (fst (engine_get_node (e_ToNodeID d) (snd (engine_get_node (e_FromNodeID d) e))))
        \<longrightarrow> r = Inl (Err ''write lane is stopped''))"
proof -
  obtain q e1 where g: "engine_get_node (e_FromNodeID d) e = (q, e1)" by force
  obtain q2 e2 where g2: "engine_get_node (e_ToNodeID d) e1 = (q2, e2)" by force
  from get_node_only_cache [OF g] get_node_only_cache [OF g2] obtain c where e1: "\<exists>c'. e1 = e\<lparr>en_cache := c'\<rparr>" and e2: "e2 = e\<lparr>en_cache := c\<rparr>" by auto
  have up: "en_running e" using S by (simp add: all_stopped_def)
  note w = stopped_write(2) [OF S]
  show ?thesis
    using run up g g2 e1 by (auto simp: create_edge_def e2 Let_def w set_lane_def succeeds_def split: sum.splits prod.splits)
qed

text \<open>
  C29: An engine does not come back.  \<open>Start\<close> after a successful \<open>Stop\<close> may report success (it
  replays the logs over what the tables already hold), but every lane stays stopped.  Every
  request that writes is refused and leaves the lanes as they are: \<open>CreateNode\<close> with "write lane
  is stopped" and nothing changed, \<open>CreateEdge\<close> and \<open>UpdateNode\<close> with an error, which is that one
  whenever the nodes they look up can be read.  The next \<open>Stop\<close> panics, closing the
  compactor's channel a second time (unless a lane's last flush panics first).
\<close>

theorem engine_does_not_restart:
  assumes stop: "engine_stop B J io clock ord drained e = (Inr (), e1)" and start: "engine_start io' e1 = (Inr (), e2)"
    and lanes: "0 < en_numLanes e" "en_numLanes e < 2 ^ 32" "length (en_lanes e) = en_numLanes e"
  shows "create_node io2 now n e2 = (Inl (Err ''write lane is stopped''), e2)
    \<and> (\<forall>r e3. create_edge io2 now d e2 = (r, e3) \<longrightarrow> en_lanes e3 = en_lanes e2 \<and> (\<exists>er. r = Inl er)
        \<and> (succeeds (fst (engine_get_node (e_FromNodeID d) e2))
            \<longrightarrow> succeeds (fst (engine_get_node (e_ToNodeID d) (snd (engine_get_node (e_FromNodeID d) e2))))
            \<longrightarrow> r = Inl (Err ''write lane is stopped'')))
    \<and> (\<forall>r e3. update_node io2 now t i ps e2 = (r, e3) \<longrightarrow> en_lanes e3 = en_lanes e2 \<and> (\<exists>er. r = Inl er)
        \<and> (\<forall>n. fst (engine_get_node i e2) = Inr n \<longrightarrow> succeeds (set_properties t ps (clone_node n))
            \<longrightarrow> r = Inl (Err ''write lane is stopped'')))
    \<and> (\<exists>p. fst (engine_stop B J io3 clock3 ord3 drained3 e2) = Inl (Panic p))"
proof -
  note S = engine_stop_Inr [OF stop]
  note T = engine_start_Inr [OF start S(1,4)]
  have all: "all_stopped e2" using lanes S(2,3) T by (simp add: all_stopped_def)
  have tables: "is_panic er" if "drain_tables B io clock ord k ts st = (Inl er, st')" for io clock ord k ts st st' er
    using that by (induction ts arbitrary: st) (auto split: prod.splits sum.splits if_splits)
  have drain: "is_panic er" if "drain_lanes B io clock ord dr ls st = (Inl er, st')" for io clock ord dr ls st st' er
    using that tables by (induction ls arbitrary: st) (auto split: prod.splits sum.splits if_splits)
  have panic: "is_panic er \<longleftrightarrow> (\<exists>p. er = Panic p)" for er by (cases er) simp_all
  let ?ls = "map (lane_stop io3) (en_lanes e2)"
  obtain r f fs where d: "drain_lanes B io3 clock3 ord3 drained3 ?ls (en_flusher e2, en_fs e2) = (r, f, fs)"
    by (metis prod_cases3)
  have "\<exists>p. fst (engine_stop B J io3 clock3 ord3 drained3 e2) = Inl (Panic p)"
  proof (cases r)
    case (Inl er)
    with drain d have "is_panic er" by blast
    with panic have "\<exists>p. er = Panic p" by blast
    with T(6) d Inl show ?thesis by (auto simp: engine_stop_def Let_def)
  next
    case (Inr u)
    with T(4-6) d show ?thesis by (simp add: engine_stop_def Let_def compactor_stop_def wrapE_def)
  qed
  with stopped_create [OF all] stopped_create_edge [OF all] stopped_update [OF all] show ?thesis by blast
qed

definition started_engine :: engine where
  "started_engine = demo_engine\<lparr>en_flusher := snd (flusher_start (new_flusher None)),
     en_compactor := snd (compactor_start (new_compactor None))\<rparr>"

lemma demo_stop_start:
  "\<exists>e1 e2. engine_stop B (one_json d) io_fine clock ord (\<lambda>_. False) (started_engine\<lparr>en_cache := c\<rparr>) = (Inr (), e1)
     \<and> engine_start io_fine e1 = (Inr (), e2) \<and> en_cache e2 = c \<and> en_running e2"
proof -
  have save: "\<exists>fs'. manifest_save (one_json d) io_fine (m :: manifest) fs = (Inr (), fs')" for m fs
    by (simp add: manifest_save_def one_json_def write_file_def file_write_def io_fine_def rename_file_def Let_def)
  let ?m = "\<lparr>mf_Version = 1, mf_SSTables = [], mf_UpdatedAt = 0, mf_path = []\<rparr>"
  obtain fs' where fs': "manifest_save (one_json d) io_fine ?m Map.empty = (Inr (), fs')" using save by blast
  let ?l = "lane_stop io_fine (new_write_lane 0 1000 (new_wal 0 False 4096 None))"
  let ?e1 = "started_engine\<lparr>en_cache := c, en_lanes := [?l], en_running := False, en_cancelled := True,
    en_compactor := (snd (compactor_start (new_compactor None)))\<lparr>cp_running := False, cp_stopCh := True\<rparr>,
    en_flusher := (snd (flusher_start (new_flusher None)))\<lparr>fl_running := False, fl_cancelled := True\<rparr>, en_fs := fs'\<rparr>"
  have stop: "engine_stop B (one_json d) io_fine clock ord (\<lambda>_. False) (started_engine\<lparr>en_cache := c\<rparr>) = (Inr (), ?e1)"
    using fs' by (simp add: engine_stop_def started_engine_def demo_engine_def Let_def compactor_stop_def
        compactor_start_def new_compactor_def flusher_stop_def flusher_start_def new_flusher_def)
  have "w_file (l_wal ?l) = Some []"
    by (simp add: lane_stop_def new_write_lane_def new_wal_def wal_close_def wal_flush_def bufio_flush_def
        new_bufio_def Let_def wal_fsync_def wal_content_def set_content_def io_fine_def)
  then have "lane_recover io_fine ?l = (Inr (), ?l)"
    by (simp add: lane_recover_def wal_replay_def io_fine_def)
  then have "\<exists>e2. engine_start io_fine ?e1 = (Inr (), e2) \<and> en_cache e2 = c \<and> en_running e2"
    by (simp add: engine_start_def started_engine_def demo_engine_def compactor_start_def new_compactor_def
        flusher_start_def new_flusher_def)
  with stop show ?thesis by blast
qed

lemma demo_cache_reads:
  assumes "en_cache e = snd (mlc_put_node_by_id demo_node (new_mlc_from_size 1000))" and "en_running e"
  shows "fst (engine_get_node [0x61] e) = Inr demo_node"
    "fst (engine_get_node [0x61] (snd (engine_get_node [0x61] e))) = Inr demo_node"
proof -
  have clone: "clone_node demo_node = demo_node" by (rule clone_node_id) (simp add: demo_node_def props_ok_def)
  then show "fst (engine_get_node [0x61] e) = Inr demo_node"
    "fst (engine_get_node [0x61] (snd (engine_get_node [0x61] e))) = Inr demo_node"
    using assms
    by (simp_all add: engine_get_node_def mlc_put_node_by_id_def mlc_get_node_def lru_put_def lru_get_def new_mlc_from_size_def
        new_lru_def percent_def estimate_node_size_def estimate_props_def demo_node_def [THEN arg_cong, of n_ID]
        demo_node_def [THEN arg_cong, of n_Labels] demo_node_def [THEN arg_cong, of n_Properties] Let_def
        evict_for.simps [of 65] lru_entry_def)
qed

theorem engine_does_not_restart_witness:
  "\<exists>c e1 e2 e3 p. engine_stop tiny_bloom (one_json (exported (en_manifest demo_engine))) io_fine (\<lambda>_. 0) (\<lambda>_. []) (\<lambda>_. False)
      (started_engine\<lparr>en_cache := c\<rparr>) = (Inr (), e1)
     \<and> engine_start io_fine e1 = (Inr (), e2)
     \<and> create_node io_fine 0 demo_node e2 = (Inl (Err ''write lane is stopped''), e2)
     \<and> create_edge io_fine 0 (new_edge (time_unix 0) [0x65] [0x61] [0x61] []) e2 = (Inl (Err ''write lane is stopped''), e3)
     \<and> fst (update_node io_fine 0 (time_unix 0) [0x61] [] e2) = Inl (Err ''write lane is stopped'')
     \<and> fst (engine_stop tiny_bloom (one_json (exported (en_manifest demo_engine))) io_fine (\<lambda>_. 0) (\<lambda>_. []) (\<lambda>_. False) e2) = Inl (Panic p)"
proof -
  let ?c = "snd (mlc_put_node_by_id demo_node (new_mlc_from_size 1000))"
  let ?d = "new_edge (time_unix 0) [0x65] [0x61] [0x61] []"
  obtain e1 e2 where e: "engine_stop tiny_bloom (one_json (exported (en_manifest demo_engine))) io_fine (\<lambda>_. 0) (\<lambda>_. [])
      (\<lambda>_. False) (started_engine\<lparr>en_cache := ?c\<rparr>) = (Inr (), e1)" "engine_start io_fine e1 = (Inr (), e2)"
    and e2: "en_cache e2 = ?c" "en_running e2"
    using demo_stop_start by blast
  have lanes: "0 < en_numLanes (started_engine\<lparr>en_cache := ?c\<rparr>)" "en_numLanes (started_engine\<lparr>en_cache := ?c\<rparr>) < 2 ^ 32"
    "length (en_lanes (started_engine\<lparr>en_cache := ?c\<rparr>)) = en_numLanes (started_engine\<lparr>en_cache := ?c\<rparr>)"
    by (simp_all add: started_engine_def demo_engine_def)
  note R = demo_cache_reads [OF e2]
  obtain r e3 where ce: "create_edge io_fine 0 ?d e2 = (r, e3)" by force
  obtain q e4 where un: "update_node io_fine 0 (time_unix 0) [0x61] [] e2 = (q, e4)" by force
  note E = engine_does_not_restart [OF e lanes, of io_fine 0 demo_node ?d "time_unix 0" "[0x61]" "[]" io_fine "\<lambda>_. 0" "\<lambda>_. []" "\<lambda>_. False"]
  from E ce R have "r = Inl (Err ''write lane is stopped'')" by (simp add: new_edge_def succeeds_def)
  moreover from E un R have "q = Inl (Err ''write lane is stopped'')" by (simp add: succeeds_def)
  ultimately show ?thesis using E e ce un by (metis fst_conv)
qed

section \<open>A create over a cached identifier\<close>

text \<open>
  C28: \<open>CreateNode\<close> does not touch the cache.  Creating a node under an identifier that is
  cached succeeds, and the graph has the new node, but \<open>GetNode\<close> still returns the cached old
  one.
\<close>

theorem create_over_cached_is_stale:
  assumes "lanes_ok e" and "en_running e" and "node_ok n"
    and cached: "mlc_get_node (n_ID n) (en_cache e) = (Inr (Some old), c)"
    and run: "create_node io now n e = (Inr (), e')"
  shows "st_nodes (engine_store e') (n_ID n) = Some (wire_node n)
    \<and> fst (engine_get_node (n_ID n) e') = Inr (clone_node old)"
proof -
  obtain l where w: "write_node io now n (home e (n_ID n)) = (Inr (), l)"
    and e': "e' = set_lane (lane_index e (n_ID n)) l e"
    using run assms(2) by (auto simp: create_node_def home_def Let_def split: prod.splits)
  from node_write [OF assms(1,3) w] have "engine_store e' = apply_write (WNode n) (engine_store e)"
    by (simp add: e' succeeded_def)
  moreover have "en_cache e' = en_cache e" "en_running e'" using assms(2) by (simp_all add: e')
  ultimately show ?thesis using cached by (simp add: engine_get_node_def)
qed

definition cached_engine :: engine where
  "cached_engine = demo_engine\<lparr>en_cache := snd (mlc_put_node_by_id demo_node (new_mlc_from_size 1000))\<rparr>"

theorem create_over_cached_is_stale_witness:
  "\<exists>e'. create_node io_fine 0 (demo_node\<lparr>n_Version := 7\<rparr>) cached_engine = (Inr (), e')
     \<and> fst (engine_get_node [0x61] e') = Inr demo_node"
proof -
  let ?n = "demo_node\<lparr>n_Version := 7\<rparr>"
  have ok: "node_ok ?n" "n_ID ?n = [0x61]" using demo_node_facts by (simp_all add: node_ok_def)
  have clone: "clone_node demo_node = demo_node"
    by (rule clone_node_id) (simp add: demo_node_def props_ok_def)
  have L: "lanes_ok cached_engine" "en_running cached_engine"
    using demo_engine_ok by (simp_all add: cached_engine_def engine_ok_def)
  have "\<exists>c. mlc_get_node [0x61] (en_cache cached_engine) = (Inr (Some demo_node), c)"
    by (simp add: cached_engine_def mlc_put_node_by_id_def mlc_get_node_def lru_put_def lru_get_def new_mlc_from_size_def
        new_lru_def percent_def estimate_node_size_def estimate_props_def demo_node_def Let_def
        evict_for.simps [of 65] lru_entry_def)
  then obtain c where c: "mlc_get_node (n_ID ?n) (en_cache cached_engine) = (Inr (Some demo_node), c)"
    unfolding ok(2) by blast
  obtain bs where bs: "serialize_node ?n = Inr bs" "length bs = 37"
    by (simp add: demo_node_def serialize_node_def props_of_def)
  have "\<exists>e'. create_node io_fine 0 ?n cached_engine = (Inr (), e')"
  proof -
    have idx: "lane_index cached_engine k = 0" for k
      by (simp add: lane_index_def cached_engine_def demo_engine_def)
    have "\<exists>l. write_node io_fine 0 ?n (new_write_lane 0 1000 (new_wal 0 False 4096 None)) = (Inr (), l)"
      by (simp add: write_node_def new_write_lane_def bs log_write_def wal_append_def new_wal_def new_bufio_def
        Let_def bufio_write.simps length_serialize_entry or_return_def ok(2) on_active_def
        on_error_def put_node_def mt_put_def mt_new_def slice_len_def node_key_def lit_def
        check_node_rotation_def io_fine_def wal_room_def)
    then show ?thesis using L(2)
      by (auto simp: create_node_def idx Let_def) (simp add: cached_engine_def demo_engine_def)
  qed
  then obtain e' where e': "create_node io_fine 0 ?n cached_engine = (Inr (), e')" by blast
  from create_over_cached_is_stale [OF L ok(1) c e'] e' show ?thesis by (simp add: ok(2) clone)
qed

section \<open>A flush takes nodes out of reach\<close>

lemma get_node_data:
  assumes "get_node mt i = Inr n"
  obtains bs where "mt_data mt (node_key i) = Some (SvBytes (Some bs))" "deserialize_node bs = Inr n" "bs \<noteq> []"
proof -
  from assms obtain bs where bs: "mt_data mt (node_key i) = Some (SvBytes (Some bs))" "deserialize_node bs = Inr n"
    by (auto simp: get_node_def mt_get_def split: prod.splits option.splits stored.splits bool.splits)
  moreover have "\<not> succeeds (deserialize_node [])"
    by (simp add: deserialize_node_def read_string_def read_full_def succeeds_def bindE_def wrapE_def)
  ultimately show thesis using that [OF bs] by (cases "bs = []") (simp_all add: succeeds_def)
qed

lemma cold_lookup:
  assumes "mlc_inv c" and "lru_view (mc_hot c) i = None"
  obtains c' where "mlc_get_node i c = (Inr None, c')"
proof -
  obtain o' h where g: "lru_get i (mc_hot c) = (o', h)" by force
  have "o' = None" using lru_cache.get_view [of "mc_hot c" i] g assms by (simp add: mlc_inv_def)
  with g show thesis using that by (simp add: mlc_get_node_def)
qed

text \<open>
  C14: Flushed nodes vanish.  Take a node that is only in a frozen table of its lane and not in
  the cache: it can be read.  When the lane's flusher then handles the signal, and the flush
  succeeds, the node can no longer be read although its record is in the new table file: no
  read path ever opens one.
\<close>

theorem flushed_node_vanishes:
  assumes E: "engine_ok e" "en_running e" and l: "l_flushCh (home e i)" "l_old (home e i) = [(k, mt)]" "mt_is_frozen mt"
    and only: "get_node mt i = Inr n" "get_node (l_active (home e i)) i = Inl er" "lru_view (mc_hot (en_cache e)) i = None"
    and B: "bloom_ok B" and enc: "\<And>b. succeeds (bl_encode B b)" and io: "no_faults io" and run: "fl_running (en_flusher e)"
    and ord: "range_order mt (ord mt)" "sorted_wrt (<) (ord mt)" and fits: "fits_format (flush_kvs (ord mt) mt)"
  shows "fst (engine_get_node i e) = Inr n
    \<and> (\<exists>e' d. on_flush_signal B io clock ord (lane_index e i) e = (Inr (), e')
      \<and> fst (engine_get_node i e') = Inl (Err ''node not found'')
      \<and> en_fs e' (flush_path (en_flusher e) (int (l_id (home e i))) (clock k)) = Some d
      \<and> (length d < 2 ^ 64 \<longrightarrow> (\<exists>rd bs. open_reader B io (Some d) = Inr rd
           \<and> sst_get B rd (node_key i) = Inr bs \<and> deserialize_node bs = Inr n)))"
proof -
  let ?j = "lane_index e i" and ?l = "home e i"
  from E have L: "lanes_ok e" and inv: "mlc_inv (en_cache e)" by (simp_all add: engine_ok_def cache_ok_def tiers_hold_def)
  have j: "?j < length (en_lanes e)" using home_index [OF L, of i] L by (simp add: lanes_ok_def)
  have here: "en_lanes e ! ?j = ?l" by (simp add: home_def)
  have "st_nodes (engine_store e) i = Some n" using l(2) only(1,2) by (simp add: engine_store_sel node_view_def)
  with get_node_reads [OF E, of i] have before: "fst (engine_get_node i e) = Inr n"
    by (auto simp: found_def elim: readsE)
  obtain bs where bs: "mt_data mt (node_key i) = Some (SvBytes (Some bs))" "deserialize_node bs = Inr n" "bs \<noteq> []"
    by (rule get_node_data [OF only(1)])
  then have "ord mt \<noteq> []" using ord(1) by (auto simp: range_order_def)
  have enc': "\<And>b. \<exists>d. bl_encode B b = Inr d"
    using enc by (metis succeeds_def sum.case_eq_if sum.collapse(2))
  obtain f' d where fl: "flush_memtable B io (clock k) (ord mt) mt (int (l_id ?l)) (en_flusher e) (en_fs e)
      = (Inr (), f', (en_fs e)(flush_path (en_flusher e) (int (l_id ?l)) (clock k) \<mapsto> d))"
    and rd: "length d < 2 ^ 64 \<longrightarrow> (\<exists>r. open_reader B io (Some d) = Inr r
      \<and> (\<forall>key. case map_of (flush_kvs (ord mt) mt) key of
           Some v \<Rightarrow> sst_get B r key = (if v = [] then Inl (Err ''key deleted'') else Inr v)
         | None \<Rightarrow> \<not> succeeds (sst_get B r key)))"
    and "fl_totalEntries f' = fl_totalEntries (en_flusher e) + word_of_nat (length (ord mt))"
    by (rule flush_sorted [OF B enc' io run ord(1) \<open>ord mt \<noteq> []\<close> fits ord(2)])
  let ?l' = "?l\<lparr>l_flushCh := False, l_old := []\<rparr>"
  let ?e' = "e\<lparr>en_lanes := (en_lanes e)[?j := ?l'], en_flusher := f',
    en_fs := (en_fs e)(flush_path (en_flusher e) (int (l_id ?l)) (clock k) \<mapsto> d)\<rparr>"
  have "on_flush_signal B io clock ord ?j e = (Inr (), ?e')"
    using l fl by (simp add: on_flush_signal_def here get_old_memtables_def remove_old_memtable_def Let_def)
  moreover have "fst (engine_get_node i ?e') = Inl (Err ''node not found'')"
  proof -
    have idx: "lane_index ?e' = lane_index e" by (rule lane_index_cong) simp
    have gone: "\<exists>er. read_node l1 i = Inl er" if l1: "l1 \<in> set (probe_order ?e' i)" for l1
    proof -
      from l1 j consider "l1 = ?l'" | m where "m < length (en_lanes e)" "m \<noteq> ?j" "l1 = en_lanes e ! m"
        by (auto simp: probe_order_def idx Let_def)
      then show ?thesis
      proof cases
        case 1
        with only(2) show ?thesis by (simp add: read_node_def)
      next
        case 2
        with homedD(1) [OF L, of m i] L have "node_view l1 i = None"
          by (cases "node_view l1 i") (auto simp: lanes_ok_def)
        then show ?thesis by (simp add: read_node_view)
      qed
    qed
    obtain c' where c': "mlc_get_node i (en_cache e) = (Inr None, c')"
      by (rule cold_lookup [OF inv only(3)])
    have "first_found (\<lambda>l. read_node l i) (probe_order ?e' i) = None"
      by (rule first_found_none) (rule gone)
    with E(2) c' show ?thesis by (simp add: engine_get_node_def)
  qed
  moreover have "\<exists>rd bs. open_reader B io (Some d) = Inr rd \<and> sst_get B rd (node_key i) = Inr bs \<and> deserialize_node bs = Inr n"
    if len: "length d < 2 ^ 64"
  proof -
    from rd len obtain r where r: "open_reader B io (Some d) = Inr r"
      "\<forall>key. case map_of (flush_kvs (ord mt) mt) key of
           Some v \<Rightarrow> sst_get B r key = (if v = [] then Inl (Err ''key deleted'') else Inr v)
         | None \<Rightarrow> \<not> succeeds (sst_get B r key)" by blast
    have "sst_get B r (node_key i) = Inr bs"
      using spec [OF r(2), of "node_key i"] bs(1,3) by (simp add: map_of_flush_kvs [OF ord(1)])
    with r(1) bs(2) show ?thesis by blast
  qed
  ultimately show ?thesis using before by (intro conjI exI [of _ ?e'] exI [of _ d]) simp_all
qed

lemma demo_write_tables:
  assumes bs: "serialize_node demo_node = Inr bs" "length bs = 37"
  shows "\<exists>l. write_node io_fine 0 demo_node (new_write_lane 0 1000 (new_wal 0 False 4096 None)) = (Inr (), l)
     \<and> mt_data (l_active l) = [node_key [0x61] \<mapsto> SvBytes (Some bs)] \<and> l_old l = [] \<and> l_memtableSize l = 1000"
  by (simp add: write_node_def new_write_lane_def bs log_write_def wal_append_def new_wal_def new_bufio_def
      Let_def bufio_write.simps length_serialize_entry or_return_def demo_node_facts on_active_def
      on_error_def put_node_def mt_put_def mt_new_def slice_len_def node_key_def lit_def
      check_node_rotation_def io_fine_def wal_room_def)

theorem flushed_node_vanishes_witness:
  "\<exists>e e'. fst (engine_get_node [0x61] e) = Inr (wire_node demo_node)
     \<and> on_flush_signal tiny_bloom io_fine (\<lambda>_. 0) (\<lambda>_. [node_key [0x61]]) 0 e = (Inr (), e')
     \<and> fst (engine_get_node [0x61] e') = Inl (Err ''node not found'')"
proof -
  from demo_node_facts(3) obtain bs where ser: "serialize_node demo_node = Inr bs" "length bs = 37" by blast
  obtain l where w: "write_node io_fine 0 demo_node (new_write_lane 0 1000 (new_wal 0 False 4096 None)) = (Inr (), l)"
    and l: "mt_data (l_active l) = [node_key [0x61] \<mapsto> SvBytes (Some bs)]" "l_old l = []" "l_memtableSize l = 1000"
    using demo_write_tables [OF ser] by blast
  note bs = ser(2) l deserialize_serialize_node [OF ser(1) demo_node_facts(1)]
  have S0: "engine_ok started_engine" "lanes_ok started_engine" "en_numLanes started_engine = 1"
    "en_lanes started_engine = [new_write_lane 0 1000 (new_wal 0 False 4096 None)]"
    using fresh_engine [of started_engine 1000] fresh_lane
    by (simp_all add: started_engine_def demo_engine_def engine_ok_def)
  have idx: "lane_index started_engine k = 0" for k by (simp add: lane_index_def S0)
  let ?r = "rotate_memtable l"
  let ?e = "set_lane 0 ?r started_engine"
  have R: "same_store l ?r" by (rule rotate_same_store)
  note W = write_node_ok [OF w demo_node_facts(1)]
  have wn: "node_ok (wire_node demo_node)" "n_Properties (wire_node demo_node) \<noteq> None" "n_ID (wire_node demo_node) = [0x61]"
    using wire_node_ok [OF demo_node_facts(1)] demo_node_facts(2) by (simp_all add: wire_node_def wire_props_def)
  have L: "lanes_ok ?e"
    by (rule set_lane_ok [OF S0(2), of 0 _ "wire_node demo_node"])
      (use R W wn fresh_lane in \<open>simp_all add: same_store_def S0 idx demo_node_facts\<close>)
  have cache: "en_cache started_engine = new_mlc_from_size 1000" by (simp add: started_engine_def demo_engine_def)
  have E: "engine_ok ?e" using L by (simp add: engine_ok_def cache_ok_def cache tiers_hold_new)
  have home: "home ?e [0x61] = ?r" "lane_index ?e [0x61] = 0" by (simp_all add: home_def idx S0)
  have old: "l_old ?r = [(l_tables l, mt_freeze (l_active l))]" "l_flushCh ?r" "l_active ?r = mt_new 1000"
    using bs by (simp_all add: rotate_memtable_def)
  have data: "mt_data (mt_freeze (l_active l)) = [node_key [0x61] \<mapsto> SvBytes (Some bs)]" using bs(2) by (simp add: mt_freeze_def)
  have run: "en_running ?e" "fl_running (en_flusher ?e)"
    by (simp_all add: set_lane_def started_engine_def demo_engine_def flusher_start_def new_flusher_def)
  have "get_node (mt_freeze (l_active l)) [0x61] = Inr (wire_node demo_node)"
    using data bs(5) by (simp add: get_node_def mt_get_def)
  moreover have "\<exists>er. get_node (l_active ?r) [0x61] = Inl er"
    by (simp add: old get_node_def mt_get_def mt_new_def)
  then obtain er where "get_node (l_active ?r) [0x61] = Inl er" by blast
  moreover have "lru_view (mc_hot (en_cache ?e)) [0x61] = None" by (simp add: cache new_mlc_from_size_def)
  moreover have "range_order (mt_freeze (l_active l)) [node_key [0x61]]" by (simp add: range_order_def data)
  moreover have "fits_format (flush_kvs [node_key [0x61]] (mt_freeze (l_active l)))"
    using bs(1) by (simp add: fits_format_def flush_kvs_def mt_entries_def data kv_ok_def node_key_def lit_def)
  moreover have "mt_is_frozen (mt_freeze (l_active l))" by (simp add: mt_is_frozen_def mt_freeze_def)
  moreover have "no_faults io_fine" by (simp add: no_faults_def io_fine_def)
  ultimately have "fst (engine_get_node [0x61] ?e) = Inr (wire_node demo_node)
    \<and> (\<exists>e'. on_flush_signal tiny_bloom io_fine (\<lambda>_. 0) (\<lambda>_. [node_key [0x61]]) 0 ?e = (Inr (), e')
         \<and> fst (engine_get_node [0x61] e') = Inl (Err ''node not found''))"
    using flushed_node_vanishes [OF E run(1), of "[0x61]" "l_tables l" "mt_freeze (l_active l)" "wire_node demo_node" er
        tiny_bloom io_fine "\<lambda>_. [node_key [0x61]]" "\<lambda>_. 0"] tiny_bloom_ok tiny_enc run(2)
    unfolding home old(1) by (auto simp: old(2))
  then show ?thesis by blast
qed

end
