(* ===== verification/Engine_Flush.thy ===== *)
theory Engine_Flush
  imports Engine_Life
begin

text \<open>
  The lane flusher (\<open>Engine.runLaneFlusher\<close>): the loop around its \<open>select\<close>, what one signal does to
  the lane, and what it does to reads.
\<close>

section \<open>The worker\<close>

text \<open>
  The events the \<open>select\<close> delivers, each with the file system's behaviour, the clock and the
  iteration order of its handler.  An error of a flush is only printed; a panic ends the
  process.
\<close>

datatype flush_event =
    FlushSignal wal_io "nat \<Rightarrow> u64" "memtable \<Rightarrow> bytes list"
  | StopSignal wal_io "nat \<Rightarrow> u64" "memtable \<Rightarrow> bytes list"
  | ContextDone

fun run_lane_flusher :: "'b bloom \<Rightarrow> flush_event list \<Rightarrow> nat \<Rightarrow> engine \<Rightarrow> unit res \<times> engine" where
  "run_lane_flusher B [] i e = (Inr (), e)"
| "run_lane_flusher B (FlushSignal io clock ord # evs) i e =
     (case on_flush_signal B io clock ord i e of
        (Inl er, e) \<Rightarrow> (Inl er, e)
      | (Inr _, e) \<Rightarrow> run_lane_flusher B evs i e)"
| "run_lane_flusher B (StopSignal io clock ord # evs) i e =
     (let l = en_lanes e ! i
      in case drain_tables B io clock ord (int (l_id l)) (get_old_memtables l) (en_flusher e, en_fs e) of
        (r, f, fs) \<Rightarrow> (r, e\<lparr>en_flusher := f, en_fs := fs\<rparr>))"
| "run_lane_flusher B (ContextDone # evs) i e = (Inr (), e)"

text \<open>What the worker may change: the pending flag and the old tables of its lane, the flusher's counters and the files.\<close>

definition lane_shrunk :: "lane \<Rightarrow> lane \<Rightarrow> bool" where
  "lane_shrunk l l' \<longleftrightarrow> (\<exists>b ts. l' = l\<lparr>l_flushCh := b, l_old := ts\<rparr> \<and> subseq ts (l_old l))"

lemma lane_shrunk_refl [simp]: "lane_shrunk l l"
  unfolding lane_shrunk_def by (intro exI [of _ "l_flushCh l"] exI [of _ "l_old l"]) simp

lemma lane_shrunk_trans:
  assumes "lane_shrunk l l1" and "lane_shrunk l1 l2"
  shows "lane_shrunk l l2"
proof -
  from assms(1) obtain b ts where l1: "l1 = l\<lparr>l_flushCh := b, l_old := ts\<rparr>" "subseq ts (l_old l)"
    by (auto simp: lane_shrunk_def)
  from assms(2) obtain b2 ts2 where l2: "l2 = l1\<lparr>l_flushCh := b2, l_old := ts2\<rparr>" "subseq ts2 (l_old l1)"
    by (auto simp: lane_shrunk_def)
  from l1 l2 have "l2 = l\<lparr>l_flushCh := b2, l_old := ts2\<rparr>" "subseq ts2 (l_old l)"
    by (auto intro: subseq_order.order_trans)
  then show ?thesis unfolding lane_shrunk_def by blast
qed

lemma subseq_remove_table: "subseq (remove_table i ts) ts"
  by (induction ts rule: remove_table.induct) auto

lemma remove_old_shrunk: "lane_shrunk l (remove_old_memtable i l)"
  unfolding lane_shrunk_def remove_old_memtable_def
  by (intro exI [of _ "l_flushCh l"] exI [of _ "remove_table i (l_old l)"]) (simp add: subseq_remove_table)

lemma flush_old_tables_shrunk:
  "flush_old_tables B io clock ord ts (l, f, fs) = (r, l', f', fs') \<Longrightarrow> lane_shrunk l l'"
proof (induction ts arbitrary: l f fs)
  case (Cons t ts)
  obtain k mt where t: "t = (k, mt)" by force
  obtain r1 f1 fs1 where fl: "flush_memtable B io (clock k) (ord mt) mt (int (l_id l)) f fs = (r1, f1, fs1)"
    by (metis prod.exhaust)
  from Cons.prems Cons.IH [of "remove_old_memtable k l" f1 fs1] Cons.IH [of l f1 fs1] Cons.IH [of l f fs] show ?case
    by (cases r1) (auto simp: t fl intro: lane_shrunk_trans [OF remove_old_shrunk] split: if_splits)
qed simp

definition flush_frame :: "nat \<Rightarrow> engine \<Rightarrow> engine \<Rightarrow> bool" where
  "flush_frame i e e' \<longleftrightarrow> (\<exists>l f fs. e' = e\<lparr>en_lanes := (en_lanes e)[i := l], en_flusher := f, en_fs := fs\<rparr>
     \<and> lane_shrunk (en_lanes e ! i) l)"

lemma flush_frame_refl [simp]: "flush_frame i e e"
  unfolding flush_frame_def
  by (intro exI [of _ "en_lanes e ! i"] exI [of _ "en_flusher e"] exI [of _ "en_fs e"]) simp

lemma flush_frame_trans:
  assumes "flush_frame i e e1" and "flush_frame i e1 e2"
  shows "flush_frame i e e2"
proof -
  from assms(1) obtain l f fs where e1: "e1 = e\<lparr>en_lanes := (en_lanes e)[i := l], en_flusher := f, en_fs := fs\<rparr>"
    "lane_shrunk (en_lanes e ! i) l" by (auto simp: flush_frame_def)
  from assms(2) obtain l2 f2 fs2 where e2: "e2 = e1\<lparr>en_lanes := (en_lanes e1)[i := l2], en_flusher := f2, en_fs := fs2\<rparr>"
    "lane_shrunk (en_lanes e1 ! i) l2" by (auto simp: flush_frame_def)
  show ?thesis
  proof (cases "i < length (en_lanes e)")
    case True
    with e1 e2 have "lane_shrunk (en_lanes e ! i) l2" by (auto intro: lane_shrunk_trans)
    with e1 e2 show ?thesis unfolding flush_frame_def by (intro exI [of _ l2] exI [of _ f2] exI [of _ fs2]) simp
  next
    case False
    with e1 e2 show ?thesis unfolding flush_frame_def
      by (intro exI [of _ "en_lanes e ! i"] exI [of _ f2] exI [of _ fs2]) (simp add: list_update_beyond)
  qed
qed

lemma on_flush_signal_frame: "on_flush_signal B io clock ord i e = (r, e') \<Longrightarrow> flush_frame i e e'"
proof -
  assume run: "on_flush_signal B io clock ord i e = (r, e')"
  let ?l = "en_lanes e ! i"
  show ?thesis
  proof (cases "l_flushCh ?l")
    case True
    obtain r1 l' f' fs' where fl: "flush_old_tables B io clock ord (get_old_memtables ?l)
        (?l\<lparr>l_flushCh := False\<rparr>, en_flusher e, en_fs e) = (r1, l', f', fs')" by (metis prod.exhaust)
    have "lane_shrunk ?l (?l\<lparr>l_flushCh := False\<rparr>)"
      unfolding lane_shrunk_def by (intro exI [of _ False] exI [of _ "l_old ?l"]) simp
    from lane_shrunk_trans [OF this flush_old_tables_shrunk [OF fl]] True run fl show ?thesis
      by (auto simp: on_flush_signal_def flush_frame_def)
  qed (use run in \<open>simp add: on_flush_signal_def\<close>)
qed

lemma run_lane_flusher_frame: "run_lane_flusher B evs i e = (r, e') \<Longrightarrow> flush_frame i e e'"
proof (induction B evs i e rule: run_lane_flusher.induct)
  case (2 B io clock ord evs i e)
  obtain r1 e1 where s: "on_flush_signal B io clock ord i e = (r1, e1)" by force
  with 2 on_flush_signal_frame [OF s] show ?case by (cases r1) (auto intro: flush_frame_trans)
next
  case (3 B io clock ord evs i e)
  then obtain f fs where e': "e' = e\<lparr>en_flusher := f, en_fs := fs\<rparr>" by (auto simp: Let_def split: prod.splits)
  show ?case unfolding flush_frame_def e'
    by (intro exI [of _ "en_lanes e ! i"] exI [of _ f] exI [of _ fs]) simp
qed simp_all

text \<open>
  C17: What the flush worker can reach.  Whatever events it receives and whatever fails, it
  changes nothing of the engine but its own lane, the flusher's counters and the files; of the
  lane only the pending flag and the list of old node tables, which it can only thin out.  The
  edge and adjacency tables stay, and neither the manifest nor the compactor hears of the new
  files.
\<close>

theorem flush_worker_frame:
  assumes "run_lane_flusher B evs i e = (r, e')"
  shows "flush_frame i e e' \<and> en_manifest e' = en_manifest e \<and> en_compactor e' = en_compactor e
    \<and> en_cache e' = en_cache e \<and> (\<forall>j. j \<noteq> i \<longrightarrow> en_lanes e' ! j = en_lanes e ! j)"
proof -
  from run_lane_flusher_frame [OF assms] have "flush_frame i e e'" .
  then show ?thesis by (auto simp: flush_frame_def)
qed

section \<open>One signal\<close>

text \<open>
  A table the worker can write out, and when it does: the iteration visits the keys in
  ascending order.
\<close>

definition flushable :: "(memtable \<Rightarrow> bytes list) \<Rightarrow> memtable \<Rightarrow> bool" where
  "flushable ord mt \<longleftrightarrow> range_order mt (ord mt) \<and> [] \<notin> set (ord mt) \<and> fits_format (flush_kvs (ord mt) mt)"

definition flushed :: "(memtable \<Rightarrow> bytes list) \<Rightarrow> nat \<times> memtable \<Rightarrow> bool" where
  "flushed ord t \<longleftrightarrow> mt_is_frozen (snd t) \<and> sorted_wrt (<) (ord (snd t))"

definition table_file :: "'b bloom \<Rightarrow> wal_io \<Rightarrow> bytes \<Rightarrow> kv list \<Rightarrow> bool" where
  "table_file B io d kvs \<longleftrightarrow> (length d < 2 ^ 64 \<longrightarrow> (\<exists>r. open_reader B io (Some d) = Inr r
     \<and> (\<forall>key. case map_of kvs key of
          Some v \<Rightarrow> sst_get B r key = (if v = [] then Inl (Err ''key deleted'') else Inr v)
        | None \<Rightarrow> \<not> succeeds (sst_get B r key))))"

lemma flush_one:
  assumes B: "bloom_ok B" and enc: "\<And>b. succeeds (bl_encode B b)" and io: "no_faults io" and run: "fl_running f"
    and ok: "flushable ord mt" and fl: "flush_memtable B io now (ord mt) mt laneID f fs = (r, f', fs')"
  shows "(if sorted_wrt (<) (ord mt) then r = Inr () else \<exists>e. r = Inl e \<and> \<not> is_panic e)"
    "fl_running f'" "fl_dataDir f' = fl_dataDir f" "\<forall>p. p \<noteq> flush_path f laneID now \<longrightarrow> fs' p = fs p"
    "sorted_wrt (<) (ord mt) \<Longrightarrow> ord mt \<noteq> [] \<Longrightarrow>
      \<exists>d. fs' (flush_path f laneID now) = Some d \<and> table_file B io d (flush_kvs (ord mt) mt)"
proof -
  have enc': "\<And>b. \<exists>d. bl_encode B b = Inr d"
    using enc by (metis succeeds_def sum.case_eq_if sum.collapse(2))
  from ok have ord: "range_order mt (ord mt)" "[] \<notin> set (ord mt)" "fits_format (flush_kvs (ord mt) mt)"
    by (simp_all add: flushable_def)
  have frame: "fl_running f' = fl_running f \<and> fl_dataDir f' = fl_dataDir f \<and> (\<forall>p. p \<noteq> flush_path f laneID now \<longrightarrow> fs' p = fs p)"
    using fl by (auto simp: flush_memtable_def Let_def count_failed_def split: if_splits sum.splits prod.splits)
  then show "fl_running f'" "fl_dataDir f' = fl_dataDir f" "\<forall>p. p \<noteq> flush_path f laneID now \<longrightarrow> fs' p = fs p"
    using run by simp_all
  show "(if sorted_wrt (<) (ord mt) then r = Inr () else \<exists>e. r = Inl e \<and> \<not> is_panic e)"
  proof (cases "sorted_wrt (<) (ord mt)")
    case True
    show ?thesis
    proof (cases "ord mt = []")
      case nil: True
      with fl run show ?thesis by (simp add: flush_memtable_def mt_entries_def)
    next
      case False
      obtain f1 d where "flush_memtable B io now (ord mt) mt laneID f fs = (Inr (), f1, fs(flush_path f laneID now \<mapsto> d))"
        by (rule flush_sorted [OF B enc' io run ord(1) False ord(3) True])
      with fl True show ?thesis by simp
    qed
  next
    case False
    obtain e fs1 where "flush_memtable B io now (ord mt) mt laneID f fs = (Inl e, count_failed f, fs1)" "\<not> is_panic e"
      by (rule flush_unsorted [OF io run ord(1,2,3) False])
    with fl False show ?thesis by auto
  qed
  assume s: "sorted_wrt (<) (ord mt)" "ord mt \<noteq> []"
  obtain f1 d where "flush_memtable B io now (ord mt) mt laneID f fs = (Inr (), f1, fs(flush_path f laneID now \<mapsto> d))"
    "length d < 2 ^ 64 \<longrightarrow> (\<exists>r. open_reader B io (Some d) = Inr r
      \<and> (\<forall>key. case map_of (flush_kvs (ord mt) mt) key of
           Some v \<Rightarrow> sst_get B r key = (if v = [] then Inl (Err ''key deleted'') else Inr v)
         | None \<Rightarrow> \<not> succeeds (sst_get B r key)))"
    by (rule flush_sorted [OF B enc' io run ord(1) s(2) ord(3) s(1)])
  with fl show "\<exists>d. fs' (flush_path f laneID now) = Some d \<and> table_file B io d (flush_kvs (ord mt) mt)"
    unfolding table_file_def by (intro exI [of _ d]) auto
qed

lemma remove_table_filter: "distinct (map fst ts) \<Longrightarrow> remove_table k ts = filter (\<lambda>t. fst t \<noteq> k) ts"
proof (induction k ts rule: remove_table.induct)
  case (2 i j m ts)
  then show ?case by (force intro!: filter_True [symmetric])
qed simp

lemma flush_old_tables_exact:
  assumes B: "bloom_ok B" and enc: "\<And>b. succeeds (bl_encode B b)" and io: "no_faults io" and run: "fl_running f"
    and ok: "\<forall>t\<in>set ts. mt_is_frozen (snd t) \<longrightarrow> flushable ord (snd t)"
    and dist: "distinct (map fst (l_old l))" and ids: "distinct (map fst ts)"
    and paths: "inj_on (\<lambda>k. flush_path f (int (l_id l)) (clock k)) (fst ` set ts)"
  shows "\<exists>f' fs'. flush_old_tables B io clock ord ts (l, f, fs) =
      (Inr (), l\<lparr>l_old := filter (\<lambda>t. fst t \<notin> fst ` set (filter (flushed ord) ts)) (l_old l)\<rparr>, f', fs')
    \<and> (\<forall>p. p \<notin> (\<lambda>k. flush_path f (int (l_id l)) (clock k)) ` fst ` set ts \<longrightarrow> fs' p = fs p)
    \<and> (\<forall>(k, mt)\<in>set ts. flushed ord (k, mt) \<and> ord mt \<noteq> [] \<longrightarrow>
        (\<exists>d. fs' (flush_path f (int (l_id l)) (clock k)) = Some d \<and> table_file B io d (flush_kvs (ord mt) mt)))"
  using run ok dist ids paths
proof (induction ts arbitrary: l f fs)
  case (Cons t ts)
  obtain k mt where t: "t = (k, mt)" by force
  let ?path = "\<lambda>k. flush_path f (int (l_id l)) (clock k)"
  obtain r f1 fs1 where fl: "flush_memtable B io (clock k) (ord mt) mt (int (l_id l)) f fs = (r, f1, fs1)"
    by (metis prod.exhaust)
  show ?case
  proof (cases "mt_is_frozen mt")
    case False
    from Cons.IH [of f l fs] Cons.prems obtain f' fs' where IH: "flush_old_tables B io clock ord ts (l, f, fs) =
      (Inr (), l\<lparr>l_old := filter (\<lambda>t. fst t \<notin> fst ` set (filter (flushed ord) ts)) (l_old l)\<rparr>, f', fs')"
      "\<forall>p. p \<notin> ?path ` fst ` set ts \<longrightarrow> fs' p = fs p"
      "\<forall>(k, mt)\<in>set ts. flushed ord (k, mt) \<and> ord mt \<noteq> [] \<longrightarrow>
        (\<exists>d. fs' (?path k) = Some d \<and> table_file B io d (flush_kvs (ord mt) mt))" by auto
    with False show ?thesis by (simp add: t flushed_def)
  next
    case True
    with Cons.prems(2) have "flushable ord mt" by (simp add: t)
    note F = flush_one [OF B enc io Cons.prems(1) this fl]
    have path: "flush_path f1 lane n = flush_path f lane n" for lane n using F(3) by (simp add: flush_path_def)
    let ?l = "if sorted_wrt (<) (ord mt) then remove_old_memtable k l else l"
    have l: "?l = l\<lparr>l_old := if sorted_wrt (<) (ord mt) then filter (\<lambda>t. fst t \<noteq> k) (l_old l) else l_old l\<rparr>"
      using remove_table_filter [OF Cons.prems(3), of k] by (simp add: remove_old_memtable_def)
    have dist': "distinct (map fst (l_old ?l))" using Cons.prems(3) by (simp add: l List.distinct_map_filter)
    have id: "l_id ?l = l_id l" by (simp add: l)
    have new: "?path k \<notin> ?path ` fst ` set ts"
      using Cons.prems(4,5) by (auto simp: t inj_on_def)
    from Cons.IH [OF F(2) _ dist', of fs1] Cons.prems(2,4,5) obtain f' fs' where
      IH: "flush_old_tables B io clock ord ts (?l, f1, fs1) =
        (Inr (), ?l\<lparr>l_old := filter (\<lambda>t. fst t \<notin> fst ` set (filter (flushed ord) ts)) (l_old ?l)\<rparr>, f', fs')"
        "\<forall>p. p \<notin> ?path ` fst ` set ts \<longrightarrow> fs' p = fs1 p"
        "\<forall>(k, mt)\<in>set ts. flushed ord (k, mt) \<and> ord mt \<noteq> [] \<longrightarrow>
          (\<exists>d. fs' (?path k) = Some d \<and> table_file B io d (flush_kvs (ord mt) mt))"
      by (auto simp: t path id)
    have step: "flush_old_tables B io clock ord (t # ts) (l, f, fs) = flush_old_tables B io clock ord ts (?l, f1, fs1)"
      using F(1) True by (auto simp: t fl split: if_splits)
    have old: "?l\<lparr>l_old := filter (\<lambda>t. fst t \<notin> fst ` set (filter (flushed ord) ts)) (l_old ?l)\<rparr>
        = l\<lparr>l_old := filter (\<lambda>t. fst t \<notin> fst ` set (filter (flushed ord) ((k, mt) # ts))) (l_old l)\<rparr>"
      using True by (auto simp: l flushed_def intro!: arg_cong [where f = "\<lambda>ts. l\<lparr>l_old := ts\<rparr>"] filter_cong)
    have "\<exists>d. fs' (?path k) = Some d \<and> table_file B io d (flush_kvs (ord mt) mt)"
      if "sorted_wrt (<) (ord mt)" "ord mt \<noteq> []" using F(5) [OF that] IH(2) new by simp
    moreover have "fs' p = fs p" if "p \<notin> ?path ` fst ` set ((k, mt) # ts)" for p
      using IH(2) F(4) that by simp
    ultimately show ?thesis
      unfolding step [unfolded t] IH(1) old t using IH(3) by (auto simp: flushed_def)
  qed
qed simp

lemma distinct_ids_filter:
  assumes "distinct (map fst ts)"
  shows "filter (\<lambda>t. fst t \<notin> fst ` set (filter P ts)) ts = filter (\<lambda>t. \<not> P t) ts"
proof (rule filter_cong [OF refl])
  fix t assume "t \<in> set ts"
  then have "t' = t" if "t' \<in> set ts" "fst t' = fst t" for t'
    using assms that by (auto simp: distinct_map inj_on_def)
  with \<open>t \<in> set ts\<close> show "(fst t \<notin> fst ` set (filter P ts)) = (\<not> P t)" by force
qed

lemma signal_exact:
  assumes "bloom_ok B" and "\<And>b. succeeds (bl_encode B b)" and "no_faults io" and "fl_running (en_flusher e)"
    and l: "en_lanes e ! j = l" "l_flushCh l"
    and "\<forall>t\<in>set (l_old l). mt_is_frozen (snd t) \<longrightarrow> flushable ord (snd t)" and "distinct (map fst (l_old l))"
    and "inj_on (\<lambda>k. flush_path (en_flusher e) (int (l_id l)) (clock k)) (fst ` set (l_old l))"
  obtains f' fs' where "on_flush_signal B io clock ord j e =
      (Inr (), e\<lparr>en_lanes := (en_lanes e)[j := l\<lparr>l_flushCh := False, l_old := filter (\<lambda>t. \<not> flushed ord t) (l_old l)\<rparr>],
        en_flusher := f', en_fs := fs'\<rparr>)"
    "\<forall>p. p \<notin> (\<lambda>k. flush_path (en_flusher e) (int (l_id l)) (clock k)) ` fst ` set (l_old l) \<longrightarrow> fs' p = en_fs e p"
    "\<forall>(k, mt)\<in>set (l_old l). flushed ord (k, mt) \<and> ord mt \<noteq> [] \<longrightarrow>
      (\<exists>d. fs' (flush_path (en_flusher e) (int (l_id l)) (clock k)) = Some d \<and> table_file B io d (flush_kvs (ord mt) mt))"
proof -
  let ?l = "l\<lparr>l_flushCh := False\<rparr>"
  have same: "l_old ?l = l_old l" "l_id ?l = l_id l" by simp_all
  from flush_old_tables_exact [OF assms(1-4,7), of ?l clock "en_fs e"] assms(8,9) obtain f' fs' where
    fl: "flush_old_tables B io clock ord (l_old l) (?l, en_flusher e, en_fs e) =
      (Inr (), ?l\<lparr>l_old := filter (\<lambda>t. fst t \<notin> fst ` set (filter (flushed ord) (l_old l))) (l_old l)\<rparr>, f', fs')"
    and rest: "\<forall>p. p \<notin> (\<lambda>k. flush_path (en_flusher e) (int (l_id l)) (clock k)) ` fst ` set (l_old l) \<longrightarrow> fs' p = en_fs e p"
    "\<forall>(k, mt)\<in>set (l_old l). flushed ord (k, mt) \<and> ord mt \<noteq> [] \<longrightarrow>
      (\<exists>d. fs' (flush_path (en_flusher e) (int (l_id l)) (clock k)) = Some d \<and> table_file B io d (flush_kvs (ord mt) mt))"
    unfolding same by blast
  have "on_flush_signal B io clock ord j e =
      (Inr (), e\<lparr>en_lanes := (en_lanes e)[j := l\<lparr>l_flushCh := False, l_old := filter (\<lambda>t. \<not> flushed ord t) (l_old l)\<rparr>],
        en_flusher := f', en_fs := fs'\<rparr>)"
    using l fl distinct_ids_filter [OF assms(8)] by (simp add: on_flush_signal_def get_old_memtables_def)
  from that [OF this rest] show thesis .
qed

text \<open>
  C15: What a flush signal does.  With no fault, the worker ends with exactly those old tables
  still in the lane that are not frozen or whose iteration was not ascending, in their order;
  every other table it dropped has a file that opens and gives back the table's entries, and
  no other file was touched.  In particular it drains the lane when every iteration is
  ascending, and a table once refused stays until another rotation raises the signal again.
\<close>

theorem flush_signal_exact:
  assumes "bloom_ok B" and "\<And>b. succeeds (bl_encode B b)" and "no_faults io" and "fl_running (en_flusher e)"
    and "en_lanes e ! j = l" "l_flushCh l"
    and "\<forall>t\<in>set (l_old l). mt_is_frozen (snd t) \<longrightarrow> flushable ord (snd t)" and "distinct (map fst (l_old l))"
    and "inj_on (\<lambda>k. flush_path (en_flusher e) (int (l_id l)) (clock k)) (fst ` set (l_old l))"
  shows "\<exists>f' fs'. on_flush_signal B io clock ord j e =
      (Inr (), e\<lparr>en_lanes := (en_lanes e)[j := l\<lparr>l_flushCh := False, l_old := filter (\<lambda>t. \<not> flushed ord t) (l_old l)\<rparr>],
        en_flusher := f', en_fs := fs'\<rparr>)
    \<and> (\<forall>p. p \<notin> (\<lambda>k. flush_path (en_flusher e) (int (l_id l)) (clock k)) ` fst ` set (l_old l) \<longrightarrow> fs' p = en_fs e p)
    \<and> (\<forall>(k, mt)\<in>set (l_old l). flushed ord (k, mt) \<and> ord mt \<noteq> [] \<longrightarrow>
        (\<exists>d. fs' (flush_path (en_flusher e) (int (l_id l)) (clock k)) = Some d \<and> table_file B io d (flush_kvs (ord mt) mt)))"
  by (rule signal_exact [OF assms]) blast

section \<open>A flush may bring back an old version\<close>

lemma cold_read:
  assumes "en_running e" and "mlc_inv (en_cache e)" and "lru_view (mc_hot (en_cache e)) i = None"
    and read: "read_node (en_lanes e ! lane_index e i) i = Inr n" and "props_ok (n_Properties n)"
  shows "fst (engine_get_node i e) = Inr n"
proof -
  obtain c where c: "mlc_get_node i (en_cache e) = (Inr None, c)"
    by (rule cold_lookup [OF assms(2,3)])
  have "first_found (\<lambda>l. read_node l i) (probe_order e i) = Some n" using read by (simp add: probe_order_def Let_def)
  with assms(1,5) c show ?thesis by (simp add: engine_get_node_def clone_node_id)
qed

text \<open>
  C16: A flush may bring back an old version.  A lane has two frozen tables with versions of a
  node: the newer one is what a read returns.  If on a flush signal the older table's
  iteration is not ascending and the newer one's is, the newer table is written out and
  dropped, the older one stays, and the node reads as its old version again: an acknowledged
  update is undone for every reader.
\<close>

theorem flush_uncovers_old_version:
  assumes B: "bloom_ok B" and enc: "\<And>b. succeeds (bl_encode B b)" and io: "no_faults io"
    and run: "en_running e" "fl_running (en_flusher e)" and j: "j = lane_index e i" "j < length (en_lanes e)"
    and l: "en_lanes e ! j = l" "l_flushCh l" "l_old l = [(k1, m1), (k2, m2)]" "k1 \<noteq> k2"
    and frozen: "mt_is_frozen m1" "mt_is_frozen m2" and ok: "flushable ord m1" "flushable ord m2"
    and paths: "flush_path (en_flusher e) (int (l_id l)) (clock k1) \<noteq> flush_path (en_flusher e) (int (l_id l)) (clock k2)"
    and order: "\<not> sorted_wrt (<) (ord m1)" "sorted_wrt (<) (ord m2)"
    and nodes: "get_node (l_active l) i = Inl er" "get_node m1 i = Inr n1" "get_node m2 i = Inr n2"
      "props_ok (n_Properties n1)" "props_ok (n_Properties n2)"
    and cold: "mlc_inv (en_cache e)" "lru_view (mc_hot (en_cache e)) i = None"
  shows "fst (engine_get_node i e) = Inr n2
    \<and> (\<exists>e'. on_flush_signal B io clock ord j e = (Inr (), e') \<and> fst (engine_get_node i e') = Inr n1)"
proof -
  have "read_node (en_lanes e ! lane_index e i) i = Inr n2"
    using nodes by (simp add: read_node_def l(1,3) j(1) [symmetric])
  from cold_read [OF run(1) cold this nodes(5)] have before: "fst (engine_get_node i e) = Inr n2" .
  have ts: "\<forall>t\<in>set (l_old l). mt_is_frozen (snd t) \<longrightarrow> flushable ord (snd t)" "distinct (map fst (l_old l))"
    "inj_on (\<lambda>k. flush_path (en_flusher e) (int (l_id l)) (clock k)) (fst ` set (l_old l))"
    using ok l(3,4) paths by (auto simp: inj_on_def)
  obtain f' fs' where
    sig: "on_flush_signal B io clock ord j e = (Inr (), e\<lparr>en_lanes := (en_lanes e)[j := l\<lparr>l_flushCh := False,
      l_old := filter (\<lambda>t. \<not> flushed ord t) (l_old l)\<rparr>], en_flusher := f', en_fs := fs'\<rparr>)"
    by (rule signal_exact [OF B enc io run(2) l(1,2) ts])
  have old: "filter (\<lambda>t. \<not> flushed ord t) (l_old l) = [(k1, m1)]"
    using frozen order by (simp add: l(3) flushed_def)
  let ?e = "e\<lparr>en_lanes := (en_lanes e)[j := l\<lparr>l_flushCh := False, l_old := [(k1, m1)]\<rparr>], en_flusher := f', en_fs := fs'\<rparr>"
  have "lane_index ?e i = j" by (simp add: lane_index_def j(1))
  then have "read_node (en_lanes ?e ! lane_index ?e i) i = Inr n1"
    using nodes j(2) by (simp add: read_node_def)
  from cold_read [OF _ _ _ this nodes(4)] run(1) cold have "fst (engine_get_node i ?e) = Inr n1" by simp
  with before sig show ?thesis unfolding old by blast
qed

text \<open>An engine with two frozen tables: two nodes in the older one, a later version of the first in the newer.\<close>

definition demo_other :: node where
  "demo_other = demo_node\<lparr>n_ID := [0x62]\<rparr>"

definition demo_newer :: node where
  "demo_newer = demo_node\<lparr>n_Version := 2\<rparr>"

definition older_table :: memtable where
  "older_table = mt_freeze (snd (put_node demo_other (snd (put_node demo_node (mt_new 1000)))))"

definition newer_table :: memtable where
  "newer_table = mt_freeze (snd (put_node demo_newer (mt_new 1000)))"

definition two_tables :: lane where
  "two_tables = (new_write_lane 0 1000 (new_wal 0 False 4096 None))\<lparr>l_old := [(0, older_table), (1, newer_table)], l_flushCh := True\<rparr>"

definition two_table_engine :: engine where
  "two_table_engine = started_engine\<lparr>en_lanes := [two_tables]\<rparr>"

definition demo_order :: "memtable \<Rightarrow> bytes list" where
  "demo_order mt = (if mt_count mt = 2 then [node_key [0x62], node_key [0x61]] else [node_key [0x61]])"

lemma demo_tables:
  obtains b1 b2 b3 where "length b1 = 37" "length b2 = 37" "length b3 = 37"
    "deserialize_node b1 = Inr (wire_node demo_node)" "deserialize_node b3 = Inr (wire_node demo_newer)"
    "mt_data older_table = [node_key [0x61] \<mapsto> SvBytes (Some b1), node_key [0x62] \<mapsto> SvBytes (Some b2)]"
    "mt_data newer_table = [node_key [0x61] \<mapsto> SvBytes (Some b3)]"
    "mt_count older_table = 2" "mt_count newer_table = 1" "mt_is_frozen older_table" "mt_is_frozen newer_table"
proof -
  obtain b1 where b1: "serialize_node demo_node = Inr b1" "length b1 = 37" using demo_node_facts(3) by blast
  have "\<exists>b. serialize_node demo_other = Inr b \<and> length b = 37" "\<exists>b. serialize_node demo_newer = Inr b \<and> length b = 37"
    by (simp_all add: demo_other_def demo_newer_def demo_node_def serialize_node_def props_of_def)
  then obtain b2 b3 where b2: "serialize_node demo_other = Inr b2" "length b2 = 37"
    and b3: "serialize_node demo_newer = Inr b3" "length b3 = 37" by blast
  have ok: "node_ok demo_newer" using demo_node_facts(1) by (simp add: demo_newer_def node_ok_def)
  have ids: "n_ID demo_other = [0x62]" "n_ID demo_newer = [0x61]" by (simp_all add: demo_other_def demo_newer_def demo_node_facts)
  have keys: "node_key [0x62] \<noteq> node_key [0x61]" by (simp add: node_key_def)
  show thesis
  proof (rule that [OF b1(2) b2(2) b3(2)])
    show "deserialize_node b1 = Inr (wire_node demo_node)" "deserialize_node b3 = Inr (wire_node demo_newer)"
      using deserialize_serialize_node b1(1) b3(1) demo_node_facts(1) ok by blast+
  qed (use b1 b2 b3 ids keys demo_node_facts(2) in \<open>simp_all add: older_table_def newer_table_def put_node_def mt_put_def
      mt_new_def mt_freeze_def mt_is_frozen_def Let_def slice_len_def\<close>)
qed

lemma demo_flush:
  shows "bloom_ok tiny_bloom" "no_faults io_fine" "en_running two_table_engine" "fl_running (en_flusher two_table_engine)"
    "0 = lane_index two_table_engine [0x61]" "(0 :: nat) < length (en_lanes two_table_engine)"
    "en_lanes two_table_engine ! 0 = two_tables" "l_flushCh two_tables"
    "l_old two_tables = [(0, older_table), (1, newer_table)]"
    "flushable demo_order older_table" "flushable demo_order newer_table"
    "\<not> sorted_wrt (<) (demo_order older_table)" "sorted_wrt (<) (demo_order newer_table)"
    "flush_path (en_flusher two_table_engine) (int (l_id two_tables)) 0 \<noteq> flush_path (en_flusher two_table_engine) (int (l_id two_tables)) 1"
proof -
  obtain b1 b2 b3 where b: "length b1 = 37" "length b2 = 37" "length b3 = 37"
    "deserialize_node b1 = Inr (wire_node demo_node)" "deserialize_node b3 = Inr (wire_node demo_newer)"
    and data: "mt_data older_table = [node_key [0x61] \<mapsto> SvBytes (Some b1), node_key [0x62] \<mapsto> SvBytes (Some b2)]"
    "mt_data newer_table = [node_key [0x61] \<mapsto> SvBytes (Some b3)]"
    and count: "mt_count older_table = 2" "mt_count newer_table = 1"
    by (rule demo_tables)
  have keys: "node_key [0x62] \<noteq> node_key [0x61]" "[] \<noteq> node_key i" for i by (simp_all add: node_key_def lit_def)
  show "flushable demo_order older_table" "flushable demo_order newer_table"
    using b keys by (auto simp: flushable_def demo_order_def count range_order_def data fits_format_def flush_kvs_def
        mt_entries_def kv_ok_def)
  show "\<not> sorted_wrt (<) (demo_order older_table)" "sorted_wrt (<) (demo_order newer_table)"
    by (simp_all add: demo_order_def count node_key_def lit_def)
  show "flush_path (en_flusher two_table_engine) (int (l_id two_tables)) 0 \<noteq> flush_path (en_flusher two_table_engine) (int (l_id two_tables)) 1"
    by (simp add: flush_path_def two_table_engine_def started_engine_def demo_engine_def flusher_start_def new_flusher_def
        default_flusher_config_def two_tables_def new_write_lane_def path_join_def path_clean_def lit_def decimal_def
        slash_def clean_step_def)
qed (simp_all add: tiny_bloom_ok no_faults_def io_fine_def two_table_engine_def two_tables_def started_engine_def demo_engine_def
    flusher_start_def new_flusher_def lane_index_def)

theorem flush_worker_frame_witness:
  "\<exists>r e'. run_lane_flusher tiny_bloom [FlushSignal io_fine of_nat demo_order, ContextDone] 0 two_table_engine = (r, e')
     \<and> en_manifest e' = en_manifest two_table_engine \<and> lane_shrunk two_tables (en_lanes e' ! 0)"
proof -
  obtain r e' where run: "run_lane_flusher tiny_bloom [FlushSignal io_fine of_nat demo_order, ContextDone] 0 two_table_engine = (r, e')"
    by force
  from flush_worker_frame [OF run] have "flush_frame 0 two_table_engine e'" "en_manifest e' = en_manifest two_table_engine" by blast+
  with run demo_flush(6,7) show ?thesis by (intro exI [of _ r] exI [of _ e']) (auto simp: flush_frame_def)
qed

theorem flush_signal_exact_witness:
  "\<exists>e' d. on_flush_signal tiny_bloom io_fine of_nat demo_order 0 two_table_engine = (Inr (), e')
     \<and> map fst (l_old (en_lanes e' ! 0)) = [0]
     \<and> en_fs e' (flush_path (en_flusher two_table_engine) (int (l_id two_tables)) 1) = Some d"
proof -
  note D = demo_flush
  have "\<forall>t\<in>set (l_old two_tables). mt_is_frozen (snd t) \<longrightarrow> flushable demo_order (snd t)" "distinct (map fst (l_old two_tables))"
    "inj_on (\<lambda>k. flush_path (en_flusher two_table_engine) (int (l_id two_tables)) (of_nat k)) (fst ` set (l_old two_tables))"
    using D(9-11,14) by (auto simp: inj_on_def)
  from flush_signal_exact [OF D(1) tiny_enc D(2,4,7,8) this] obtain f' fs' where
    sig: "on_flush_signal tiny_bloom io_fine of_nat demo_order 0 two_table_engine =
      (Inr (), two_table_engine\<lparr>en_lanes := (en_lanes two_table_engine)[0 := two_tables\<lparr>l_flushCh := False,
        l_old := filter (\<lambda>t. \<not> flushed demo_order t) (l_old two_tables)\<rparr>], en_flusher := f', en_fs := fs'\<rparr>)"
    and files: "\<forall>(k, mt)\<in>set (l_old two_tables). flushed demo_order (k, mt) \<and> demo_order mt \<noteq> [] \<longrightarrow>
        (\<exists>d. fs' (flush_path (en_flusher two_table_engine) (int (l_id two_tables)) (of_nat k)) = Some d
           \<and> table_file tiny_bloom io_fine d (flush_kvs (demo_order mt) mt))" by blast
  obtain fr: "mt_is_frozen newer_table" "mt_is_frozen older_table" by (rule demo_tables) blast
  have "demo_order newer_table \<noteq> []" by (simp add: demo_order_def)
  with files fr(1) D(13) obtain d where "fs' (flush_path (en_flusher two_table_engine) (int (l_id two_tables)) 1) = Some d"
    by (auto simp: D(9) flushed_def)
  moreover have "filter (\<lambda>t. \<not> flushed demo_order t) (l_old two_tables) = [(0, older_table)]"
    using fr D(12,13) by (simp add: D(9) flushed_def)
  ultimately show ?thesis using sig D(6) by auto
qed

theorem flush_uncovers_old_version_witness:
  "\<exists>e'. fst (engine_get_node [0x61] two_table_engine) = Inr (wire_node demo_newer)
     \<and> on_flush_signal tiny_bloom io_fine of_nat demo_order 0 two_table_engine = (Inr (), e')
     \<and> fst (engine_get_node [0x61] e') = Inr (wire_node demo_node) \<and> n_Version (wire_node demo_node) < n_Version (wire_node demo_newer)"
proof -
  note D = demo_flush
  obtain b1 b2 b3 where des: "deserialize_node b1 = Inr (wire_node demo_node)" "deserialize_node b3 = Inr (wire_node demo_newer)"
    and data: "mt_data older_table = [node_key [0x61] \<mapsto> SvBytes (Some b1), node_key [0x62] \<mapsto> SvBytes (Some b2)]"
      "mt_data newer_table = [node_key [0x61] \<mapsto> SvBytes (Some b3)]"
    and fr: "mt_is_frozen older_table" "mt_is_frozen newer_table" by (rule demo_tables)
  have keys: "node_key [0x62] \<noteq> node_key [0x61]" by (simp add: node_key_def)
  have nodes: "get_node older_table [0x61] = Inr (wire_node demo_node)" "get_node newer_table [0x61] = Inr (wire_node demo_newer)"
    "get_node (l_active two_tables) [0x61] = Inl (Err ''node not found'')"
    using des keys by (simp_all add: get_node_def mt_get_def data two_tables_def new_write_lane_def mt_new_def)
  have "node_ok demo_newer" using demo_node_facts(1) by (simp add: demo_newer_def node_ok_def)
  from wire_node_ok [OF this] wire_node_ok [OF demo_node_facts(1)]
  have props: "props_ok (n_Properties (wire_node demo_node))" "props_ok (n_Properties (wire_node demo_newer))"
    by (simp_all add: node_ok_def wire_props_ok_def)
  have "en_cache two_table_engine = new_mlc_from_size 1000"
    by (simp add: two_table_engine_def started_engine_def demo_engine_def)
  moreover from this have "mlc_inv (en_cache two_table_engine)"
    using tiers_hold_new [of "\<lambda>_ _. True" "\<lambda>_ _. True" 1000] by (simp add: tiers_hold_def)
  ultimately have cold: "mlc_inv (en_cache two_table_engine)" "lru_view (mc_hot (en_cache two_table_engine)) [0x61] = None"
    by (simp_all add: new_mlc_from_size_def)
  have path: "flush_path (en_flusher two_table_engine) (int (l_id two_tables)) (of_nat 0) \<noteq> flush_path (en_flusher two_table_engine) (int (l_id two_tables)) (of_nat 1)"
    using D(14) by simp
  have "n_Version (wire_node demo_node) < n_Version (wire_node demo_newer)"
    by (simp add: wire_node_def demo_newer_def demo_node_def)
  with flush_uncovers_old_version [OF D(1) tiny_enc D(2-9) zero_neq_one fr D(10,11) path D(12,13) nodes(3,1,2) props cold]
  show ?thesis by blast
qed

end
