(* ===== verification/Engine_Restart.thy ===== *)
theory Engine_Restart
  imports Engine_Life
begin

text \<open>
  An engine across restarts: what a run writes to the logs, and that the next engine opened on
  them serves the same graph.
\<close>

section \<open>The records a run writes\<close>

fun written :: "gotime \<Rightarrow> request \<Rightarrow> store \<Rightarrow> update option" where
  "written t (CreateNode n) s = Some (WNode n)"
| "written t (CreateEdge ed) s = Some (WEdge ed)"
| "written t (UpdateNode i ps) s =
     (case st_nodes s i of None \<Rightarrow> None
      | Some n \<Rightarrow> (case set_properties t ps n of Inl _ \<Rightarrow> None | Inr n' \<Rightarrow> Some (WNode n')))"
| "written t _ s = None"

fun acknowledged :: "reply \<Rightarrow> bool" where
  "acknowledged (Done r) = succeeded r"
| "acknowledged _ = True"

definition add_update :: "gotime \<times> request \<Rightarrow> store \<times> update list \<Rightarrow> store \<times> update list" where
  "add_update x p = (case x of (t, rq) \<Rightarrow> case p of (s, us) \<Rightarrow>
     (case written t rq s of None \<Rightarrow> (s, us) | Some w \<Rightarrow> (apply_write w s, us @ [w])))"

definition asked :: "(gotime \<times> request \<times> reply) list \<Rightarrow> (gotime \<times> request) list" where
  "asked tr = map (\<lambda>(t, rq, _). (t, rq)) tr"

definition updates_of :: "store \<Rightarrow> (gotime \<times> request) list \<Rightarrow> update list" where
  \<comment> \<open>the records that acknowledged requests write, in order\<close>
  "updates_of s rqs = snd (fold add_update rqs (s, []))"

lemma asked_simps [simp]: "asked [] = []" "asked ((t, rq, rp) # tr) = (t, rq) # asked tr"
  by (simp_all add: asked_def)

lemma asked_snoc: "asked (tr @ [(t, rq, rp)]) = asked tr @ [(t, rq)]"
  by (simp add: asked_def)

definition lane_part :: "engine \<Rightarrow> nat \<Rightarrow> update list \<Rightarrow> update list" where
  "lane_part e j us = filter (\<lambda>w. lane_index e (write_key w) = j) us"

lemma lane_part_append: "lane_part e j (us @ vs) = lane_part e j us @ lane_part e j vs"
  by (simp add: lane_part_def)

lemma get_node_lanes:
  assumes "engine_ok e" and "en_running e" and "engine_get_node i e = (r, e')"
  shows "r = found ''node'' (st_nodes (engine_store e) i)" "\<exists>c. e' = e\<lparr>en_cache := c\<rparr> \<and> cache_ok e'"
  using get_node_reads [OF assms(1,2), of i] assms(3) by (auto elim!: readsE)

text \<open>
  What a request does to the lanes: nothing, when it is a query or names a record that is not
  there; otherwise it is one write to the home lane of the record, and the reply is its result.
\<close>

fun dangling :: "request \<Rightarrow> store \<Rightarrow> bool" where
  "dangling (UpdateNode i ps) s \<longleftrightarrow> st_nodes s i = None"
| "dangling (CreateEdge ed) s \<longleftrightarrow> st_nodes s (e_FromNodeID ed) = None \<or> st_nodes s (e_ToNodeID ed) = None"
| "dangling _ s \<longleftrightarrow> False"

definition unwritten :: "engine \<Rightarrow> engine \<Rightarrow> bool" where
  "unwritten e e' \<longleftrightarrow> en_lanes e' = en_lanes e \<and> en_numLanes e' = en_numLanes e"

definition wrote :: "wal_io \<Rightarrow> u64 \<Rightarrow> engine \<Rightarrow> update \<Rightarrow> unit res \<Rightarrow> engine \<Rightarrow> bool" where
  "wrote io now e w r e' \<longleftrightarrow> en_numLanes e' = en_numLanes e \<and> (\<exists>l. do_write io now w (home e (write_key w)) = (r, l)
     \<and> en_lanes e' = (en_lanes e)[lane_index e (write_key w) := l])"

lemma create_node_outcome:
  "en_running e \<Longrightarrow> create_node io now n e = (r, e') \<Longrightarrow> wrote io now e (WNode n) r e'"
  by (auto simp: wrote_def create_node_def home_def set_lane_def Let_def split: prod.splits)

lemma update_node_outcome:
  assumes E: "engine_ok e" "en_running e" and run: "update_node io now t i ps e = (r, e')"
  shows "if st_nodes (engine_store e) i = None then unwritten e e' \<and> (\<exists>er. r = Inl er \<and> \<not> is_panic er)
    else \<exists>n'. written t (UpdateNode i ps) (engine_store e) = Some (WNode n') \<and> wrote io now e (WNode n') r e'"
proof -
  obtain q e1 where g: "engine_get_node i e = (q, e1)" by force
  from get_node_lanes [OF E g] obtain c where q: "q = found ''node'' (st_nodes (engine_store e) i)"
    and e1: "e1 = e\<lparr>en_cache := c\<rparr>" by blast
  show ?thesis
  proof (cases "st_nodes (engine_store e) i")
    case None
    with run g q E(2) show ?thesis by (auto simp: update_node_def wrapE_def found_def unwritten_def e1)
  next
    case (Some n)
    from E have L: "lanes_ok e" by (simp add: engine_ok_def)
    note S = stored_node [OF L Some]
    from set_properties_ok [OF S(3), of t ps] obtain n' where n': "set_properties t ps n = Inr n'" "n_ID n' = i"
      using S(1) by auto
    let ?e = "e\<lparr>en_cache := invalidate_node i c\<rparr>"
    have idx: "lane_index ?e i = lane_index e i" by (simp add: lane_index_def)
    from run g q Some E(2) n' S(4) obtain l where "write_node io now n' (en_lanes e ! lane_index e i) = (r, l)"
      "e' = set_lane (lane_index e i) l ?e"
      by (auto simp: update_node_def found_def e1 idx Let_def split: prod.splits)
    with Some n' show ?thesis by (simp add: wrote_def set_lane_def home_def)
  qed
qed

lemma create_edge_outcome:
  assumes E: "engine_ok e" "en_running e" and run: "create_edge io now ed e = (r, e')"
  shows "if dangling (CreateEdge ed) (engine_store e) then unwritten e e' \<and> (\<exists>er. r = Inl er \<and> \<not> is_panic er)
    else wrote io now e (WEdge ed) r e'"
proof -
  obtain q e1 where g: "engine_get_node (e_FromNodeID ed) e = (q, e1)" by force
  from get_node_lanes [OF E g] obtain c where q: "q = found ''node'' (st_nodes (engine_store e) (e_FromNodeID ed))"
    and e1: "e1 = e\<lparr>en_cache := c\<rparr>" "cache_ok e1" by blast
  with E have E1: "engine_ok e1" "en_running e1" by (simp_all add: engine_ok_def)
  obtain q' e2 where g': "engine_get_node (e_ToNodeID ed) e1 = (q', e2)" by force
  from get_node_lanes [OF E1 g'] obtain c' where q': "q' = found ''node'' (st_nodes (engine_store e) (e_ToNodeID ed))"
    and e2: "e2 = e\<lparr>en_cache := c'\<rparr>" by (auto simp: e1)
  have idx: "lane_index (e\<lparr>en_cache := c'\<rparr>) k = lane_index e k" for k by (simp add: lane_index_def)
  show ?thesis
  proof (cases "dangling (CreateEdge ed) (engine_store e)")
    case True
    with run g g' q q' E(2) show ?thesis
      by (cases "st_nodes (engine_store e) (e_FromNodeID ed)")
        (auto simp: create_edge_def wrapE_def found_def unwritten_def e1 e2)
  next
    case False
    with run g g' q q' E(2) obtain l where "write_edge io now ed (en_lanes e ! lane_index e (e_ID ed)) = (r, l)"
      "e' = set_lane (lane_index e (e_ID ed)) l e2"
      by (auto simp: create_edge_def e2 idx found_def Let_def split: prod.splits)
    then have "wrote io now e (WEdge ed) r e'" by (simp add: wrote_def set_lane_def home_def e2)
    then show ?thesis by (simp only: if_not_P [OF False])
  qed
qed

lemma query_unwritten: "reads f e r \<Longrightarrow> f e = (r', e') \<Longrightarrow> unwritten e e'"
  by (auto simp: unwritten_def elim!: readsE)

lemma query_outcome:
  assumes E: "engine_ok e" "en_running e" and ord: "map_order ord" and run: "handle io now t ord rq e = (rp, e')"
    and rq: "\<And>n. rq \<noteq> CreateNode n" "\<And>i ps. rq \<noteq> UpdateNode i ps" "\<And>ed. rq \<noteq> CreateEdge ed"
  shows "unwritten e e' \<and> acknowledged rp \<and> \<not> panicked rp"
proof (cases rq)
  case (GetNode i)
  with run query_unwritten [OF get_node_reads [OF E]] show ?thesis by (cases "engine_get_node i e") auto
next
  case (GetEdge i)
  with run query_unwritten [OF get_edge_reads [OF E]] show ?thesis by (cases "engine_get_edge i e") auto
next
  case (Outgoing i)
  with outgoing_reads [OF E ord, of i] run show ?thesis
    by (cases "engine_outgoing ord i e") (auto dest: query_unwritten)
next
  case (Incoming i)
  with incoming_reads [OF E ord, of i] run show ?thesis
    by (cases "engine_incoming ord i e") (auto dest: query_unwritten)
next
  case (Neighbors i d)
  with neighbors_reads [OF E ord, of i d] run show ?thesis
    by (cases "engine_neighbors ord i d e") (auto dest: query_unwritten)
qed (use rq in auto)

lemma handle_outcome:
  assumes E: "engine_ok e" "en_running e" and ord: "map_order ord" and run: "handle io now t ord rq e = (rp, e')"
  obtains (query) "written t rq (engine_store e) = None" "unwritten e e'" "acknowledged rp" "\<not> panicked rp"
  | (dangling) "dangling rq (engine_store e)" "unwritten e e'" "\<not> acknowledged rp" "\<not> panicked rp"
  | (update) w r where "\<not> dangling rq (engine_store e)" "written t rq (engine_store e) = Some w" "rp = Done r"
      "wrote io now e w r e'"
proof (cases rq)
  case (CreateNode n)
  with run obtain r where "rp = Done r" "create_node io now n e = (r, e')"
    by (cases "create_node io now n e") auto
  with create_node_outcome [OF E(2)] CreateNode update show thesis by simp
next
  case (UpdateNode i ps)
  with run obtain r where r: "rp = Done r" "update_node io now t i ps e = (r, e')"
    by (cases "update_node io now t i ps e") auto
  from update_node_outcome [OF E r(2)] UpdateNode r(1) dangling update show thesis
    by (auto simp: succeeded_def split: if_splits)
next
  case (CreateEdge ed)
  with run obtain r where r: "rp = Done r" "create_edge io now ed e = (r, e')"
    by (cases "create_edge io now ed e") auto
  from create_edge_outcome [OF E r(2)] CreateEdge r(1) dangling update show thesis
    by (auto simp: succeeded_def split: if_splits)
qed (use query query_outcome [OF E ord run] in simp_all)

definition one_write :: "engine \<Rightarrow> update \<Rightarrow> engine \<Rightarrow> bool" where
  "one_write e w e' \<longleftrightarrow> (\<exists>io now. wrote io now e w (Inr ()) e')"

lemma handle_writes:
  assumes E: "engine_ok e" "en_running e" and ord: "map_order ord"
    and run: "handle io now t ord rq e = (rp, e')" and ack: "acknowledged rp"
  shows "case written t rq (engine_store e) of None \<Rightarrow> unwritten e e' | Some w \<Rightarrow> one_write e w e'"
  using handle_outcome [OF E ord run] ack
  by cases (auto simp: one_write_def succeeded_def)

section \<open>Runs and their logs\<close>

lemma updates_of_snoc:
  "fold add_update rqs (s, []) = (s1, us) \<Longrightarrow>
   fold add_update (rqs @ [(t, rq)]) (s, []) =
     (case written t rq s1 of None \<Rightarrow> (s1, us) | Some w \<Rightarrow> (apply_write w s1, us @ [w]))"
  by (simp add: add_update_def split: option.splits)

lemma answers_written:
  "answers t rq s rp s' \<Longrightarrow> acknowledged rp \<Longrightarrow>
   s' = (case written t rq s of None \<Rightarrow> s | Some w \<Rightarrow> apply_write w s)"
  by (cases "(t, rq, s, rp, s')" rule: answers.cases)
    (auto simp: succeeded_def split: option.splits if_splits)

lemma admissible_written:
  "admissible t rq s \<Longrightarrow> written t rq s = Some w \<Longrightarrow> str_ok (data_of w) \<Longrightarrow> write_ok w"
  by (cases rq) (auto split: option.splits sum.splits)

definition part_size :: "update list \<Rightarrow> int" where
  "part_size us = (\<Sum>w\<leftarrow>us. write_size w)"

lemma part_size_nonneg: "0 \<le> part_size us"
  by (induction us) (auto simp: part_size_def write_size_nonneg)

lemma part_size_append: "part_size (us @ vs) = part_size us + part_size vs"
  by (simp add: part_size_def)

lemma total_size_map: "total_size ws = part_size (map snd ws)"
  by (simp add: total_size_def part_size_def comp_def case_prod_unfold)

lemma data_size: "int (length (data_of w)) \<le> write_size w"
  by (cases w) (simp_all add: write_size_def)

lemma data_fits: "w \<in> set us \<Longrightarrow> int (length (data_of w)) \<le> part_size us"
proof (induction us)
  case (Cons v us)
  with data_size [of w] write_size_nonneg [of v] part_size_nonneg [of us] show ?case
    by (auto simp: part_size_def)
qed simp

text \<open>
  Each lane has a run of its own, made of the records of the trace that hash to it.
\<close>

definition lane_runs :: "engine \<Rightarrow> update list \<Rightarrow> engine \<Rightarrow> bool" where
  "lane_runs e0 us e \<longleftrightarrow> (\<forall>j < en_numLanes e0. \<exists>ws. map snd ws = lane_part e0 j us
     \<and> lane_run (en_lanes e0 ! j) ws (en_lanes e ! j))"

lemma lane_runs_one_write:
  assumes R: "lane_runs e0 us e" and len: "length (en_lanes e) = en_numLanes e0" "en_numLanes e = en_numLanes e0"
    and w: "one_write e w e'" and ok: "write_ok w"
  shows "lane_runs e0 (us @ [w]) e'"
proof -
  have idx: "lane_index e = lane_index e0" using len by (simp add: lane_index_def fun_eq_iff)
  let ?i = "lane_index e0 (write_key w)"
  from w obtain io now l where l: "do_write io now w (en_lanes e ! ?i) = (Inr (), l)"
    and e': "en_lanes e' = (en_lanes e)[?i := l]"
    by (auto simp: one_write_def wrote_def home_def idx)
  show ?thesis unfolding lane_runs_def
  proof (intro allI impI)
    fix j assume j: "j < en_numLanes e0"
    with R obtain ws where ws: "map snd ws = lane_part e0 j us" "lane_run (en_lanes e0 ! j) ws (en_lanes e ! j)"
      by (auto simp: lane_runs_def)
    show "\<exists>ws. map snd ws = lane_part e0 j (us @ [w]) \<and> lane_run (en_lanes e0 ! j) ws (en_lanes e' ! j)"
    proof (cases "?i = j")
      case True
      with l ws(2) have "lane_run (en_lanes e0 ! j) (ws @ [(now, w)]) l"
        by (auto intro: lane_run.put [OF _ ok])
      with True j len ws(1) show ?thesis
        by (intro exI [of _ "ws @ [(now, w)]"]) (simp add: e' lane_part_def)
    next
      case False
      with ws show ?thesis by (auto simp: e' lane_part_def)
    qed
  qed
qed

lemma lane_runs_same:
  "lane_runs e0 us e \<Longrightarrow> en_lanes e' = en_lanes e \<Longrightarrow> lane_runs e0 us e'"
  by (simp add: lane_runs_def)

lemma lane_runs_sync:
  assumes R: "lane_runs e0 us e" and len: "length (en_lanes e) = en_numLanes e0"
    and sync: "wal_sync io (l_wal (en_lanes e ! j)) = (r, w)"
  shows "lane_runs e0 us (set_lane j ((en_lanes e ! j)\<lparr>l_wal := w\<rparr>) e)"
  unfolding lane_runs_def
proof (intro allI impI)
  fix i assume i: "i < en_numLanes e0"
  with R obtain ws where ws: "map snd ws = lane_part e0 i us" "lane_run (en_lanes e0 ! i) ws (en_lanes e ! i)"
    by (auto simp: lane_runs_def)
  from lane_run.sync [OF ws(2)] sync ws i len
  show "\<exists>ws. map snd ws = lane_part e0 i us
     \<and> lane_run (en_lanes e0 ! i) ws (en_lanes (set_lane j ((en_lanes e ! j)\<lparr>l_wal := w\<rparr>) e) ! i)"
    by (cases "i = j") (auto simp: set_lane_def)
qed

lemma engine_run_lanes:
  assumes "engine_run B e0 tr e" and "engine_ok e0" and "en_running e0"
    and "\<forall>(t, rq, rp)\<in>set tr. acknowledged rp"
    and "\<forall>j < en_numLanes e0. part_size (lane_part e0 j (updates_of (engine_store e0) (asked tr))) < 2 ^ 32"
  shows "en_numLanes e = en_numLanes e0 \<and> lane_runs e0 (updates_of (engine_store e0) (asked tr)) e
    \<and> fst (fold add_update (asked tr) (engine_store e0, [])) = engine_store e"
  using assms
proof (induction rule: engine_run.induct)
  case start
  then show ?case by (auto simp: lane_runs_def updates_of_def lane_part_def intro: lane_run.start)
next
  case (request tr e t rq ord io now rp e')
  let ?s0 = "engine_store e0"
  note R = engine_run_refines [OF request.hyps(1) request.prems(1,2)]
  have ack: "acknowledged rp" "\<forall>(t, rq, rp)\<in>set tr. acknowledged rp" using request.prems(3) by auto
  obtain s1 us where f: "fold add_update (asked tr) (?s0, []) = (s1, us)" by force
  note snoc = updates_of_snoc [OF f, of t rq, folded asked_snoc [of tr t rq rp]]
  from snoc obtain vs where vs: "updates_of ?s0 (asked (tr @ [(t, rq, rp)])) = us @ vs"
    by (auto simp: updates_of_def split: option.splits)
  have us: "updates_of ?s0 (asked tr) = us" by (simp add: updates_of_def f)
  have "\<forall>j < en_numLanes e0. part_size (lane_part e0 j (updates_of ?s0 (asked tr))) < 2 ^ 32"
  proof (intro allI impI)
    fix j assume "j < en_numLanes e0"
    with request.prems(4) part_size_nonneg [of "lane_part e0 j vs"]
    show "part_size (lane_part e0 j (updates_of ?s0 (asked tr))) < 2 ^ 32"
      by (fastforce simp: vs us lane_part_append part_size_append)
  qed
  from request.IH [OF request.prems(1,2) ack(2) this] have IH: "en_numLanes e = en_numLanes e0"
    "lane_runs e0 us e" "s1 = engine_store e" by (simp_all add: us f)
  from R have E: "engine_ok e" "en_running e" by blast+
  then have len: "length (en_lanes e) = en_numLanes e0" using IH(1) by (simp add: engine_ok_def lanes_ok_def)
  from handle_answers [OF E request.hyps(2-5)] have "answers t rq (engine_store e) rp (engine_store e')" by blast
  note st = answers_written [OF this ack(1)]
  note W = handle_writes [OF E request.hyps(3,4) ack(1)]
  show ?case
  proof (cases "written t rq (engine_store e)")
    case None
    with W st snoc IH lane_runs_same [OF IH(2)] show ?thesis by (simp add: updates_of_def unwritten_def)
  next
    case (Some w)
    let ?j = "lane_index e0 (write_key w)"
    have us': "updates_of ?s0 (asked (tr @ [(t, rq, rp)])) = us @ [w]" using snoc Some IH(3) by (simp add: updates_of_def)
    have "?j < en_numLanes e0"
      using request.prems(1) lane_index_less by (simp add: engine_ok_def lanes_ok_def)
    with request.prems(4) data_fits [of w "lane_part e0 ?j (us @ [w])"] have "str_ok (data_of w)"
      by (fastforce simp: us' lane_part_def str_ok_def)
    from admissible_written [OF request.hyps(2) Some this] have ok: "write_ok w" .
    from W Some have w: "one_write e w e'" by simp
    from lane_runs_one_write [OF IH(2) len IH(1) w ok] st snoc Some IH(1,3) w
    show ?thesis by (auto simp: us' one_write_def wrote_def)
  qed
next
  case (sync tr e j io r w)
  then have IH: "en_numLanes e = en_numLanes e0" "lane_runs e0 (updates_of (engine_store e0) (asked tr)) e"
    "fst (fold add_update (asked tr) (engine_store e0, [])) = engine_store e" by blast+
  from engine_run_refines [OF sync.hyps(1) sync.prems(1,2)] have E: "engine_ok e" by blast
  then have "length (en_lanes e) = en_numLanes e0" using IH(1) by (simp add: engine_ok_def lanes_ok_def)
  with lane_runs_sync [OF IH(2) _ sync.hyps(3)] sync_frame [OF E sync.hyps(2)] IH show ?case by simp
next
  case (compact tr e io srt now r c fs)
  then have "en_numLanes e = en_numLanes e0" "lane_runs e0 (updates_of (engine_store e0) (asked tr)) e"
    "fst (fold add_update (asked tr) (engine_store e0, [])) = engine_store e" by blast+
  then show ?case by (simp add: lane_runs_same)
qed

section \<open>Restart\<close>

lemma log_inv_existing:
  assumes "list_all entry_ok es" and "log_file d = log_bytes es"
  shows "log_inv es (new_wal i False sz d)"
proof -
  have "wal_log (new_wal i False sz d) = log_bytes es"
    using assms(2) by (simp add: new_wal_def wal_log_def wal_content_def new_bufio_def log_file_def Let_def)
  moreover from log_inv_new [of i sz] obtain e where "entry_ok e" "0 < length (serialize_entry e)"
    by (fastforce simp: log_inv_def)
  ultimately show ?thesis using assms(1) by (fastforce simp: log_inv_def new_wal_buffered)
qed

lemma synced_log:
  assumes inv: "log_inv es w" and sync: "wal_sync io w = (Inr (), w')" and crash: "crash_image w' d"
  shows "d = log_bytes es" "list_all entry_ok es"
proof -
  from inv have b: "buffered w" and ok: "list_all entry_ok es" by (simp_all add: log_inv_def)
  note S = wal_sync_buffered [OF b sync]
  from wal_run_log_inv [OF wal_run.sync [OF wal_run.start sync] inv] have "log_inv es w'" by simp
  with S have "wal_log w' = log_bytes es" by (auto simp: log_inv_def)
  with S crash show "d = log_bytes es" by (auto simp: crash_image_def)
  show "list_all entry_ok es" by (rule ok)
qed

text \<open>
  What a file must hold for a restart: exactly the acknowledged entries of the log.  A synced
  log leaves this behind, whatever comes later.
\<close>

definition log_saved :: "wal \<Rightarrow> bytes option \<Rightarrow> bool" where
  "log_saved w d \<longleftrightarrow> (\<forall>es. log_inv es w \<longrightarrow> log_file d = log_bytes es)"

lemma synced_saved: "wal_sync io w = (Inr (), w') \<Longrightarrow> crash_image w' d \<Longrightarrow> log_saved w (Some d)"
  by (auto simp: log_saved_def dest: synced_log(1))

lemma log_of_app: "log_of (xs @ ys) = log_of xs @ log_of ys"
  by (rule log_of_append)

lemma store_after_app: "store_after (xs @ ys) s = store_after ys (store_after xs s)"
  by (simp add: store_after_def)

lemma engine_store_of_lanes:
  assumes L: "lanes_ok e" and lanes: "\<forall>j < en_numLanes e. lane_store (en_lanes e ! j) = store_after (ws j) empty_store"
  shows "engine_store e = store_of_logs e ws"
proof -
  from L have len: "length (en_lanes e) = en_numLanes e" by (simp add: lanes_ok_def)
  have V: "node_view (en_lanes e ! j) = st_nodes (store_after (ws j) empty_store)"
    "edge_view (en_lanes e ! j) = st_edges (store_after (ws j) empty_store)"
    "out_view (en_lanes e ! j) = st_out (store_after (ws j) empty_store)"
    "in_view (en_lanes e ! j) = st_in (store_after (ws j) empty_store)" if "j < en_numLanes e" for j
    using lanes that lane_store_sel [of "en_lanes e ! j"] by simp_all
  have "map (\<lambda>l. out_view l i) (en_lanes e) = map (\<lambda>j. st_out (store_after (ws j) empty_store) i) [0..<en_numLanes e]"
    "map (\<lambda>l. in_view l i) (en_lanes e) = map (\<lambda>j. st_in (store_after (ws j) empty_store) i) [0..<en_numLanes e]" for i
    by (rule nth_equalityI; simp add: len V)+
  with V(1,2) [OF home_index [OF L]] show ?thesis by (simp add: engine_store_def store_of_logs_def home_def)
qed

text \<open>What a run of a lane over its recovered log leaves for the next start.\<close>

lemma lane_run_logs:
  assumes run: "lane_run l0 vs l" and wf: "lane_wf l0" and store: "lane_store l0 = store_after ws empty_store"
    and wal: "l_wal l0 = new_wal i False sz d0" and log: "log_file d0 = log_bytes (log_of ws)" "lane_log_ok ws"
    and saved: "log_saved (l_wal l) d"
  shows "log_file d = log_bytes (log_of (ws @ vs))" "lane_log_ok (ws @ vs)" "lane_store l = store_after (ws @ vs) empty_store"
proof -
  note R = lane_run_store [OF run wf]
  have "list_all entry_ok (log_of ws)" using log(2) by (simp add: lane_log_ok_def)
  from log_inv_existing [OF this log(1)] have "log_inv (log_of ws) (l_wal l0)" by (simp add: wal)
  with wal_run_log_inv R have inv: "log_inv (log_of ws @ log_of vs) (l_wal l)" by blast
  then have "list_all entry_ok (log_of ws @ log_of vs)" by (simp add: log_inv_def)
  with inv saved R log(2) show "log_file d = log_bytes (log_of (ws @ vs))" "lane_log_ok (ws @ vs)"
    unfolding lane_log_ok_def log_saved_def log_of_app by auto
  show "lane_store l = store_after (ws @ vs) empty_store" using R by (simp add: store store_after_app)
qed

text \<open>
  An engine that ran on recovered logs, restarted on files that hold what its logs held.
\<close>

lemma engine_restart_core:
  assumes open1: "new_engine J io1 now1 logs (Some cfg) fs1 = (Inr e0, fs1')"
    and bounds: "ec_NumWriteLanes cfg < 2 ^ 32" "ec_MemtableSize cfg < 2 ^ 32"
    and logs: "logs_hold (logs (wal_dir cfg)) (ec_MemtableSize cfg) e0 ws"
    and start1: "engine_start io2 e0 = (Inr (), e1)" "io_open_ok io2"
    and run: "engine_run B e1 tr e" "\<forall>(t, rq, rp)\<in>set tr. acknowledged rp"
    and room: "\<forall>j < en_numLanes e0. 2 * (total_size (ws j) + part_size (lane_part e0 j (updates_of (engine_store e1) (asked tr))))
      \<le> ec_MemtableSize cfg"
    and saved: "\<forall>j < en_numLanes e0. log_saved (l_wal (en_lanes e ! j)) (d j)"
    and open2: "new_engine J io3 now3 (\<lambda>_. d) (Some cfg) fs2 = (Inr e2, fs2')" "io_open_ok io4"
  shows "\<exists>e3 ws'. engine_start io4 e2 = (Inr (), e3) \<and> en_running e3 \<and> engine_ok e3 \<and> engine_store e3 = engine_store e
    \<and> logs_hold d (ec_MemtableSize cfg) e2 ws'
    \<and> (\<forall>j < en_numLanes e0. map snd (ws' j) = map snd (ws j) @ lane_part e0 j (updates_of (engine_store e1) (asked tr)))"
proof -
  let ?us = "updates_of (engine_store e1) (asked tr)"
  from engine_start_store [OF open1 bounds(1) logs start1(2)] start1(1)
  have E1: "en_running e1" "engine_ok e1" "en_numLanes e1 = en_numLanes e0"
    and l1: "\<forall>j < en_numLanes e0. lane_store (en_lanes e1 ! j) = store_after (ws j) empty_store
        \<and> l_wal (en_lanes e1 ! j) = new_wal j False (256 * 1024) (logs (wal_dir cfg) j)" by auto
  have part: "lane_part e1 = lane_part e0" using E1(3) by (simp add: lane_part_def lane_index_def fun_eq_iff)
  from engine_run_refines [OF run(1) E1(2,1)] have E: "engine_ok e" by blast
  have small: "\<forall>j < en_numLanes e1. part_size (lane_part e1 j ?us) < 2 ^ 32"
  proof (intro allI impI)
    fix j assume "j < en_numLanes e1"
    with room have "2 * (total_size (ws j) + part_size (lane_part e0 j ?us)) \<le> ec_MemtableSize cfg" by (simp add: E1(3))
    with bounds(2) total_size_nonneg [of "ws j"] part_size_nonneg [of "lane_part e0 j ?us"]
    show "part_size (lane_part e1 j ?us) < 2 ^ 32" by (simp add: part)
  qed
  from engine_run_lanes [OF run(1) E1(2,1) run(2) small] have n: "en_numLanes e = en_numLanes e0"
    and R: "\<forall>j < en_numLanes e0. \<exists>vs. map snd vs = lane_part e0 j ?us \<and> lane_run (en_lanes e1 ! j) vs (en_lanes e ! j)"
    by (simp_all add: lane_runs_def part E1(3))
  then obtain vs where vs: "\<And>j. j < en_numLanes e0 \<Longrightarrow> map snd (vs j) = lane_part e0 j ?us \<and> lane_run (en_lanes e1 ! j) (vs j) (en_lanes e ! j)"
    by metis
  let ?ws = "\<lambda>j. ws j @ vs j"
  have n2: "en_numLanes e2 = en_numLanes e0" using new_engine_Inr(2) open1 open2(1) by metis
  have idx: "lane_index e2 = lane_index e0" "lane_index e = lane_index e0"
    using n2 n by (simp_all add: lane_index_def fun_eq_iff)
  have lane: "log_file (d j) = log_bytes (log_of (?ws j)) \<and> lane_log_ok (?ws j) \<and> lane_store (en_lanes e ! j) = store_after (?ws j) empty_store"
    if j: "j < en_numLanes e0" for j
  proof -
    have wf: "lane_wf (en_lanes e1 ! j)" using E1(2,3) j homedD(3) [of e1 j] by (simp add: engine_ok_def)
    from logs j have log: "log_file (logs (wal_dir cfg) j) = log_bytes (log_of (ws j))" "lane_log_ok (ws j)"
      by (simp_all add: logs_hold_def)
    from vs [OF j] l1 j saved have run: "lane_run (en_lanes e1 ! j) (vs j) (en_lanes e ! j)"
      and l1: "lane_store (en_lanes e1 ! j) = store_after (ws j) empty_store"
        "l_wal (en_lanes e1 ! j) = new_wal j False (256 * 1024) (logs (wal_dir cfg) j)"
      and s: "log_saved (l_wal (en_lanes e ! j)) (d j)" by blast+
    from lane_run_logs [OF run wf l1 log s] show ?thesis by blast
  qed
  have "2 * total_size (?ws j) \<le> ec_MemtableSize cfg" if "j < en_numLanes e0" for j
    using room vs [OF that] that by (simp add: total_size_append total_size_map [of "vs j"])
  moreover have "\<forall>(t, w)\<in>set (?ws j). lane_index e0 (write_key w) = j" if "j < en_numLanes e0" for j
  proof -
    have "lane_index e0 (write_key w) = j" if "(t, w) \<in> set (vs j)" for t w
    proof -
      from that have "w \<in> set (map snd (vs j))" by force
      with vs [OF \<open>j < en_numLanes e0\<close>] show ?thesis by (simp add: lane_part_def)
    qed
    with logs that show ?thesis by (auto simp: logs_hold_def)
  qed
  ultimately have hold: "logs_hold d (ec_MemtableSize cfg) e2 ?ws"
    using lane by (simp add: logs_hold_def n2 idx)
  from engine_start_store [OF open2(1) bounds(1) _ open2(2), of ?ws] hold obtain e3 where
    e3: "engine_start io4 e2 = (Inr (), e3)" "en_running e3" "engine_ok e3" "engine_store e3 = store_of_logs e2 ?ws" by blast
  have "engine_store e = store_of_logs e ?ws"
    by (rule engine_store_of_lanes) (use E lane n in \<open>simp_all add: engine_ok_def\<close>)
  also have "\<dots> = store_of_logs e2 ?ws" by (simp add: store_of_logs_def n n2 idx)
  finally show ?thesis using e3 hold vs by (intro exI [of _ e3] exI [of _ ?ws]) simp
qed

text \<open>
  C2: Restarts, while everything fits one table per lane.  An engine is opened on logs that hold
  some writes (an empty directory is the case of none), and serves a run of admissible requests
  (as for \<open>engine_refines_graph\<close>: each identifier created once, no flush), all of them
  acknowledged.  The records of each lane, old and new, take at most half of a memtable, so that
  no table rotates: recovery never rotates either, and counts a replaced record twice.  Every
  lane's log is then synced.  Whatever the process does next, an engine opened on the files with
  the same configuration starts and serves exactly the same graph.  Its logs again satisfy what
  was asked of the first ones, so this goes on for any number of restarts as long as there is
  room.  (Past that bound the next start can fail: theory \<open>Capacity\<close>.)
\<close>

theorem engine_survives_restart:
  assumes open1: "new_engine J io1 now1 logs (Some cfg) fs1 = (Inr e0, fs1')"
    and bounds: "ec_NumWriteLanes cfg < 2 ^ 32" "ec_MemtableSize cfg < 2 ^ 32"
    and logs: "logs_hold (logs (wal_dir cfg)) (ec_MemtableSize cfg) e0 ws"
    and start1: "engine_start io2 e0 = (Inr (), e1)" "io_open_ok io2"
    and run: "engine_run B e1 tr e" "\<forall>(t, rq, rp)\<in>set tr. acknowledged rp"
    and room: "\<forall>j < en_numLanes e0. 2 * (total_size (ws j) + part_size (lane_part e0 j (updates_of (engine_store e1) (asked tr))))
      \<le> ec_MemtableSize cfg"
    and synced: "\<forall>j < en_numLanes e0. wal_sync (io j) (l_wal (en_lanes e ! j)) = (Inr (), w j) \<and> crash_image (w j) (d j)"
    and open2: "new_engine J io3 now3 (\<lambda>_ j. Some (d j)) (Some cfg) fs2 = (Inr e2, fs2')" "io_open_ok io4"
  shows "\<exists>e3 ws'. engine_start io4 e2 = (Inr (), e3) \<and> en_running e3 \<and> engine_ok e3 \<and> engine_store e3 = engine_store e
    \<and> logs_hold (\<lambda>j. Some (d j)) (ec_MemtableSize cfg) e2 ws'
    \<and> (\<forall>j < en_numLanes e0. map snd (ws' j) = map snd (ws j) @ lane_part e0 j (updates_of (engine_store e1) (asked tr)))"
proof -
  have "\<forall>j < en_numLanes e0. log_saved (l_wal (en_lanes e ! j)) (Some (d j))"
    using synced by (blast intro: synced_saved)
  from engine_restart_core [OF open1 bounds logs start1 run room this open2] show ?thesis .
qed

lemma fresh_lanes:
  assumes new: "new_engine J io now (\<lambda>_ _. None) (Some cfg) fs = (Inr e0, fs')" and io: "io_open_ok io'"
  shows "\<exists>e1. engine_start io' e0 = (Inr (), e1) \<and> en_running e1 \<and> en_numLanes e1 = en_numLanes e0 \<and> en_lanes e1 = en_lanes e0"
proof -
  note N = new_engine_Inr [OF new]
  have "lane_recover io' l = (Inr (), l)" if l: "l \<in> set (en_lanes e0)" for l
  proof -
    from l N(3,4) obtain j where "l = new_write_lane j (ec_MemtableSize cfg) (new_wal j False (256 * 1024) None)"
      by (auto simp: in_set_conv_nth)
    then have "lane_recover io' l = replay_loop recover_entry [] l"
      using io by (simp add: lane_recover_def wal_replay_def new_wal_def new_write_lane_def Let_def)
    then show ?thesis by (subst (asm) replay_loop.simps) (simp add: deserialize_entry_def)
  qed
  then have "recover_lanes io' (en_lanes e0) = (Inr (), en_lanes e0)"
    by (intro recover_lanes_all list.rel_refl_strong) simp
  with N(6-8) show ?thesis by (simp add: engine_start_def flusher_start_def compactor_start_def)
qed

lemma fresh_start:
  assumes new: "new_engine (one_json d) io_fine 0 (\<lambda>_ _. None) (Some demo_config) Map.empty = (Inr e0, fs)"
  shows "\<exists>e1. engine_start io_fine e0 = (Inr (), e1) \<and> en_running e1 \<and> en_numLanes e1 = 1
    \<and> en_lanes e1 = [new_write_lane 0 1000 (new_wal 0 False (256 * 1024) None)]"
proof -
  note N = new_engine_Inr [OF new]
  have n: "en_numLanes e0 = 1" using N(2) by (simp add: demo_config_def)
  let ?l = "new_write_lane 0 1000 (new_wal 0 False (256 * 1024) None)"
  have lanes: "en_lanes e0 = [?l]" using N(3,4) n by (cases "en_lanes e0") (auto simp: demo_config_def)
  from fresh_lanes [OF new io_fine_ok(1)] n lanes show ?thesis by simp
qed

lemma demo_started:
  "\<exists>e0 fs e1. new_engine (one_json x) io_fine 0 (\<lambda>_ _. None) (Some demo_config) Map.empty = (Inr e0, fs)
     \<and> engine_start io_fine e0 = (Inr (), e1) \<and> en_running e1 \<and> en_numLanes e0 = 1 \<and> en_numLanes e1 = 1
     \<and> en_lanes e1 = [new_write_lane 0 1000 (new_wal 0 False (256 * 1024) None)]
     \<and> ec_NumWriteLanes demo_config < 2 ^ 32 \<and> ec_MemtableSize demo_config < 2 ^ 32
     \<and> logs_hold (\<lambda>_. None) (ec_MemtableSize demo_config) e0 (\<lambda>_. [])
     \<and> engine_store e1 = empty_store \<and> engine_ok e1"
proof -
  obtain e0 fs where e0: "new_engine (one_json x) io_fine 0 (\<lambda>_ _. None) (Some demo_config) Map.empty = (Inr e0, fs)"
    using demo_new_engine by blast
  have n: "en_numLanes e0 = 1" using new_engine_Inr(2) [OF e0] by (simp add: demo_config_def)
  have log0: "logs_hold (\<lambda>_. None) (ec_MemtableSize demo_config) e0 (\<lambda>_. [])"
    by (simp add: logs_hold_def lane_log_ok_def log_of_def total_size_def demo_config_def)
  have lim: "ec_NumWriteLanes demo_config < 2 ^ 32" "ec_MemtableSize demo_config < 2 ^ 32" by (simp_all add: demo_config_def)
  obtain e1 where e1: "engine_start io_fine e0 = (Inr (), e1)" "en_running e1" "en_numLanes e1 = 1"
    "en_lanes e1 = [new_write_lane 0 1000 (new_wal 0 False (256 * 1024) None)]"
    using fresh_start [OF e0] by blast
  have "engine_store e1 = empty_store \<and> engine_ok e1"
    using engine_start_store [OF e0 lim(1) log0 io_fine_ok(1)] e1(1)
    by (simp add: store_of_logs_def store_after_def empty_store_def)
  with e0 e1 n lim log0 show ?thesis by (intro exI conjI) (assumption | simp)+
qed

lemma demo_write_large:
  "\<exists>l. write_node io_fine 0 demo_node (new_write_lane 0 1000 (new_wal 0 False (256 * 1024) None)) = (Inr (), l)
    \<and> (\<exists>w. wal_sync io_fine (l_wal l) = (Inr (), w) \<and> crash_image w (wal_content w))"
proof -
  have crash: "w_durable w \<le> length (wal_content w) \<Longrightarrow> crash_image w (wal_content w)" for w
    by (auto simp: crash_image_def)
  from demo_node_facts(3) obtain bs where bs: "serialize_node demo_node = Inr bs" "length bs = 37" by blast
  have "\<exists>l. write_node io_fine 0 demo_node (new_write_lane 0 1000 (new_wal 0 False (256 * 1024) None)) = (Inr (), l)
    \<and> (\<exists>w. wal_sync io_fine (l_wal l) = (Inr (), w) \<and> w_durable w \<le> length (wal_content w))"
    by (simp add: write_node_def new_write_lane_def bs log_write_def wal_append_def new_wal_def new_bufio_def
        Let_def bufio_write.simps length_serialize_entry or_return_def demo_node_facts on_active_def
        on_error_def put_node_def mt_put_def mt_new_def slice_len_def node_key_def lit_def
        check_node_rotation_def wal_sync_def wal_flush_def bufio_flush_def wal_fsync_def io_fine_def
        wal_room_def file_write_def wal_content_def set_content_def)
  with crash show ?thesis by blast
qed

theorem engine_survives_restart_witness:
  "\<exists>J e0 fs e1 e w d e2 fs2 e3. new_engine J io_fine 0 (\<lambda>_ _. None) (Some demo_config) Map.empty = (Inr e0, fs)
     \<and> engine_start io_fine e0 = (Inr (), e1)
     \<and> engine_run tiny_bloom e1 [(time_unix 0, CreateNode demo_node, Done (Inr ()))] e
     \<and> wal_sync io_fine (l_wal (en_lanes e ! 0)) = (Inr (), w) \<and> crash_image w d
     \<and> new_engine J io_fine 0 (\<lambda>_ _. Some d) (Some demo_config) Map.empty = (Inr e2, fs2)
     \<and> engine_start io_fine e2 = (Inr (), e3) \<and> st_nodes (engine_store e3) [0x61] = Some (wire_node demo_node)"
proof -
  fix x
  let ?J = "one_json x" and ?tr = "[(time_unix 0, CreateNode demo_node, Done (Inr ()))]"
  obtain e0 fs e1 where e0: "new_engine ?J io_fine 0 (\<lambda>_ _. None) (Some demo_config) Map.empty = (Inr e0, fs)"
    and e1: "engine_start io_fine e0 = (Inr (), e1)" "en_running e1" "en_numLanes e1 = 1"
      "en_lanes e1 = [new_write_lane 0 1000 (new_wal 0 False (256 * 1024) None)]"
    and n: "en_numLanes e0 = 1" and lim: "ec_NumWriteLanes demo_config < 2 ^ 32" "ec_MemtableSize demo_config < 2 ^ 32"
    and log0: "logs_hold (\<lambda>_. None) (ec_MemtableSize demo_config) e0 (\<lambda>_. [])"
    and S1: "engine_store e1 = empty_store" "engine_ok e1"
    using demo_started [of x] by blast
  note open1 = e0 lim log0 e1(1) io_fine_ok(1)
  have idx: "lane_index e k = 0" if "en_numLanes e = 1" for e k using that by (simp add: lane_index_def)
  obtain l w where l: "write_node io_fine 0 demo_node (new_write_lane 0 1000 (new_wal 0 False (256 * 1024) None)) = (Inr (), l)"
    and w: "wal_sync io_fine (l_wal l) = (Inr (), w)" and crash: "crash_image w (wal_content w)"
    using demo_write_large by blast
  let ?e = "set_lane 0 l e1"
  have h: "handle io_fine 0 (time_unix 0) (\<lambda>ks. ks) (CreateNode demo_node) e1 = (Done (Inr ()), ?e)"
    using l e1(2-4) idx [OF e1(3)] by (simp add: create_node_def)
  have run: "engine_run tiny_bloom e1 ?tr ?e"
    using engine_run.request [OF engine_run.start _ _ h] demo_node_facts
    by (simp add: S1 empty_store_def map_order_def)
  have us: "updates_of (engine_store e1) [(time_unix 0, CreateNode demo_node)] = [WNode demo_node]"
    by (simp add: updates_of_def add_update_def)
  have room: "\<forall>j < en_numLanes e0. 2 * (total_size [] + part_size (lane_part e0 j (updates_of (engine_store e1) (asked ?tr))))
      \<le> ec_MemtableSize demo_config"
    using demo_node_facts by (auto simp: us lane_part_def idx [OF n] total_size_def part_size_def write_size_def
        data_of_def demo_config_def n)
  have lane: "en_lanes ?e ! 0 = l" using e1(4) by (simp add: set_lane_def)
  let ?d = "wal_content w"
  obtain e2 fs2 where e2: "new_engine ?J io_fine 0 (\<lambda>_ _. Some ?d) (Some demo_config) Map.empty = (Inr e2, fs2)"
    using demo_new_engine by blast
  from engine_survives_restart [OF open1 run _ room _ e2 io_fine_ok(1), of "\<lambda>_. io_fine" "\<lambda>_. w"] w crash n lane
  obtain e3 where "engine_start io_fine e2 = (Inr (), e3)" "engine_store e3 = engine_store ?e"
    by (auto simp: succeeded_def)
  moreover have "engine_store ?e = apply_write (WNode demo_node) empty_store"
    using engine_run_refines [OF run S1(2) e1(2)] by (simp add: S1(1) succeeded_def)
  ultimately show ?thesis using e0 e1(1) run w lane crash e2 demo_node_facts
    by (intro exI conjI) (assumption | simp)+
qed

end
