(* ===== verification/Engine_Progress.thy ===== *)
theory Engine_Progress
  imports Engine_Restart
begin

text \<open>
  Progress of the engine.  No write to a lane panics while its tables hold no tombstone, and on a
  file system without faults every well-formed request is acknowledged while the records fit
  the tables.
\<close>

section \<open>No write panics\<close>

text \<open>
  The one panic a write could meet is \<open>Put\<close>'s type assertion on a tombstone.  An engine never
  deletes, so no table of its lanes holds one: this is the invariant.
\<close>

definition tidy :: "memtable \<Rightarrow> bool" where
  "tidy m \<longleftrightarrow> SvNil \<notin> ran (mt_data m)"

definition lane_tidy :: "lane \<Rightarrow> bool" where
  "lane_tidy l \<longleftrightarrow> tidy (l_active l) \<and> tidy (l_activeEdges l) \<and> tidy (l_activeAdj l)
     \<and> \<not> w_direct (l_wal l)"

definition engine_tidy :: "engine \<Rightarrow> bool" where
  "engine_tidy e \<longleftrightarrow> list_all lane_tidy (en_lanes e)"

fun calm_result :: "unit res \<Rightarrow> bool" where
  "calm_result (Inl e) \<longleftrightarrow> \<not> is_panic e"
| "calm_result (Inr _) \<longleftrightarrow> True"

definition calm :: "unit res \<times> lane \<Rightarrow> bool" where
  "calm r \<longleftrightarrow> calm_result (fst r) \<and> lane_tidy (snd r)"

named_theorems calm_intro \<open>steps that keep a lane tidy and do not panic\<close>

lemma calm_wrapE [simp]: "calm_result (wrapE msg r) = calm_result r"
  by (cases r) (auto simp: wrapE_def split: go_error.splits)

lemma is_panic_wrapE: "wrapE msg (Inl e) = Inl e' \<Longrightarrow> is_panic e' = is_panic e"
  by (auto simp: wrapE_def split: go_error.splits)

lemma tidy_new [simp]: "tidy (mt_new sz)"
  by (simp add: tidy_def mt_new_def)

lemma mt_put_calm: "tidy m \<Longrightarrow> mt_put k v m = (r, m') \<Longrightarrow> tidy m' \<and> calm_result r"
  by (auto simp: mt_put_def tidy_def Let_def ran_def split: if_splits option.splits stored.splits)

lemma serialize_calm:
  "serialize_node n = Inl er \<Longrightarrow> \<not> is_panic er" "serialize_edge d = Inl er \<Longrightarrow> \<not> is_panic er"
  by (auto simp: serialize_node_fails serialize_edge_fails)

lemma wrap_calm:
  "wrapE msg (serialize_node n) = Inl er \<Longrightarrow> \<not> is_panic er"
  "wrapE msg (serialize_edge d) = Inl er \<Longrightarrow> \<not> is_panic er"
  by (auto simp: wrapE_def dest: serialize_calm split: sum.splits go_error.splits)

lemma put_calm:
  "tidy m \<Longrightarrow> put_node n m = (r, m') \<Longrightarrow> tidy m' \<and> calm_result r"
  "tidy m \<Longrightarrow> put_edge d m = (r, m') \<Longrightarrow> tidy m' \<and> calm_result r"
  by (auto simp: put_node_def put_edge_def dest: mt_put_calm wrap_calm split: sum.splits)

lemma on_active_calm [calm_intro]: "lane_tidy l \<Longrightarrow> calm (on_active (put_node n) l)"
  by (auto simp: calm_def on_active_def lane_tidy_def dest: put_calm split: prod.splits)

lemma on_edges_calm [calm_intro]: "lane_tidy l \<Longrightarrow> calm (on_edges (put_edge d) l)"
  by (auto simp: calm_def on_edges_def lane_tidy_def dest: put_calm split: prod.splits)

lemma add_out_calm [calm_intro]: "lane_tidy l \<Longrightarrow> calm (add_out d l)"
  by (auto simp: calm_def add_out_def on_adj_def lane_tidy_def add_outgoing_edge_def Let_def
      dest: mt_put_calm split: prod.splits)

lemma add_in_calm [calm_intro]: "lane_tidy l \<Longrightarrow> calm (add_in d l)"
  by (auto simp: calm_def add_in_def on_adj_def lane_tidy_def add_incoming_edge_def Let_def
      dest: mt_put_calm split: prod.splits)

lemma rotate_tidy [calm_intro]: "lane_tidy l \<Longrightarrow> lane_tidy (rotate_memtable l)"
  by (simp add: lane_tidy_def rotate_memtable_def)

lemma done_calm [calm_intro]: "lane_tidy l \<Longrightarrow> calm (Inr (), l)"
  by (simp add: calm_def)

lemma check_rotation_calm [calm_intro]:
  "lane_tidy l \<Longrightarrow> calm (check_node_rotation l)" "lane_tidy l \<Longrightarrow> calm (check_edge_rotation l)"
  by (simp_all add: calm_def check_node_rotation_def check_edge_rotation_def rotate_tidy)

lemma on_error_calm [calm_intro]:
  "calm r \<Longrightarrow> (\<And>l. lane_tidy l \<Longrightarrow> calm (h l)) \<Longrightarrow> (\<And>l. lane_tidy l \<Longrightarrow> calm (c l)) \<Longrightarrow> calm (on_error r h c)"
  by (auto simp: on_error_def calm_def split: prod.splits sum.splits)

lemma or_return_calm [calm_intro]:
  "calm r \<Longrightarrow> (\<And>l. lane_tidy l \<Longrightarrow> calm (c l)) \<Longrightarrow> calm (or_return msg r c)"
  by (auto simp: or_return_def calm_def split: prod.splits sum.splits)

lemma log_write_calm [calm_intro]: "lane_tidy l \<Longrightarrow> calm (log_write io now ty k v l)"
  by (auto simp: calm_def log_write_def lane_tidy_def wal_append_def Let_def split: prod.splits sum.splits if_splits)

lemma write_node_calm [calm_intro]: "lane_tidy l \<Longrightarrow> calm (write_node io now n l)"
  unfolding write_node_def
  by (simp add: calm_def [of "(Inl e, l)" for e] wrap_calm split: sum.split) (intro conjI impI allI; (rule wrap_calm | intro calm_intro); assumption)

lemma update_adjacency_calm [calm_intro]: "lane_tidy l \<Longrightarrow> calm (update_adjacency d l)"
  unfolding update_adjacency_def by (intro calm_intro)

lemma write_edge_calm [calm_intro]: "lane_tidy l \<Longrightarrow> calm (write_edge io now d l)"
  unfolding write_edge_def
  by (simp add: calm_def [of "(Inl e, l)" for e] wrap_calm split: sum.split) (intro conjI impI allI; (rule wrap_calm | intro calm_intro); assumption)

definition same_handle :: "wal \<Rightarrow> wal \<Rightarrow> bool" where
  "same_handle w w' \<longleftrightarrow> w_open w' = w_open w \<and> w_closed w' = w_closed w \<and> w_direct w' = w_direct w"

lemma wal_sync_frame: "wal_sync io w = (r, w') \<Longrightarrow> same_handle w w'"
proof -
  have flush: "same_handle w (snd (wal_flush io w))" and sync: "same_handle v (snd (wal_fsync io v))" for v
    by (simp_all add: wal_flush_def wal_fsync_def same_handle_def split: prod.split)
  obtain p w1 where p: "wal_flush io w = (p, w1)" by force
  obtain q w2 where q: "wal_fsync io w1 = (q, w2)" by force
  have "same_handle w (snd (wal_sync io w))"
    using flush sync [of w1] p q by (cases p; cases q) (simp_all add: wal_sync_def same_handle_def)
  then show "wal_sync io w = (r, w') \<Longrightarrow> same_handle w w'" by simp
qed

lemma engine_tidy_set_lane: "engine_tidy e \<Longrightarrow> lane_tidy l \<Longrightarrow> engine_tidy (set_lane j l e)"
  by (auto simp: engine_tidy_def set_lane_def list_all_iff dest!: set_update_subset_insert [THEN subsetD])

section \<open>Healthy lanes accept writes\<close>

definition wal_healthy :: "wal \<Rightarrow> bool" where
  "wal_healthy w \<longleftrightarrow> w_open w \<and> \<not> w_closed w \<and> \<not> w_direct w \<and> \<not> b_err (w_writer w)"

definition lane_live :: "int \<Rightarrow> int \<Rightarrow> lane \<Rightarrow> bool" where
  "lane_live cap S l \<longleftrightarrow> lane_room cap S l \<and> \<not> l_stopped l \<and> l_memtableSize l = cap \<and> wal_healthy (l_wal l)"

lemma log_write_healthy:
  assumes "wal_healthy (l_wal l)" and "io_room io = None"
  shows "\<exists>w. log_write io now ty k v l = (Inr (), l\<lparr>l_wal := w\<rparr>) \<and> wal_healthy w"
proof -
  let ?data = "serialize_entry \<lparr>en_Type = ty, en_Key = k, en_Value = v, en_Checksum = 0, en_Timestamp = now\<rparr>"
  from bufio_write_unlimited [of "w_writer (l_wal l)" ?data "wal_content (l_wal l)"] assms
  obtain b f where "bufio_write None ?data (w_writer (l_wal l)) (wal_content (l_wal l)) = (True, b, f, None)" "\<not> b_err b"
    by (auto simp: wal_healthy_def)
  moreover obtain r w where w: "wal_append io now ty k v (l_wal l) = (r, w)" by force
  ultimately have "r = Inr ()" "wal_healthy w"
    using assms by (auto simp: wal_append_def wal_healthy_def wal_room_def Let_def)
  with w show ?thesis by (auto simp: log_write_def)
qed

lemma check_rotation_room:
  "lane_room cap S l \<Longrightarrow> S \<le> cap \<Longrightarrow> l_memtableSize l = cap \<Longrightarrow> check_node_rotation l = (Inr (), l)"
  "lane_room cap S l \<Longrightarrow> S \<le> cap \<Longrightarrow> l_memtableSize l = cap \<Longrightarrow> check_edge_rotation l = (Inr (), l)"
  by (auto simp: lane_room_def has_room_def check_node_rotation_def check_edge_rotation_def)

text \<open>
  While there is room a write puts its record into the active tables and rotates nothing; only
  the log can refuse it.
\<close>

lemma write_node_room:
  assumes room: "lane_room cap S l" and up: "\<not> l_stopped l" "l_memtableSize l = cap"
    and ser: "serialize_node n = Inr (data_of (WNode n))"
    and log: "log_write io now EntryTypeNode (n_ID n) (data_of (WNode n)) l = (Inr (), l\<lparr>l_wal := w\<rparr>)"
    and fits: "2 * (S + write_size (WNode n)) \<le> cap" and S: "0 \<le> S"
  shows "\<exists>m. write_node io now n l = (Inr (), l\<lparr>l_wal := w, l_active := m\<rparr>)
    \<and> lane_room cap (S + write_size (WNode n)) (l\<lparr>l_wal := w, l_active := m\<rparr>)
    \<and> mt_put (node_key (n_ID n)) (Some (data_of (WNode n))) (l_active l) = (Inr (), m)"
proof -
  obtain m where m: "mt_put (node_key (n_ID n)) (Some (data_of (WNode n))) (l_active l) = (Inr (), m)"
    and rm: "has_room cap (S + int (length (node_key (n_ID n))) + int (length (data_of (WNode n)))) m"
    using put_record_room [of cap S "l_active l" "node_key (n_ID n)" "data_of (WNode n)"] room fits S
    by (auto simp: lane_room_def write_size_def)
  let ?l = "l\<lparr>l_wal := w, l_active := m\<rparr>"
  have R: "lane_room cap (S + write_size (WNode n)) ?l"
    using room rm by (auto simp: lane_room_def write_size_def elim!: has_room_mono)
  have "on_active (put_node n) (l\<lparr>l_wal := w\<rparr>) = (Inr (), ?l)"
    using m ser by (simp add: on_active_def put_node_def)
  moreover have "check_node_rotation ?l = (Inr (), ?l)"
    by (rule check_rotation_room(1) [OF R]) (use fits S write_size_nonneg [of "WNode n"] up in simp_all)
  ultimately show ?thesis using log R up ser m by (simp add: write_node_def or_return_def on_error_def)
qed

lemma write_edge_room:
  assumes room: "lane_room cap S l" and up: "\<not> l_stopped l" "l_memtableSize l = cap"
    and ser: "serialize_edge d = Inr (data_of (WEdge d))"
    and log: "log_write io now EntryTypeEdge (e_ID d) (data_of (WEdge d)) l = (Inr (), l\<lparr>l_wal := w\<rparr>)"
    and fits: "2 * (S + write_size (WEdge d)) \<le> cap" and S: "0 \<le> S"
  shows "\<exists>m b. write_edge io now d l = (Inr (), l\<lparr>l_wal := w, l_activeEdges := m, l_activeAdj := b\<rparr>)
    \<and> lane_room cap (S + write_size (WEdge d)) (l\<lparr>l_wal := w, l_activeEdges := m, l_activeAdj := b\<rparr>)"
proof -
  let ?T = "S + (8 + int (length (e_FromNodeID d))) + int (length (e_ID d)) + 1"
  obtain m where m: "mt_put (edge_key (e_ID d)) (Some (data_of (WEdge d))) (l_activeEdges l) = (Inr (), m)"
    and rm: "has_room cap (S + int (length (edge_key (e_ID d))) + int (length (data_of (WEdge d)))) m"
    using put_record_room [of cap S "l_activeEdges l" "edge_key (e_ID d)" "data_of (WEdge d)"] room fits S
    by (auto simp: lane_room_def write_size_def)
  obtain a where a: "add_outgoing_edge (e_FromNodeID d) (e_ID d) (l_activeAdj l) = (Inr (), a)" and ra: "has_room cap ?T a"
    using adj_append_room [of cap S "l_activeAdj l" "adj_out_key (e_FromNodeID d)" "e_ID d"] room fits S
    by (auto simp: lane_room_def write_size_def add_outgoing_edge_eq add.assoc)
  obtain b where b: "add_incoming_edge (e_ToNodeID d) (e_ID d) a = (Inr (), b)"
    and rb: "has_room cap (?T + (7 + int (length (e_ToNodeID d))) + int (length (e_ID d)) + 1) b"
    using adj_append_room [of cap ?T a "adj_in_key (e_ToNodeID d)" "e_ID d"] ra fits S
    by (auto simp: write_size_def add_incoming_edge_eq add.assoc)
  let ?l1 = "l\<lparr>l_wal := w, l_activeEdges := m\<rparr>" and ?l2 = "l\<lparr>l_wal := w, l_activeEdges := m, l_activeAdj := a\<rparr>"
  let ?l3 = "l\<lparr>l_wal := w, l_activeEdges := m, l_activeAdj := b\<rparr>"
  have R: "lane_room cap (S + write_size (WEdge d)) ?l3"
    using room rm rb by (auto simp: lane_room_def write_size_def elim!: has_room_mono)
  have "on_edges (put_edge d) (l\<lparr>l_wal := w\<rparr>) = (Inr (), ?l1)" "add_out d ?l1 = (Inr (), ?l2)" "add_in d ?l2 = (Inr (), ?l3)"
    using m ser a b by (simp_all add: on_edges_def put_edge_def add_out_def add_in_def on_adj_def)
  moreover have "check_edge_rotation ?l3 = (Inr (), ?l3)"
    by (rule check_rotation_room(2) [OF R]) (use fits S write_size_nonneg [of "WEdge d"] up in simp_all)
  ultimately have "write_edge io now d l = (Inr (), ?l3)"
    using log up ser by (simp add: write_edge_def update_adjacency_def or_return_def on_error_def)
  with R show ?thesis by blast
qed

lemma write_node_live:
  assumes l: "lane_live cap S l" and ser: "serialize_node n = Inr (data_of (WNode n))" and io: "io_room io = None"
    and fits: "2 * (S + write_size (WNode n)) \<le> cap" and S: "0 \<le> S"
  shows "\<exists>l'. write_node io now n l = (Inr (), l') \<and> lane_live cap (S + write_size (WNode n)) l'"
proof -
  from l have room: "lane_room cap S l" and up: "\<not> l_stopped l" "l_memtableSize l = cap" "wal_healthy (l_wal l)"
    by (simp_all add: lane_live_def)
  from log_write_healthy [OF up(3) io] obtain w where
    w: "log_write io now EntryTypeNode (n_ID n) (data_of (WNode n)) l = (Inr (), l\<lparr>l_wal := w\<rparr>)" "wal_healthy w" by blast
  from write_node_room [OF room up(1,2) ser w(1) fits S] w(2) up show ?thesis by (auto simp: lane_live_def)
qed

lemma write_edge_live:
  assumes l: "lane_live cap S l" and ser: "serialize_edge d = Inr (data_of (WEdge d))" and io: "io_room io = None"
    and fits: "2 * (S + write_size (WEdge d)) \<le> cap" and S: "0 \<le> S"
  shows "\<exists>l'. write_edge io now d l = (Inr (), l') \<and> lane_live cap (S + write_size (WEdge d)) l'"
proof -
  from l have room: "lane_room cap S l" and up: "\<not> l_stopped l" "l_memtableSize l = cap" "wal_healthy (l_wal l)"
    by (simp_all add: lane_live_def)
  from log_write_healthy [OF up(3) io] obtain w where
    w: "log_write io now EntryTypeEdge (e_ID d) (data_of (WEdge d)) l = (Inr (), l\<lparr>l_wal := w\<rparr>)" "wal_healthy w" by blast
  from write_edge_room [OF room up(1,2) ser w(1) fits S] w(2) up show ?thesis by (auto simp: lane_live_def)
qed

lemma do_write_live:
  assumes "lane_live cap S l" and "write_data w = Inr (data_of w)" and "io_room io = None"
    and "2 * (S + write_size w) \<le> cap" and "0 \<le> S"
  shows "\<exists>l'. do_write io now w l = (Inr (), l') \<and> lane_live cap (S + write_size w) l'"
  using assms write_node_live write_edge_live by (cases w) simp_all

text \<open>What the node table of a lane holds after the writes of a run, byte for byte.\<close>

fun table_write :: "update \<Rightarrow> (bytes \<rightharpoonup> stored) \<Rightarrow> (bytes \<rightharpoonup> stored)" where
  "table_write (WNode n) m = m(node_key (n_ID n) \<mapsto> SvBytes (Some (data_of (WNode n))))"
| "table_write (WEdge d) m = m"

definition lane_holds :: "int \<Rightarrow> int \<Rightarrow> nat \<Rightarrow> (bytes \<rightharpoonup> stored) \<Rightarrow> lane \<Rightarrow> bool" where
  "lane_holds cap S i d l \<longleftrightarrow> lane_room cap S l \<and> l_memtableSize l = cap \<and> l_id l = i \<and> l_old l = [] \<and> mt_data (l_active l) = d"

lemma log_write_Inr:
  assumes "log_write io now ty k v l = (Inr (), l')"
  shows "\<exists>w. l' = l\<lparr>l_wal := w\<rparr>"
  using assms by (auto simp: log_write_def split: prod.splits)

lemma do_write_holds:
  assumes run: "do_write io now w l = (Inr (), l')" and l: "lane_holds cap S i d l"
    and fits: "2 * (S + write_size w) \<le> cap" and S: "0 \<le> S"
  shows "lane_holds cap (S + write_size w) i (table_write w d) l'"
proof (cases w)
  case (WNode n)
  from run WNode obtain bs l1 where up: "\<not> l_stopped l" and ser: "serialize_node n = Inr bs"
    and log: "log_write io now EntryTypeNode (n_ID n) bs l = (Inr (), l1)"
    by (auto simp: write_node_def or_return_def wrapE_Inr_iff split: if_splits sum.splits prod.splits)
  then have bs: "bs = data_of (WNode n)" by (simp add: data_of_def)
  from log_write_Inr [OF log] obtain v where v: "l1 = l\<lparr>l_wal := v\<rparr>" ..
  from l have "lane_room cap S l" "l_memtableSize l = cap" by (simp_all add: lane_holds_def)
  from write_node_room [OF this(1) up this(2) ser [unfolded bs] log [unfolded bs v] fits [unfolded WNode] S]
  obtain m where m: "write_node io now n l = (Inr (), l\<lparr>l_wal := v, l_active := m\<rparr>)"
    "lane_room cap (S + write_size (WNode n)) (l\<lparr>l_wal := v, l_active := m\<rparr>)"
    "mt_put (node_key (n_ID n)) (Some (data_of (WNode n))) (l_active l) = (Inr (), m)" by blast
  from m(3) have "mt_data m = (mt_data (l_active l))(node_key (n_ID n) \<mapsto> SvBytes (Some (data_of (WNode n))))"
    by (auto simp: mt_put_def Let_def split: if_splits option.splits stored.splits)
  moreover from run WNode m(1) have l': "l' = l\<lparr>l_wal := v, l_active := m\<rparr>" by simp
  ultimately show ?thesis using l m(2) by (simp add: l' WNode lane_holds_def)
next
  case (WEdge e)
  from run WEdge obtain bs l1 where up: "\<not> l_stopped l" and ser: "serialize_edge e = Inr bs"
    and log: "log_write io now EntryTypeEdge (e_ID e) bs l = (Inr (), l1)"
    by (auto simp: write_edge_def or_return_def wrapE_Inr_iff split: if_splits sum.splits prod.splits)
  then have bs: "bs = data_of (WEdge e)" by (simp add: data_of_def)
  from log_write_Inr [OF log] obtain v where v: "l1 = l\<lparr>l_wal := v\<rparr>" ..
  from l have "lane_room cap S l" "l_memtableSize l = cap" by (simp_all add: lane_holds_def)
  from write_edge_room [OF this(1) up this(2) ser [unfolded bs] log [unfolded bs v] fits [unfolded WEdge] S]
  show ?thesis using run l WEdge by (auto simp: lane_holds_def)
qed

lemma lane_run_holds:
  assumes "lane_run l0 ws l" and "lane_holds cap 0 i d l0" and "2 * total_size ws \<le> cap"
  shows "lane_holds cap (total_size ws) i (fold table_write (map snd ws) d) l"
  using assms
proof (induction rule: lane_run.induct)
  case start
  then show ?case by (simp add: total_size_def)
next
  case (put ws l w io now l')
  from put.prems(2) write_size_nonneg [of w] have "2 * total_size ws \<le> cap" by (simp add: total_size_def)
  from do_write_holds [OF put.hyps(3) put.IH [OF put.prems(1) this]] put.prems(2) total_size_nonneg [of ws]
  show ?case by (simp add: total_size_def)
qed (simp add: lane_holds_def lane_room_def)

section \<open>A healthy engine serves\<close>

text \<open>
  A client's script: requests one after the other, each with the file system's behaviour, the
  clock and the map order of its call.  \<open>script_ok\<close> asks that the file system is healthy and
  each request well formed in the graph it meets.
\<close>

type_synonym call = "wal_io \<times> u64 \<times> gotime \<times> (bytes list \<Rightarrow> bytes list) \<times> request"

primrec serve :: "call list \<Rightarrow> engine \<Rightarrow> reply list \<times> engine" where
  "serve [] e = ([], e)"
| "serve (c # cs) e =
     (case c of (io, now, t, ord, rq) \<Rightarrow> case handle io now t ord rq e of (rp, e') \<Rightarrow> apfst ((#) rp) (serve cs e'))"

definition request_of :: "call \<Rightarrow> gotime \<times> request" where
  "request_of c = (case c of (io, now, t, ord, rq) \<Rightarrow> (t, rq))"

definition trace_of :: "call list \<Rightarrow> reply list \<Rightarrow> (gotime \<times> request \<times> reply) list" where
  "trace_of cs rps = map (\<lambda>(c, rp). case request_of c of (t, rq) \<Rightarrow> (t, rq, rp)) (zip cs rps)"

definition well_formed :: "gotime \<Rightarrow> request \<Rightarrow> store \<Rightarrow> bool" where
  "well_formed t rq s \<longleftrightarrow> admissible t rq s \<and> \<not> dangling rq s
     \<and> (case written t rq s of None \<Rightarrow> True | Some w \<Rightarrow> succeeds (write_data w))"

primrec script_ok :: "call list \<Rightarrow> store \<Rightarrow> bool" where
  "script_ok [] s \<longleftrightarrow> True"
| "script_ok (c # cs) s \<longleftrightarrow> (case c of (io, now, t, ord, rq) \<Rightarrow> io_room io = None \<and> map_order ord
     \<and> well_formed t rq s \<and> script_ok cs (fst (add_update (t, rq) (s, []))))"

definition engine_live :: "int \<Rightarrow> (nat \<Rightarrow> int) \<Rightarrow> engine \<Rightarrow> bool" where
  "engine_live cap S e \<longleftrightarrow> (\<forall>j < en_numLanes e. 0 \<le> S j \<and> lane_live cap (S j) (en_lanes e ! j))"

lemma fold_add_update: "fold add_update rqs (s, us) = apsnd ((@) us) (fold add_update rqs (s, []))"
proof (induction rqs arbitrary: s us)
  case (Cons x rqs)
  obtain t rq where x: "x = (t, rq)" by force
  show ?case
  proof (cases "written t rq s")
    case (Some w)
    with Cons [of "apply_write w s" "us @ [w]"] Cons [of "apply_write w s" "[w]"] show ?thesis
      by (simp add: x add_update_def apsnd_def map_prod_def split: prod.splits)
  qed (use Cons [of s us] in \<open>simp add: x add_update_def\<close>)
qed (simp add: apsnd_def)

lemma updates_of_Cons:
  "updates_of s ((t, rq) # rqs) =
     snd (add_update (t, rq) (s, [])) @ updates_of (fst (add_update (t, rq) (s, []))) rqs"
proof -
  obtain s1 us where x: "add_update (t, rq) (s, []) = (s1, us)" by force
  show ?thesis
    unfolding updates_of_def fold_Cons comp_def x by (subst fold_add_update) simp
qed

lemma wrote_live:
  assumes w: "wrote io now e w r e'" and L: "lanes_ok e" and live: "engine_live cap S e"
    and data: "succeeds (write_data w)" and io: "io_room io = None"
    and fits: "2 * (S (lane_index e (write_key w)) + write_size w) \<le> cap"
  shows "r = Inr () \<and> engine_live cap (\<lambda>j. S j + part_size (lane_part e j [w])) e'"
proof -
  let ?j = "lane_index e (write_key w)"
  from w obtain l where l: "do_write io now w (en_lanes e ! ?j) = (r, l)" "en_lanes e' = (en_lanes e)[?j := l]"
    and n: "en_numLanes e' = en_numLanes e" by (auto simp: wrote_def home_def)
  have j: "?j < en_numLanes e" "length (en_lanes e) = en_numLanes e" using home_index [OF L] L by (simp_all add: lanes_ok_def)
  have "write_data w = Inr (data_of w)" using data by (auto simp: data_of_def succeeds_iff)
  from live j(1) have "lane_live cap (S ?j) (en_lanes e ! ?j)" "0 \<le> S ?j" by (simp_all add: engine_live_def)
  from do_write_live [OF this(1) \<open>write_data w = _\<close> io fits this(2)] obtain l' where
    l': "do_write io now w (en_lanes e ! ?j) = (Inr (), l')" "lane_live cap (S ?j + write_size w) l'" by blast
  have "0 \<le> S i + part_size (lane_part e i [w]) \<and> lane_live cap (S i + part_size (lane_part e i [w])) (en_lanes e' ! i)"
    if "i < en_numLanes e" for i
    using live that l l' j(2) write_size_nonneg [of w]
    by (cases "i = ?j") (auto simp: engine_live_def lane_part_def part_size_def)
  with l l' n show ?thesis by (auto simp: engine_live_def)
qed

lemma handle_live:
  assumes E: "engine_ok e" "en_running e" and live: "engine_live cap S e" and ok: "well_formed t rq (engine_store e)"
    and io: "io_room io = None" and ord: "map_order ord"
    and fits: "\<forall>w. written t rq (engine_store e) = Some w \<longrightarrow> 2 * (S (lane_index e (write_key w)) + write_size w) \<le> cap"
    and run: "handle io now t ord rq e = (rp, e')"
  shows "acknowledged rp \<and> \<not> panicked rp \<and> en_numLanes e' = en_numLanes e
    \<and> engine_live cap (\<lambda>j. S j + part_size (lane_part e j (snd (add_update (t, rq) (engine_store e, []))))) e'"
proof (cases rule: handle_outcome [OF E ord run])
  case 1
  with live show ?thesis by (simp add: add_update_def lane_part_def part_size_def unwritten_def engine_live_def)
next
  case 2
  with ok show ?thesis by (simp add: well_formed_def)
next
  case (3 w r)
  from E have L: "lanes_ok e" by (simp add: engine_ok_def)
  from 3(2) ok have "succeeds (write_data w)" by (simp add: well_formed_def)
  from wrote_live [OF 3(4) L live this io] fits 3(2) have "r = Inr ()"
    "engine_live cap (\<lambda>j. S j + part_size (lane_part e j [w])) e'" by simp_all
  with 3 show ?thesis by (simp add: add_update_def succeeded_def wrote_def)
qed

lemma serve_live:
  assumes "engine_ok e" and "en_running e" and "engine_live cap S e" and "script_ok cs (engine_store e)"
    and "\<forall>j < en_numLanes e. 2 * (S j + part_size (lane_part e j (updates_of (engine_store e) (map request_of cs)))) \<le> cap"
    and "serve cs e = (rps, e')"
  shows "length rps = length cs \<and> list_all acknowledged rps \<and> engine_ok e' \<and> en_running e'
    \<and> engine_store e' = fst (fold add_update (map request_of cs) (engine_store e, []))
    \<and> spec_run (engine_store e) (trace_of cs rps) (engine_store e')
    \<and> (\<exists>S'. engine_live cap S' e') \<and> (\<forall>tr. engine_run B x tr e \<longrightarrow> engine_run B x (tr @ trace_of cs rps) e')"
  using assms
proof (induction cs arbitrary: e S rps)
  case (Cons c cs)
  obtain io now t ord rq where c: "c = (io, now, t, ord, rq)" by (metis prod.exhaust)
  obtain rp e1 where h: "handle io now t ord rq e = (rp, e1)" by force
  from Cons.prems(6) obtain rps' where s: "serve cs e1 = (rps', e')" "rps = rp # rps'"
    by (auto simp: c h apfst_def map_prod_def split: prod.splits)
  let ?s1 = "fst (add_update (t, rq) (engine_store e, []))" and ?us = "snd (add_update (t, rq) (engine_store e, []))"
  from Cons.prems(4) have ok: "io_room io = None" "map_order ord" "well_formed t rq (engine_store e)" "script_ok cs ?s1"
    by (simp_all add: c)
  have us: "updates_of (engine_store e) (map request_of (c # cs)) = ?us @ updates_of ?s1 (map request_of cs)"
    by (simp add: c request_of_def updates_of_Cons)
  have parts: "part_size (lane_part e j (updates_of (engine_store e) (map request_of (c # cs)))) =
      part_size (lane_part e j ?us) + part_size (lane_part e j (updates_of ?s1 (map request_of cs)))" for j
    by (simp only: us lane_part_append part_size_append)
  have fits: "2 * (S (lane_index e (write_key w)) + write_size w) \<le> cap" if "written t rq (engine_store e) = Some w" for w
  proof -
    from that have "?us = [w]" by (simp add: add_update_def)
    then have "part_size (lane_part e (lane_index e (write_key w)) ?us) = write_size w" by (simp add: lane_part_def part_size_def)
    moreover have "lane_index e (write_key w) < en_numLanes e" using Cons.prems(1) home_index by (simp add: engine_ok_def)
    ultimately show ?thesis
      using Cons.prems(5) parts part_size_nonneg [of "lane_part e (lane_index e (write_key w)) (updates_of ?s1 (map request_of cs))"]
      by fastforce
  qed
  note H = handle_live [OF Cons.prems(1-3) ok(3,1,2) _ h]
  from H fits have ack: "acknowledged rp" "\<not> panicked rp" "en_numLanes e1 = en_numLanes e"
    and live: "engine_live cap (\<lambda>j. S j + part_size (lane_part e j ?us)) e1" by blast+
  have adm: "admissible t rq (engine_store e)" using ok(3) by (simp add: well_formed_def)
  from handle_answers [OF Cons.prems(1,2) adm ok(2) h ack(2)]
  have E1: "engine_ok e1" "en_running e1" and ans: "answers t rq (engine_store e) rp (engine_store e1)" by blast+
  have st: "engine_store e1 = ?s1"
    using answers_written [OF ans ack(1)] by (simp add: add_update_def split: option.splits)
  have part: "lane_part e1 = lane_part e" using ack(3) by (simp add: lane_part_def lane_index_def fun_eq_iff)
  have "\<forall>j < en_numLanes e1. 2 * ((S j + part_size (lane_part e j ?us))
      + part_size (lane_part e1 j (updates_of (engine_store e1) (map request_of cs)))) \<le> cap"
    using Cons.prems(5) unfolding parts by (simp add: ack(3) part st add.assoc)
  from Cons.IH [OF E1 live ok(4) [folded st] this s(1)] have IH: "length rps' = length cs" "list_all acknowledged rps'"
    "engine_ok e'" "en_running e'" "engine_store e' = fst (fold add_update (map request_of cs) (engine_store e1, []))"
    "spec_run (engine_store e1) (trace_of cs rps') (engine_store e')" "\<exists>S'. engine_live cap S' e'"
    "\<And>tr. engine_run B x tr e1 \<Longrightarrow> engine_run B x (tr @ trace_of cs rps') e'" by blast+
  have "fst (fold add_update xs (s, us)) = fst (fold add_update xs (s, []))" for xs s us
    by (subst fold_add_update) simp
  then have "fst (fold add_update (map request_of (c # cs)) (engine_store e, [])) = engine_store e'"
    using IH(5) st by (simp add: c request_of_def) (metis prod.collapse)
  moreover have "spec_run (engine_store e) (trace_of (c # cs) rps) (engine_store e')"
    using ans IH(6) s(2) by (auto simp: trace_of_def c request_of_def)
  moreover have "engine_run B x (tr @ trace_of (c # cs) rps) e'" if "engine_run B x tr e" for tr
    using IH(8) [OF engine_run.request [OF that adm ok(2) h ack(2)]] s(2) by (simp add: trace_of_def c request_of_def)
  ultimately show ?case using IH(1-4,7) ack(1) s(2) by simp
qed (auto simp: trace_of_def)

text \<open>A started engine on a healthy file system, and the script it serves.\<close>

lemma serve_from_start:
  assumes new: "new_engine J io1 now1 logs (Some cfg) fs = (Inr e0, fs')" and lanes: "ec_NumWriteLanes cfg < 2 ^ 32"
    and logs: "logs_hold (logs (wal_dir cfg)) (ec_MemtableSize cfg) e0 ws"
    and start: "engine_start io2 e0 = (Inr (), e1)" "io_open_ok io2"
    and script: "script_ok cs (store_of_logs e0 ws)"
    and room: "\<forall>j < en_numLanes e0. 2 * (total_size (ws j) + part_size (lane_part e0 j (updates_of (store_of_logs e0 ws) (map request_of cs))))
      \<le> ec_MemtableSize cfg"
    and run: "serve cs e1 = (rps, e)"
  shows "length rps = length cs \<and> list_all acknowledged rps
    \<and> engine_store e = fst (fold add_update (map request_of cs) (store_of_logs e0 ws, []))
    \<and> spec_run (store_of_logs e0 ws) (trace_of cs rps) (engine_store e)
    \<and> en_running e \<and> engine_ok e \<and> (\<exists>S. engine_live (ec_MemtableSize cfg) S e) \<and> engine_run B e1 (trace_of cs rps) e
    \<and> engine_store e1 = store_of_logs e0 ws"
proof -
  from engine_start_store [OF new lanes logs start(2)] start(1)
  have E1: "en_running e1" "engine_ok e1" "en_numLanes e1 = en_numLanes e0" "engine_store e1 = store_of_logs e0 ws"
    and l: "\<forall>j < en_numLanes e0. l_wal (en_lanes e1 ! j) = new_wal j False (256 * 1024) (logs (wal_dir cfg) j)
        \<and> lane_room (ec_MemtableSize cfg) (total_size (ws j)) (en_lanes e1 ! j)
        \<and> \<not> l_stopped (en_lanes e1 ! j) \<and> l_memtableSize (en_lanes e1 ! j) = ec_MemtableSize cfg" by auto
  have "wal_healthy (new_wal i False sz d)" for i sz d by (simp add: wal_healthy_def new_wal_def new_bufio_def Let_def)
  with l have live: "engine_live (ec_MemtableSize cfg) (\<lambda>j. total_size (ws j)) e1"
    by (simp add: engine_live_def lane_live_def total_size_nonneg E1(3))
  have "lane_part e1 = lane_part e0" using E1(3) by (simp add: lane_part_def lane_index_def fun_eq_iff)
  then have "\<forall>j < en_numLanes e1. 2 * (total_size (ws j) + part_size (lane_part e1 j (updates_of (engine_store e1) (map request_of cs))))
      \<le> ec_MemtableSize cfg" using room by (simp add: E1(3,4))
  from serve_live [OF E1(2,1) live script [folded E1(4)] this run, of B e1] engine_run.start [of B e1] show ?thesis
    unfolding E1(4) by fastforce
qed

text \<open>
  C6: A healthy engine serves.  An engine is opened on intact logs and started; a client's script
  runs against it on a file system that takes every write.  If each request is well formed in
  the graph it meets (fresh identifiers, existing end points, values the format has) and each
  lane's share of the records, twice over, fits one table, then every request is
  acknowledged, the replies are those of the graph, and in the end the graph has every record
  of the script.
\<close>

theorem healthy_engine_serves:
  assumes new: "new_engine J io1 now1 logs (Some cfg) fs = (Inr e0, fs')" and lanes: "ec_NumWriteLanes cfg < 2 ^ 32"
    and logs: "logs_hold (logs (wal_dir cfg)) (ec_MemtableSize cfg) e0 ws"
    and start: "engine_start io2 e0 = (Inr (), e1)" "io_open_ok io2"
    and script: "script_ok cs (store_of_logs e0 ws)"
    and room: "\<forall>j < en_numLanes e0. 2 * (total_size (ws j) + part_size (lane_part e0 j (updates_of (store_of_logs e0 ws) (map request_of cs))))
      \<le> ec_MemtableSize cfg"
    and run: "serve cs e1 = (rps, e)"
  shows "length rps = length cs \<and> list_all acknowledged rps
    \<and> engine_store e = fst (fold add_update (map request_of cs) (store_of_logs e0 ws, []))
    \<and> spec_run (store_of_logs e0 ws) (trace_of cs rps) (engine_store e)"
  using serve_from_start [where B = tiny_bloom, OF assms] by blast

theorem healthy_engine_serves_witness:
  "\<exists>J e0 fs e1 rps e. new_engine J io_fine 0 (\<lambda>_ _. None) (Some demo_config) Map.empty = (Inr e0, fs)
     \<and> engine_start io_fine e0 = (Inr (), e1)
     \<and> serve [(io_fine, 0, time_unix 0, \<lambda>ks. ks, CreateNode demo_node), (io_fine, 0, time_unix 0, \<lambda>ks. ks, GetNode [0x61])] e1 = (rps, e)
     \<and> list_all acknowledged rps \<and> length rps = 2 \<and> st_nodes (engine_store e) [0x61] = Some (wire_node demo_node)"
proof -
  fix x
  obtain e0 fs e1 where e0: "new_engine (one_json x) io_fine 0 (\<lambda>_ _. None) (Some demo_config) Map.empty = (Inr e0, fs)"
    and e1: "engine_start io_fine e0 = (Inr (), e1)" and n: "en_numLanes e0 = 1" and lim: "ec_NumWriteLanes demo_config < 2 ^ 32"
    and log0: "logs_hold (\<lambda>_. None) (ec_MemtableSize demo_config) e0 (\<lambda>_. [])"
    using demo_started [of x] by blast
  let ?cs = "[(io_fine, 0, time_unix 0, \<lambda>ks. ks, CreateNode demo_node), (io_fine, 0, time_unix 0, \<lambda>ks. ks, GetNode [0x61])] :: call list"
  have S: "store_of_logs e0 (\<lambda>_. []) = empty_store"
    by (simp add: store_of_logs_def store_after_def empty_store_def)
  obtain rps e where run: "serve ?cs e1 = (rps, e)" by force
  have idx: "lane_index e0 k = 0" for k using n by (simp add: lane_index_def)
  from demo_node_facts(3) obtain bs where bs: "serialize_node demo_node = Inr bs" "length bs = 37" by blast
  have "map_order (\<lambda>ks. ks)" by (simp add: map_order_def)
  moreover have "io_room io_fine = None" by (simp add: io_fine_def)
  ultimately have script: "script_ok ?cs (store_of_logs e0 (\<lambda>_. []))"
    using demo_node_facts(1) bs(1) by (simp add: S well_formed_def empty_store_def)
  have us: "updates_of empty_store (map request_of ?cs) = [WNode demo_node]"
    by (simp add: updates_of_def add_update_def request_of_def)
  have room: "\<forall>j < en_numLanes e0. 2 * (total_size [] + part_size (lane_part e0 j
      (updates_of (store_of_logs e0 (\<lambda>_. [])) (map request_of ?cs)))) \<le> ec_MemtableSize demo_config"
    unfolding S us using bs demo_node_facts(2) by (simp add: lane_part_def idx n total_size_def part_size_def write_size_def
        data_of_def demo_config_def)
  from healthy_engine_serves [OF e0 lim log0 e1 io_fine_ok(1) script room run]
  have R: "list_all acknowledged rps" "length rps = 2" "engine_store e = fst (fold add_update (map request_of ?cs) (empty_store, []))"
    by (simp_all add: S)
  from R(3) have "st_nodes (engine_store e) [0x61] = Some (wire_node demo_node)"
    using demo_node_facts(2) by (simp add: add_update_def request_of_def)
  with e0 e1 run R(1,2) show ?thesis by blast
qed

end
