(* ===== verification/Workers.thy ===== *)
theory Workers
  imports Engine_Progress
begin

text \<open>
  The background workers: the log's periodic sync (\<open>WAL.backgroundSync\<close>), the compactor's cycle
  (\<open>Compactor.backgroundCompaction\<close>) and the lane flusher (\<open>Engine.runLaneFlusher\<close>).  A worker is
  a loop around a \<open>select\<close>; it is a function of the list of events the select delivers, each
  with the file system's behaviour in its handler.  A handler's error is only printed.
\<close>

section \<open>The sync worker\<close>

text \<open>
  Between two events of the worker other goroutines append to the log, under its mutex; these
  calls are events of the list too.  The stop signal comes from \<open>Close\<close>, which has marked the log
  closed before: the worker's last \<open>Sync\<close> is refused, the worker is gone and no tick is received
  any more, then \<open>Close\<close> itself flushes, syncs and closes the file (\<open>wal_close\<close> is all of this).
\<close>

datatype log_event =
    Appended wal_io u64 byte bytes bytes
  | Ticked wal_io
  | Stopped wal_io

fun background_sync :: "bool \<Rightarrow> log_event list \<Rightarrow> wal \<Rightarrow> wal" where
  "background_sync alive [] w = w"
| "background_sync alive (Appended io now ty key v # evs) w =
     background_sync alive evs (snd (wal_append io now ty key v w))"
| "background_sync alive (Ticked io # evs) w =
     background_sync alive evs (if alive then snd (wal_sync io w) else w)"
| "background_sync alive (Stopped io # evs) w =
     background_sync False evs (snd (wal_close io w))"

fun acked :: "bool \<Rightarrow> log_event list \<Rightarrow> wal \<Rightarrow> entry list" where
  \<comment> \<open>the entries whose append reported success\<close>
  "acked alive [] w = []"
| "acked alive (Appended io now ty key v # evs) w =
     (case wal_append io now ty key v w of
        (Inr _, w') \<Rightarrow> wal_entry ty key v now # acked alive evs w'
      | (Inl _, w') \<Rightarrow> acked alive evs w')"
| "acked alive (Ticked io # evs) w = acked alive evs (if alive then snd (wal_sync io w) else w)"
| "acked alive (Stopped io # evs) w = acked False evs (snd (wal_close io w))"

fun event_ok :: "log_event \<Rightarrow> bool" where
  "event_ok (Appended io now ty key v) \<longleftrightarrow> str_ok key \<and> str_ok v"
| "event_ok _ \<longleftrightarrow> True"

fun is_stop :: "log_event \<Rightarrow> bool" where
  "is_stop (Stopped io) \<longleftrightarrow> True"
| "is_stop _ \<longleftrightarrow> False"

lemma closed_log:
  "w_closed w \<Longrightarrow> background_sync alive evs w = w \<and> acked alive evs w = []"
  by (induction alive evs w rule: background_sync.induct) (simp_all add: wal_append_def wal_sync_def wal_close_def)

text \<open>A close writes and syncs as a sync does, so a crash after it finds what one after a sync would.\<close>

lemma close_flush:
  "wal_flush io (w\<lparr>w_closed := b\<rparr>) = apsnd (\<lambda>w. w\<lparr>w_closed := b\<rparr>) (wal_flush io w)"
  "wal_fsync io (w\<lparr>w_closed := b\<rparr>) = apsnd (\<lambda>w. w\<lparr>w_closed := b\<rparr>) (wal_fsync io w)"
  by (simp_all add: wal_flush_def wal_fsync_def wal_room_def wal_content_def set_content_def split: prod.split)

lemma crash_image_cong:
  "wal_content w' = wal_content w \<Longrightarrow> w_durable w' = w_durable w \<Longrightarrow> crash_image w' d = crash_image w d"
  by (simp add: crash_image_def)

lemma close_as_sync:
  assumes "\<not> w_closed w"
  shows "crash_image (snd (wal_close io w)) d = crash_image (snd (wal_sync io w)) d"
proof (rule crash_image_cong)
  obtain r w1 where f: "wal_flush io w = (r, w1)" by force
  obtain q w2 where s: "wal_fsync io w1 = (q, w2)" by force
  show "wal_content (snd (wal_close io w)) = wal_content (snd (wal_sync io w))"
    "w_durable (snd (wal_close io w)) = w_durable (snd (wal_sync io w))"
    using assms f s by (cases r; cases q; simp add: wal_close_def wal_sync_def close_flush wal_content_def)+
qed

lemma closes: "w_closed (snd (wal_close io w))"
  by (auto simp: wal_close_def wal_flush_def wal_fsync_def split: prod.splits sum.splits)

lemma wal_run_trans:
  assumes "wal_run w1 es' w2" and "wal_run w0 es w1"
  shows "wal_run w0 (es @ es') w2"
  using assms
proof (induction rule: wal_run.induct)
  case (append es' w key v io now ty r w')
  from wal_run.append [OF append.IH [OF append.prems] append.hyps(2-4)] show ?case by (cases "r = Inr ()") simp_all
next
  case (sync es' w io r w')
  from wal_run.sync [OF sync.IH [OF sync.prems] sync.hyps(2)] show ?case .
qed simp

text \<open>Whatever the events, the file is one that appends and syncs alone could have left.\<close>

lemma background_sync_run:
  "list_all event_ok evs \<Longrightarrow> \<exists>w'. wal_run w (acked alive evs w) w'
     \<and> (\<forall>d. crash_image (background_sync alive evs w) d \<longrightarrow> crash_image w' d)
     \<and> (list_all (\<lambda>ev. \<not> is_stop ev) evs \<longrightarrow> w' = background_sync alive evs w)"
proof (induction alive evs w rule: background_sync.induct)
  case (2 alive io now ty key v evs w)
  obtain r w1 where a: "wal_append io now ty key v w = (r, w1)" by force
  from 2 obtain w' where w': "wal_run w1 (acked alive evs w1) w'" "\<forall>d. crash_image (background_sync alive evs w1) d \<longrightarrow> crash_image w' d"
    "list_all (\<lambda>ev. \<not> is_stop ev) evs \<longrightarrow> w' = background_sync alive evs w1" by (auto simp: a)
  from 2(2) have "wal_run w (if r = Inr () then [wal_entry ty key v now] else []) w1"
    using wal_run.append [OF wal_run.start _ _ a] by (cases "r = Inr ()") simp_all
  from wal_run_trans [OF w'(1) this] w'(2,3) show ?case by (cases r) (auto simp: a)
next
  case (3 alive io evs w)
  let ?w = "if alive then snd (wal_sync io w) else w"
  have "wal_run w [] ?w"
    using wal_run.sync [OF wal_run.start, of io w] by (cases "wal_sync io w") (auto intro: wal_run.start)
  moreover from 3 obtain w' where "wal_run ?w (acked alive evs ?w) w'" "\<forall>d. crash_image (background_sync alive evs ?w) d \<longrightarrow> crash_image w' d"
    "list_all (\<lambda>ev. \<not> is_stop ev) evs \<longrightarrow> w' = background_sync alive evs ?w" by auto
  ultimately show ?case using wal_run_trans [of ?w "acked alive evs ?w" w' w "[]"] by (intro exI [of _ w']) simp
next
  case (4 alive io evs w)
  have after: "background_sync alive (Stopped io # evs) w = snd (wal_close io w)" "acked alive (Stopped io # evs) w = []"
    using closed_log [OF closes] by simp_all
  show ?case
  proof (cases "w_closed w")
    case True
    then have "snd (wal_close io w) = w" by (simp add: wal_close_def)
    with after show ?thesis by (auto intro: wal_run.start)
  next
    case False
    have "wal_run w [] (snd (wal_sync io w))"
      using wal_run.sync [OF wal_run.start, of io w] by (cases "wal_sync io w") auto
    with close_as_sync [OF False] after show ?thesis by auto
  qed
qed (auto intro: wal_run.start)

lemma background_sync_append:
  "list_all (\<lambda>ev. \<not> is_stop ev) evs \<Longrightarrow>
     background_sync alive (evs @ evs') w = background_sync alive evs' (background_sync alive evs w)
     \<and> acked alive (evs @ evs') w = acked alive evs w @ acked alive evs' (background_sync alive evs w)"
  by (induction alive evs w rule: background_sync.induct) (auto split: prod.splits sum.splits)

lemma healthy_sync:
  assumes "buffered w" and "wal_healthy w" and "io_room io = None" and "io_sync_ok io"
  shows "fst (wal_sync io w) = Inr ()"
  using assms
  by (auto simp: wal_sync_def wal_flush_def wal_fsync_def wal_healthy_def wal_room_def bufio_flush_def file_write_def
      split: prod.splits)

lemma wal_append_frame: "wal_append io now ty k v w = (r, w') \<Longrightarrow> same_handle w w'"
  by (auto simp: wal_append_def same_handle_def Let_def split: if_splits prod.splits sum.splits)

lemma background_sync_frame:
  "list_all (\<lambda>ev. \<not> is_stop ev) evs \<Longrightarrow> same_handle w (background_sync alive evs w)"
proof (induction alive evs w rule: background_sync.induct)
  case (2 alive io now ty key v evs w)
  with wal_append_frame [of io now ty key v w] show ?case
    by (cases "wal_append io now ty key v w") (simp add: same_handle_def)
next
  case (3 alive io evs w)
  with wal_sync_frame [of io w] show ?case by (cases "wal_sync io w") (simp add: same_handle_def)
qed (simp_all add: same_handle_def)

text \<open>
  C8: One tick makes the log durable.  Clients append to a new log while its worker runs, with
  any interleaving and any faults.  If the worker has not been stopped and the writer has met
  no error, then at the next tick on a device that takes writes and syncs, everything
  acknowledged so far becomes durable: whatever happens afterwards, what a crash leaves holds
  all of it, then some of the later entries in order, then at most a part of one.
\<close>

theorem tick_makes_durable:
  assumes evs: "list_all event_ok evs1" "list_all event_ok evs2" "list_all (\<lambda>ev. \<not> is_stop ev) evs1"
    and w0: "w0 = new_wal lane False sz None" and w1: "w1 = background_sync True evs1 w0" "\<not> b_err (w_writer w1)"
    and io: "io_room io = None" "io_sync_ok io" and w2: "w2 = snd (wal_sync io w1)"
    and crash: "crash_image (background_sync True (evs1 @ Ticked io # evs2) w0) d"
  shows "\<exists>m \<le> length (acked True evs2 w2). \<exists>e j. j < length (serialize_entry e)
    \<and> d = log_bytes (acked True evs1 w0 @ take m (acked True evs2 w2)) @ take j (serialize_entry e)"
proof -
  note A = background_sync_append [OF evs(3), of True "Ticked io # evs2" w0]
  have run1: "wal_run w0 (acked True evs1 w0) w1" using background_sync_run [OF evs(1), of w0 True] evs(3) by (auto simp: w1)
  have fresh: "log_inv [] w0" by (simp add: w0 log_inv_new)
  from wal_run_log_inv [OF run1 fresh] have b: "buffered w1" by (simp add: log_inv_def)
  have "wal_healthy w1"
    using background_sync_frame [OF evs(3), of w0 True] w1 by (simp add: w0 wal_healthy_def same_handle_def new_wal_def Let_def)
  from healthy_sync [OF b this io] have sync: "wal_sync io w1 = (Inr (), w2)" by (simp add: w2 prod_eq_iff)
  have "crash_image (background_sync True evs2 w2) d" using crash A by (simp add: w1(1) [symmetric] w2)
  with background_sync_run [OF evs(2), of w2 True] obtain w3 where
    "wal_run w2 (acked True evs2 w2) w3" "crash_image w3 d" by blast
  from crash_image_entries [OF run1 fresh sync this] show ?thesis by blast
qed

theorem tick_makes_durable_witness:
  "\<exists>d. crash_image (background_sync True [Appended io_fine 0 EntryTypeNode [1] [2], Ticked io_fine] (new_wal 0 False 4096 None)) d
     \<and> take (length (log_bytes [wal_entry EntryTypeNode [1] [2] 0])) d = log_bytes [wal_entry EntryTypeNode [1] [2] 0]"
proof -
  let ?new = "new_wal 0 False 4096 None" and ?evs = "[Appended io_fine 0 EntryTypeNode [1] [2]]"
  obtain w1 where a: "wal_append io_fine 0 EntryTypeNode [1] [2] ?new = (Inr (), w1)" and e: "\<not> b_err (w_writer w1)"
    by (simp add: wal_append_def new_wal_def new_bufio_def Let_def bufio_write.simps length_serialize_entry
        io_fine_def wal_room_def)
  have w1: "background_sync True ?evs ?new = w1" "acked True ?evs ?new = [wal_entry EntryTypeNode [1] [2] 0]"
    by (simp_all add: a)
  let ?v = "background_sync True (?evs @ Ticked io_fine # []) ?new"
  have "list_all event_ok (?evs @ [Ticked io_fine])" by (simp add: str_ok_def)
  from background_sync_run [OF this, of ?new True] have "\<exists>es. wal_run ?new es ?v" by auto
  then have "buffered ?v" using wal_run_log_inv [OF _ log_inv_new] by (auto simp: log_inv_def simp del: background_sync.simps)
  then have crash: "crash_image ?v (wal_content ?v)" by (auto simp: crash_image_def buffered_def)
  have ok: "list_all event_ok ?evs" "list_all (\<lambda>ev. \<not> is_stop ev) ?evs" by (simp_all add: str_ok_def)
  have io: "io_room io_fine = None" "io_sync_ok io_fine" by (simp_all add: io_fine_def)
  from tick_makes_durable [OF ok(1) _ ok(2) refl w1(1) [symmetric] e io refl crash] w1(2) crash show ?thesis
    by (auto simp del: background_sync.simps)
qed

text \<open>
  C18: A write error in the log is final.  Once a flush has failed, be it for a moment, the
  writer's error is sticky: every later append is refused, every tick changes nothing, on any
  device, and a close does no more than mark the log closed.  What the failed flush left in the
  buffer, acknowledged or not, never reaches the file, and the worker only prints the error.
\<close>

theorem log_error_is_final:
  assumes "\<not> w_direct w" and "b_err (w_writer w)"
  shows "acked alive evs w = [] \<and> background_sync alive evs w = w\<lparr>w_closed := w_closed w \<or> list_ex is_stop evs\<rparr>"
proof -
  have same: "set_content w (wal_content w) = w_file w" for w
    by (simp add: set_content_def wal_content_def split: option.split)
  have app: "\<exists>er. wal_append io now ty k v w = (Inl er, w)" for io now ty k v
    using assms same [of w] by (simp add: wal_append_def bufio_write.simps [of _ _ "w_writer w"] Let_def)
  have sync: "snd (wal_sync io w) = w" for io
    using assms same [of w] by (simp add: wal_sync_def wal_flush_def bufio_flush_def)
  have close: "snd (wal_close io w) = w\<lparr>w_closed := True\<rparr>" for io
    using assms same [of w] by (simp add: wal_close_def close_flush) (simp add: wal_flush_def bufio_flush_def)
  show ?thesis
  proof (induction evs arbitrary: alive)
    case (Cons ev evs)
    show ?case
    proof (cases ev)
      case (Appended io now ty k v)
      with app [of io now ty k v] Cons show ?thesis by auto
    next
      case (Stopped io)
      with close closed_log [of "w\<lparr>w_closed := True\<rparr>" False evs] show ?thesis by simp
    qed (use Cons sync in simp_all)
  qed simp
qed

theorem log_error_is_final_witness:
  "\<exists>w. w = background_sync True [Appended io_fine 0 EntryTypeNode [1] [2], Ticked (io_fine\<lparr>io_room := Some 0\<rparr>)] (new_wal 0 False 4096 None)
     \<and> wal_content w = [] \<and> acked True [Appended io_fine 0 EntryTypeNode [1] [2], Ticked io_fine] w = []
     \<and> background_sync True [Appended io_fine 0 EntryTypeNode [1] [2], Ticked io_fine] w = w"
proof -
  let ?w = "background_sync True [Appended io_fine 0 EntryTypeNode [1] [2], Ticked (io_fine\<lparr>io_room := Some 0\<rparr>)] (new_wal 0 False 4096 None)"
  have "\<not> w_direct ?w \<and> b_err (w_writer ?w) \<and> wal_content ?w = []"
    by (simp add: wal_append_def new_wal_def new_bufio_def Let_def bufio_write.simps length_serialize_entry
        io_fine_def wal_room_def wal_sync_def wal_flush_def bufio_flush_def file_write_def serialize_entry_nonempty
        wal_content_def set_content_def)
  with log_error_is_final [of ?w] show ?thesis by (intro exI [of _ ?w]) (simp del: background_sync.simps acked.simps)
qed

section \<open>The compaction worker\<close>

text \<open>
  A tick runs one cycle, with the file system's behaviour, the result of the unstable sort and
  the clock; its error is printed.  A closed stop channel or a cancelled context ends the loop.
\<close>

datatype compact_event =
    CompactTick wal_io "table_info list \<Rightarrow> table_info list" u64
  | CompactStop

fun background_compaction :: "'b bloom \<Rightarrow> compact_event list \<Rightarrow> compactor \<Rightarrow> filesys \<Rightarrow> unit res \<times> compactor \<times> filesys" where
  "background_compaction B [] c fs = (Inr (), c, fs)"
| "background_compaction B (CompactTick io srt now # evs) c fs =
     (case run_compaction B io srt now c fs of
        (Inl e, c, fs) \<Rightarrow> if is_panic e then (Inl e, c, fs) else background_compaction B evs c fs
      | (Inr _, c, fs) \<Rightarrow> background_compaction B evs c fs)"
| "background_compaction B (CompactStop # evs) c fs = (Inr (), c, fs)"

fun sorts_by_size :: "compact_event \<Rightarrow> bool" where
  "sorts_by_size (CompactTick io srt now) \<longleftrightarrow> size_order srt"
| "sorts_by_size CompactStop \<longleftrightarrow> True"

text \<open>The cycles of a run of the worker that compacted, that is changed the table list.\<close>

fun compacted_cycles :: "'b bloom \<Rightarrow> compact_event list \<Rightarrow> compactor \<Rightarrow> filesys \<Rightarrow> nat" where
  "compacted_cycles B [] c fs = 0"
| "compacted_cycles B (CompactTick io srt now # evs) c fs =
     (case run_compaction B io srt now c fs of
        (Inl e, c', fs') \<Rightarrow> if is_panic e then 0 else compacted_cycles B evs c' fs'
      | (Inr _, c', fs') \<Rightarrow> (if cp_tables c' \<noteq> cp_tables c then 1 else 0) + compacted_cycles B evs c' fs')"
| "compacted_cycles B (CompactStop # evs) c fs = 0"

text \<open>A cycle compacts, and then it leaves fewer tables and is counted, or it leaves both alone.\<close>

lemma run_compaction_step:
  assumes "run_compaction B io srt now c fs = (r, c', fs')" and "size_order srt"
  shows "if r = Inr () \<and> cp_tables c' \<noteq> cp_tables c
    then Suc (length (cp_tables c')) \<le> length (cp_tables c) \<and> cp_totalCompactions c' = cp_totalCompactions c + 1
    else cp_tables c' = cp_tables c \<and> cp_totalCompactions c' = cp_totalCompactions c"
proof (cases "r = Inr () \<and> cp_tables c' \<noteq> cp_tables c")
  case True
  with assms have "compacts B (c, fs) (c', fs')" by (auto simp: compacts_def)
  from compacts_step [OF this] True show ?thesis by simp
next
  case False
  have done_: "r = Inr () \<and> cp_tables c' = filter (\<lambda>t. ti_Path t \<notin> ti_Path ` set ts) (cp_tables c) @ [t]"
    if "select_tables srt c = Inr ts" "\<not> length ts < 2" "should_compact c"
      "compact_tables B io now ts c fs = (Inr t, c1, fs1)" for ts t c1 fs1
    using assms(1) that compact_tables_frame [OF that(4)] by (auto simp: run_compaction_def remove_tables_def Let_def)
  have "Suc (length (cp_tables c')) \<le> length (cp_tables c)"
    if "select_tables srt c = Inr ts" "\<not> length ts < 2" "should_compact c"
      "compact_tables B io now ts c fs = (Inr t, c1, fs1)" for ts t c1 fs1
    using done_ [OF that] removed_tables [OF selected_tables [OF assms(2) that(1)]] that(2) by simp
  with done_ False have "\<nexists>ts t c1 fs1. select_tables srt c = Inr ts \<and> \<not> length ts < 2 \<and> should_compact c
      \<and> compact_tables B io now ts c fs = (Inr t, c1, fs1)" by fastforce
  moreover have frame: "cp_tables c1 = cp_tables c \<and> cp_totalCompactions c1 = cp_totalCompactions c"
    if "compact_tables B io now ts c fs = (q, c1, fs1)" for ts q c1 fs1
    using compact_tables_frame [OF that] by simp
  ultimately have "cp_tables c' = cp_tables c \<and> cp_totalCompactions c' = cp_totalCompactions c"
    using assms(1) by (auto simp: run_compaction_def split: if_splits sum.splits prod.splits dest!: frame)
  with False show ?thesis by simp
qed

text \<open>
  C38: The compaction worker comes to rest.  Between registrations, whatever the events, the
  strategy, the files and the faults, only finitely many ticks compact: if \<open>k\<close> cycles changed the
  table list, at least \<open>k\<close> tables fewer are left, since each replaces at least two tables by one,
  and \<open>totalCompactions\<close> has gone up by exactly \<open>k\<close> (as a 64-bit counter).  In particular there
  are at most as many such cycles as there were tables, however many ticks come.
\<close>

theorem background_compaction_settles:
  assumes "list_all sorts_by_size evs" and "background_compaction B evs c fs = (r, c', fs')"
  shows "compacted_cycles B evs c fs + length (cp_tables c') \<le> length (cp_tables c)
    \<and> cp_totalCompactions c' = cp_totalCompactions c + of_nat (compacted_cycles B evs c fs)"
  using assms
proof (induction B evs c fs rule: background_compaction.induct)
  case (2 B io srt now evs c fs)
  obtain r1 c1 fs1 where s: "run_compaction B io srt now c fs = (r1, c1, fs1)" by (metis prod.exhaust)
  from 2(3) have srt: "size_order srt" "list_all sorts_by_size evs" by simp_all
  note step = run_compaction_step [OF s srt(1)]
  show ?case
  proof (cases r1)
    case (Inl e)
    with 2(1) [of r1 "(c1, fs1)" e c1 fs1] 2(4) s srt(2) step show ?thesis by (cases "is_panic e") auto
  next
    case (Inr u)
    with 2(2) [of r1 "(c1, fs1)" u c1 fs1] 2(4) s srt(2) step show ?thesis by (auto split: if_splits)
  qed
qed auto

theorem background_compaction_settles_witness:
  "\<exists>c' fs'. background_compaction tiny_bloom [CompactTick io_fine (sort_key ti_Size) 0, CompactStop] demo_compactor demo_files
      = (Inr (), c', fs')
     \<and> compacted_cycles tiny_bloom [CompactTick io_fine (sort_key ti_Size) 0, CompactStop] demo_compactor demo_files = 1
     \<and> cp_totalCompactions c' = 1 \<and> length (cp_tables c') < 5"
proof -
  obtain c' fs' where one: "run_compaction tiny_bloom io_fine (sort_key ti_Size) 0 demo_compactor demo_files = (Inr (), c', fs')"
    and step: "compacts tiny_bloom (demo_compactor, demo_files) (c', fs')" using demo_compacts by auto
  then have run: "background_compaction tiny_bloom [CompactTick io_fine (sort_key ti_Size) 0, CompactStop] demo_compactor demo_files
      = (Inr (), c', fs')" by simp
  have start: "length (cp_tables demo_compactor) = 5" "cp_totalCompactions demo_compactor = 0"
    by (simp_all add: demo_compactor_def register_table_def new_compactor_def)
  from step one have cycles: "compacted_cycles tiny_bloom [CompactTick io_fine (sort_key ti_Size) 0, CompactStop] demo_compactor demo_files = 1"
    by (auto simp: compacts_def)
  have "list_all sorts_by_size [CompactTick io_fine (sort_key ti_Size) 0, CompactStop]"
    by (simp add: sort_key_size_order)
  from background_compaction_settles [OF this run] run cycles show ?thesis unfolding start by fastforce
qed

end
