(* ===== verification/Lifetimes.thy ===== *)
theory Lifetimes
  imports Engine_Progress
begin

text \<open>
  The database over the lifetimes of its processes: a process opens the logs the last one left,
  serves, and ends by \<open>Stop\<close> or by a crash after a sync.  Over any number of them the database
  is one graph, that of the acknowledged requests (\<open>database_is_one_graph\<close>).
\<close>

section \<open>Stopping a healthy engine\<close>

lemma wal_close_writes:
  assumes H: "wal_healthy w" and io: "io_room io = None" "io_sync_ok io" and inv: "log_inv es w"
  shows "wal_content (snd (wal_close io w)) = log_bytes es \<and> w_durable (snd (wal_close io w)) = length (log_bytes es)"
proof -
  from inv obtain d0 where d0: "w_file w = Some d0" by (auto simp: log_inv_def buffered_def)
  from inv H have "wal_content w @ b_buf (w_writer w) = log_bytes es"
    by (auto simp: log_inv_def wal_healthy_def wal_log_def)
  with H io d0 show ?thesis by (auto simp: wal_close_def wal_healthy_def wal_flush_def wal_room_def bufio_flush_def
        file_write_def wal_fsync_def set_content_def wal_content_def Let_def)
qed

lemma wal_close_saves:
  assumes "wal_healthy w" and "io_room io = None" "io_sync_ok io" and "crash_image (snd (wal_close io w)) d"
  shows "log_saved w (Some d)"
  using wal_close_writes [OF assms(1-3)] assms(4) by (fastforce simp: log_saved_def crash_image_def)

lemma engine_stop_lanes:
  assumes "en_running e" and "engine_stop B J io clock ord drained e = (r, e')"
  shows "en_lanes e' = map (lane_stop io) (en_lanes e) \<and> \<not> en_running e'"
  using assms by (auto simp: engine_stop_def Let_def split: prod.splits sum.splits)

lemma stop_saves:
  assumes live: "engine_live cap S e" and E: "engine_ok e" "en_running e"
    and stop: "engine_stop B J io clock ord drained e = (r, e')" "io_room io = None" "io_sync_ok io"
    and j: "j < en_numLanes e" and crash: "crash_image (l_wal (en_lanes e' ! j)) d"
  shows "log_saved (l_wal (en_lanes e ! j)) (Some d)"
proof -
  have len: "j < length (en_lanes e)" using E j by (simp add: engine_ok_def lanes_ok_def)
  from live j have up: "\<not> l_stopped (en_lanes e ! j)" "wal_healthy (l_wal (en_lanes e ! j))"
    by (simp_all add: engine_live_def lane_live_def)
  have "l_wal (en_lanes e' ! j) = snd (wal_close io (l_wal (en_lanes e ! j)))"
    using engine_stop_lanes [OF E(2) stop(1)] len up by (simp add: lane_stop_def)
  with wal_close_saves [OF up(2) stop(2,3)] crash show ?thesis by simp
qed

section \<open>Lifetimes\<close>

text \<open>
  \<open>lifetimes B J cfg logs tr\<close>: processes with the configuration \<open>cfg\<close>, one after the other, were
  asked and replied \<open>tr\<close>, and the log files they left are \<open>logs\<close>.  The first finds no files.
  A process that is stopped served a script on a healthy file system; one that crashes was
  syncing and compacting in between, its file system did as it liked, and its last sync of each
  lane succeeded.
\<close>

inductive lifetimes :: "'b bloom \<Rightarrow> json \<Rightarrow> engine_config \<Rightarrow> (nat \<Rightarrow> bytes option) \<Rightarrow> (gotime \<times> request \<times> reply) list \<Rightarrow> bool"
  for B J cfg where
  fresh: "lifetimes B J cfg (\<lambda>_. None) []"
| stopped: "lifetimes B J cfg logs tr \<Longrightarrow> new_engine J io1 now (\<lambda>_. logs) (Some cfg) fs = (Inr e0, fs') \<Longrightarrow>
     io_open_ok io2 \<Longrightarrow> engine_start io2 e0 = (Inr (), e1) \<Longrightarrow>
     script_ok cs (engine_store e1) \<Longrightarrow> serve cs e1 = (rps, e) \<Longrightarrow>
     engine_stop B J io clock ord drained e = (r, e') \<Longrightarrow> io_room io = None \<Longrightarrow> io_sync_ok io \<Longrightarrow>
     (\<And>j. j < en_numLanes e0 \<Longrightarrow> crash_image (l_wal (en_lanes e' ! j)) (d j)) \<Longrightarrow>
     lifetimes B J cfg (\<lambda>j. Some (d j)) (tr @ trace_of cs rps)"
| crashed: "lifetimes B J cfg logs tr \<Longrightarrow> new_engine J io1 now (\<lambda>_. logs) (Some cfg) fs = (Inr e0, fs') \<Longrightarrow>
     io_open_ok io2 \<Longrightarrow> engine_start io2 e0 = (Inr (), e1) \<Longrightarrow>
     engine_run B e1 tr' e \<Longrightarrow> \<forall>(t, rq, rp)\<in>set tr'. acknowledged rp \<Longrightarrow>
     (\<And>j. j < en_numLanes e0 \<Longrightarrow> wal_sync (io j) (l_wal (en_lanes e ! j)) = (Inr (), w j) \<and> crash_image (w j) (d j)) \<Longrightarrow>
     lifetimes B J cfg (\<lambda>j. Some (d j)) (tr @ tr')"

definition graph_of :: "(gotime \<times> request \<times> reply) list \<Rightarrow> store" where
  "graph_of tr = fst (fold add_update (asked tr) (empty_store, []))"

definition records_of :: "(gotime \<times> request \<times> reply) list \<Rightarrow> update list" where
  "records_of tr = updates_of empty_store (asked tr)"

lemma asked_append: "asked (tr @ tr') = asked tr @ asked tr'"
  by (simp add: asked_def)

lemma graph_of_Nil [simp]: "graph_of [] = empty_store" "records_of [] = []"
  by (simp_all add: graph_of_def records_of_def updates_of_def)

lemma graph_of_append:
  "graph_of (tr @ tr') = fst (fold add_update (asked tr') (graph_of tr, []))"
  "records_of (tr @ tr') = records_of tr @ updates_of (graph_of tr) (asked tr')"
proof -
  obtain s us where x: "fold add_update (asked tr) (empty_store, []) = (s, us)" by force
  have "fold add_update (asked (tr @ tr')) (empty_store, []) = apsnd ((@) us) (fold add_update (asked tr') (s, []))"
    by (simp add: asked_append x) (rule fold_add_update)
  then show "graph_of (tr @ tr') = fst (fold add_update (asked tr') (graph_of tr, []))"
    "records_of (tr @ tr') = records_of tr @ updates_of (graph_of tr) (asked tr')"
    by (simp_all add: graph_of_def records_of_def updates_of_def x)
qed

lemma spec_run_append: "spec_run s (tr @ tr') s' \<longleftrightarrow> (\<exists>s1. spec_run s tr s1 \<and> spec_run s1 tr' s')"
proof (induction tr arbitrary: s)
  case (Cons x tr)
  obtain t rq rp where x: "x = (t, rq, rp)" by (cases x)
  show ?case by (simp add: x Cons) blast
qed simp

lemma spec_run_store:
  "spec_run s tr s' \<Longrightarrow> \<forall>(t, rq, rp)\<in>set tr. acknowledged rp \<Longrightarrow> s' = fst (fold add_update (asked tr) (s, []))"
proof (induction tr arbitrary: s)
  case (Cons x tr)
  obtain t rq rp where x: "x = (t, rq, rp)" by (cases x)
  from Cons.prems obtain s1 where s1: "answers t rq s rp s1" "spec_run s1 tr s'" "acknowledged rp" by (auto simp: x)
  have "s1 = fst (add_update (t, rq) (s, []))"
    using answers_written [OF s1(1,3)] by (simp add: add_update_def split: option.splits)
  moreover have "fst (fold add_update rqs (s, us)) = fst (fold add_update rqs (s, []))" for rqs s us
    by (subst fold_add_update) simp
  moreover have "s' = fst (fold add_update (asked tr) (s1, []))" using Cons.IH [OF s1(2)] Cons.prems(2) by simp
  ultimately show ?case by (simp add: x) (metis prod.collapse)
qed simp

text \<open>What is known of the files between two processes.\<close>

definition files_hold :: "engine_config \<Rightarrow> (nat \<Rightarrow> bytes option) \<Rightarrow> (gotime \<times> request \<times> reply) list \<Rightarrow> engine \<Rightarrow> bool" where
  "files_hold cfg logs tr e \<longleftrightarrow> (\<exists>ws. logs_hold logs (ec_MemtableSize cfg) e ws \<and> store_of_logs e ws = graph_of tr
     \<and> (\<forall>j < en_numLanes e. map snd (ws j) = lane_part e j (records_of tr)))"

definition room_for :: "engine_config \<Rightarrow> (gotime \<times> request \<times> reply) list \<Rightarrow> engine \<Rightarrow> bool" where
  "room_for cfg tr e \<longleftrightarrow> (\<forall>j < en_numLanes e. 2 * part_size (lane_part e j (records_of tr)) \<le> ec_MemtableSize cfg)"

lemma room_for_prefix: "room_for cfg (tr @ tr') e \<Longrightarrow> room_for cfg tr e"
proof -
  have "part_size (lane_part e j (records_of tr)) \<le> part_size (lane_part e j (records_of (tr @ tr')))" for j
    using part_size_nonneg by (simp add: graph_of_append lane_part_append part_size_append)
  then show "room_for cfg (tr @ tr') e \<Longrightarrow> room_for cfg tr e"
    unfolding room_for_def by (meson mult_left_mono order_trans zero_le_numeral)
qed

lemma room_for_cong: "en_numLanes e' = en_numLanes e \<Longrightarrow> room_for cfg tr e' = room_for cfg tr e"
  by (simp add: room_for_def lane_part_def lane_index_def)

lemma files_hold_start:
  assumes new: "new_engine J io now (\<lambda>_. logs) (Some cfg) fs = (Inr e0, fs')" and lanes: "ec_NumWriteLanes cfg < 2 ^ 32"
    and hold: "files_hold cfg logs tr e0" and io: "io_open_ok io'"
  shows "\<exists>e1. engine_start io' e0 = (Inr (), e1) \<and> en_running e1 \<and> engine_ok e1 \<and> engine_store e1 = graph_of tr"
proof -
  from hold obtain ws where "logs_hold logs (ec_MemtableSize cfg) e0 ws" "store_of_logs e0 ws = graph_of tr"
    by (auto simp: files_hold_def)
  with engine_start_store [OF new lanes _ io] show ?thesis by fastforce
qed

lemma files_hold_session:
  assumes new: "new_engine J io1 now (\<lambda>_. logs) (Some cfg) fs = (Inr e0, fs')"
    and bounds: "ec_NumWriteLanes cfg < 2 ^ 32" "ec_MemtableSize cfg < 2 ^ 32"
    and hold: "files_hold cfg logs tr e0" and start: "engine_start io2 e0 = (Inr (), e1)" "io_open_ok io2"
    and run: "engine_run B e1 tr' e" "\<forall>(t, rq, rp)\<in>set tr'. acknowledged rp"
    and room: "room_for cfg (tr @ tr') e0"
    and saved: "\<forall>j < en_numLanes e0. log_saved (l_wal (en_lanes e ! j)) (d j)"
    and open2: "new_engine J io3 now3 (\<lambda>_. d) (Some cfg) fs2 = (Inr e2, fs2')"
  shows "files_hold cfg d (tr @ tr') e2 \<and> spec_run (graph_of tr) tr' (graph_of (tr @ tr'))"
proof -
  from hold obtain ws where ws: "logs_hold logs (ec_MemtableSize cfg) e0 ws" "store_of_logs e0 ws = graph_of tr"
    and recs: "\<And>j. j < en_numLanes e0 \<Longrightarrow> map snd (ws j) = lane_part e0 j (records_of tr)"
    by (auto simp: files_hold_def)
  from files_hold_start [OF new bounds(1) hold start(2)] start(1)
  have E1: "en_running e1" "engine_ok e1" "engine_store e1 = graph_of tr" by auto
  have room': "\<forall>j < en_numLanes e0. 2 * (total_size (ws j) + part_size (lane_part e0 j (updates_of (engine_store e1) (asked tr'))))
      \<le> ec_MemtableSize cfg"
    using room by (simp add: room_for_def graph_of_append lane_part_append part_size_append total_size_map recs E1(3))
  from engine_restart_core [OF new bounds ws(1) start run room' saved open2 io_fine_ok(1)] obtain e3 ws' where
    e3: "engine_start io_fine e2 = (Inr (), e3)" "engine_store e3 = engine_store e"
    and ws': "logs_hold d (ec_MemtableSize cfg) e2 ws'"
      "\<forall>j < en_numLanes e0. map snd (ws' j) = map snd (ws j) @ lane_part e0 j (updates_of (engine_store e1) (asked tr'))"
    by blast
  from engine_start_store [OF open2 bounds(1) ws'(1) io_fine_ok(1)] e3 have st: "store_of_logs e2 ws' = engine_store e" by auto
  from engine_run_refines [OF run(1) E1(2,1)] have "spec_run (engine_store e1) tr' (engine_store e)" by blast
  then have sp: "spec_run (graph_of tr) tr' (engine_store e)" by (simp only: E1(3))
  from spec_run_store [OF sp run(2)] have G: "engine_store e = graph_of (tr @ tr')" by (simp add: graph_of_append)
  have n2: "en_numLanes e2 = en_numLanes e0" using new_engine_Inr(2) new open2 by metis
  then have "lane_part e2 = lane_part e0" by (simp add: lane_part_def lane_index_def fun_eq_iff)
  with ws' recs st G n2 sp show ?thesis
    by (auto simp: files_hold_def graph_of_append lane_part_append E1(3) intro!: exI [of _ ws'])
qed

text \<open>The induction over the lifetimes.\<close>

lemma engine_run_numLanes:
  "engine_run B e0 tr e \<Longrightarrow> engine_ok e0 \<Longrightarrow> en_running e0 \<Longrightarrow> en_numLanes e = en_numLanes e0"
proof (induction rule: engine_run.induct)
  case (request tr e t rq ord io now rp e')
  from engine_run_refines [OF request.hyps(1) request.prems] have E: "engine_ok e" "en_running e" by blast+
  show ?case by (cases rule: handle_outcome [OF E request.hyps(3,4)])
    (use request.IH [OF request.prems] in \<open>simp_all add: unwritten_def wrote_def\<close>)
next
  case (sync tr e j io r w)
  from engine_run_refines [OF sync.hyps(1) sync.prems] have "engine_ok e" by blast
  from sync_frame [OF this sync.hyps(2)] sync show ?case by simp
qed simp_all

definition past_ok :: "engine_config \<Rightarrow> (nat \<Rightarrow> bytes option) \<Rightarrow> (gotime \<times> request \<times> reply) list \<Rightarrow> engine \<Rightarrow> bool" where
  "past_ok cfg logs tr e \<longleftrightarrow> files_hold cfg logs tr e \<and> spec_run empty_store tr (graph_of tr)
     \<and> (\<forall>(t, rq, rp)\<in>set tr. acknowledged rp)"

lemma past_ok_session:
  assumes new: "new_engine J io1 now (\<lambda>_. logs) (Some cfg) fs = (Inr e0, fs')"
    and bounds: "ec_NumWriteLanes cfg < 2 ^ 32" "ec_MemtableSize cfg < 2 ^ 32"
    and past: "past_ok cfg logs tr e0" and start: "engine_start io2 e0 = (Inr (), e1)" "io_open_ok io2"
    and run: "engine_run B e1 tr' e" "\<forall>(t, rq, rp)\<in>set tr'. acknowledged rp"
    and room: "room_for cfg (tr @ tr') e0"
    and saved: "\<forall>j < en_numLanes e0. log_saved (l_wal (en_lanes e ! j)) (d j)"
    and open2: "new_engine J io3 now3 (\<lambda>_. d) (Some cfg) fs2 = (Inr e2, fs2')"
  shows "past_ok cfg d (tr @ tr') e2"
  using files_hold_session [OF new bounds _ start run room saved open2] past run(2)
  by (auto simp: past_ok_def spec_run_append)

lemma trace_of_acknowledged:
  "list_all acknowledged rps \<Longrightarrow> length rps = length cs \<Longrightarrow> \<forall>(t, rq, rp)\<in>set (trace_of cs rps). acknowledged rp"
  by (auto simp: trace_of_def list_all_iff split: prod.splits dest: set_zip_rightD)

lemma serve_length: "serve cs e = (rps, e') \<Longrightarrow> length rps = length cs"
  by (induction cs arbitrary: e rps) (auto simp: apfst_def map_prod_def split: prod.splits)

lemma asked_trace_of: "length rps = length cs \<Longrightarrow> asked (trace_of cs rps) = map request_of cs"
proof (induction rps cs rule: list_induct2)
  case (Cons rp rps c cs)
  then show ?case by (cases "request_of c") (simp add: trace_of_def)
qed (simp add: trace_of_def)

lemma lifetimes_past:
  assumes "lifetimes B J cfg logs tr" and "ec_NumWriteLanes cfg < 2 ^ 32" and "ec_MemtableSize cfg < 2 ^ 32"
    and "new_engine J io now (\<lambda>_. logs) (Some cfg) fs = (Inr e, fs')" and "room_for cfg tr e"
  shows "past_ok cfg logs tr e"
  using assms
proof (induction arbitrary: io now fs e fs' rule: lifetimes.induct)
  case fresh
  with new_engine_Inr(1) [OF fresh.prems(3)] have "0 \<le> ec_MemtableSize cfg"
    by (auto simp: room_for_def lane_part_def part_size_def)
  then show ?case
    by (auto simp: past_ok_def files_hold_def logs_hold_def lane_log_ok_def log_of_def total_size_def store_of_logs_def
        store_after_def empty_store_def lane_part_def intro!: exI [of _ "\<lambda>_. []"])
next
  case (stopped logs tr io1 now1 fs1 e0 fs1' io2 e1 cs rps e1' io' clock ord drained r e' d)
  have n: "en_numLanes e = en_numLanes e0" using new_engine_Inr(2) stopped.hyps(2) stopped.prems(3) by metis
  have room: "room_for cfg (tr @ trace_of cs rps) e0" using stopped.prems(4) room_for_cong [OF n] by simp
  from stopped.IH [OF stopped.prems(1,2) stopped.hyps(2) room_for_prefix [OF room]] have past: "past_ok cfg logs tr e0" .
  then obtain ws where ws: "logs_hold logs (ec_MemtableSize cfg) e0 ws" "store_of_logs e0 ws = graph_of tr"
    and recs: "\<And>j. j < en_numLanes e0 \<Longrightarrow> map snd (ws j) = lane_part e0 j (records_of tr)"
    by (auto simp: past_ok_def files_hold_def)
  from engine_start_store [OF stopped.hyps(2) stopped.prems(1) ws(1) stopped.hyps(3)] stopped.hyps(4)
  have E1: "en_running e1" "engine_ok e1" "engine_store e1 = graph_of tr" "en_numLanes e1 = en_numLanes e0"
    by (auto simp: ws(2))
  note script = stopped.hyps(5) [unfolded E1(3), folded ws(2)]
  have "\<forall>j < en_numLanes e0. 2 * (total_size (ws j) + part_size (lane_part e0 j (updates_of (store_of_logs e0 ws) (map request_of cs))))
      \<le> ec_MemtableSize cfg"
    using room asked_trace_of [OF serve_length [OF stopped.hyps(6)]]
    by (simp add: room_for_def graph_of_append lane_part_append part_size_append total_size_map recs ws(2))
  from serve_from_start [where B = B, OF stopped.hyps(2) stopped.prems(1) ws(1) stopped.hyps(4,3) script this stopped.hyps(6)]
  obtain S where ack: "list_all acknowledged rps" and run: "engine_run B e1 (trace_of cs rps) e1'"
    and E: "engine_ok e1'" "en_running e1'" "engine_live (ec_MemtableSize cfg) S e1'" by blast
  have "\<forall>j < en_numLanes e0. log_saved (l_wal (en_lanes e1' ! j)) (Some (d j))"
    using stop_saves [OF E(3,1,2) stopped.hyps(7-9)] stopped.hyps(10) engine_run_numLanes [OF run E1(2,1)] E1(4) by simp
  from past_ok_session [OF stopped.hyps(2) stopped.prems(1,2) past stopped.hyps(4,3) run
      trace_of_acknowledged [OF ack serve_length [OF stopped.hyps(6)]] room this stopped.prems(3)]
  show ?case .
next
  case (crashed logs tr io1 now1 fs1 e0 fs1' io2 e1 tr' e' io' w d)
  have n: "en_numLanes e = en_numLanes e0" using new_engine_Inr(2) crashed.hyps(2) crashed.prems(3) by metis
  have room: "room_for cfg (tr @ tr') e0" using crashed.prems(4) room_for_cong [OF n] by simp
  from crashed.IH [OF crashed.prems(1,2) crashed.hyps(2) room_for_prefix [OF room]] have past: "past_ok cfg logs tr e0" .
  have "\<forall>j < en_numLanes e0. log_saved (l_wal (en_lanes e' ! j)) (Some (d j))"
    using crashed.hyps(7) by (blast intro: synced_saved)
  from past_ok_session [OF crashed.hyps(2) crashed.prems(1,2) past crashed.hyps(4,3,5,6) room this crashed.prems(3)]
  show ?case .
qed

lemma lifetimes_start:
  assumes past: "lifetimes B J cfg logs tr"
    and bounds: "ec_NumWriteLanes cfg < 2 ^ 32" "ec_MemtableSize cfg < 2 ^ 32"
    and new: "new_engine J io now (\<lambda>_. logs) (Some cfg) fs = (Inr e0, fs')" "io_open_ok io'"
    and room: "room_for cfg tr e0"
  shows "\<exists>e1. engine_start io' e0 = (Inr (), e1) \<and> en_running e1 \<and> engine_ok e1 \<and> engine_store e1 = graph_of tr
    \<and> spec_run empty_store tr (engine_store e1)"
proof -
  from lifetimes_past [OF past bounds new(1) room] have P: "files_hold cfg logs tr e0" "spec_run empty_store tr (graph_of tr)"
    by (simp_all add: past_ok_def)
  from files_hold_start [OF new(1) bounds(1) P(1) new(2)] P(2) show ?thesis by metis
qed

text \<open>
  C3: The database is one graph, while everything fits one table per lane.  Processes come and
  go on the same files.  One that ends by \<open>Stop\<close> has served a well-formed script
  (\<open>script_ok\<close>: each identifier created once, edges between existing nodes, encodable records) on
  a healthy file system; one that ends by a crash has served any run of admissible requests, all
  acknowledged, and its last syncs had succeeded; the power is cut at any point after that.  If
  the records of all the lifetimes together, twice over, fit one table in every lane
  (\<open>room_for\<close>), the next process that opens the files starts, its graph is that of all the
  acknowledged requests of all the lifetimes, in order, and their replies are the ones that one
  graph would have given.  (Past that bound the next start can fail: theory \<open>Capacity\<close>.)
\<close>

theorem database_is_one_graph:
  assumes past: "lifetimes B J cfg logs tr"
    and bounds: "ec_NumWriteLanes cfg < 2 ^ 32" "ec_MemtableSize cfg < 2 ^ 32"
    and new: "new_engine J io now (\<lambda>_. logs) (Some cfg) fs = (Inr e0, fs')" "io_open_ok io'"
    and room: "room_for cfg tr e0"
  shows "\<exists>e1. engine_start io' e0 = (Inr (), e1) \<and> en_running e1 \<and> engine_ok e1 \<and> engine_store e1 = graph_of tr
    \<and> spec_run empty_store tr (engine_store e1)"
  by (rule lifetimes_start [OF assms])

lemma demo_lane_logged:
  "\<exists>l. write_node io_fine 0 demo_node (new_write_lane 0 1000 (new_wal 0 False (256 * 1024) None)) = (Inr (), l)
    \<and> log_inv (log_of [(0, WNode demo_node)]) (l_wal l) \<and> wal_healthy (l_wal l) \<and> \<not> l_stopped l"
proof -
  let ?l0 = "new_write_lane 0 1000 (new_wal 0 False (256 * 1024) None)"
  have "lane_live 1000 0 ?l0"
    unfolding lane_live_def by (rule conjI [OF fresh_lane(3)]) (simp add: wal_healthy_def new_write_lane_def new_wal_def new_bufio_def Let_def)
  from write_node_live [OF this, of demo_node io_fine 0] obtain l where
    l: "write_node io_fine 0 demo_node ?l0 = (Inr (), l)" "wal_healthy (l_wal l)" "\<not> l_stopped l"
    using demo_node_facts by (auto simp: data_of_def write_size_def io_fine_def lane_live_def)
  have "write_ok (WNode demo_node)" using demo_node_facts by (auto simp: data_of_def str_ok_def)
  with lane_run.put [OF lane_run.start, of "WNode demo_node" io_fine 0 ?l0] l
  have "lane_run ?l0 [(0, WNode demo_node)] l" by simp
  from lane_run_store [OF this] have "wal_run (l_wal ?l0) (log_of [(0, WNode demo_node)]) (l_wal l)"
    by (simp add: fresh_lane)
  from wal_run_log_inv [OF this, of "[]"] log_inv_new have "log_inv (log_of [(0, WNode demo_node)]) (l_wal l)"
    by (simp add: new_write_lane_def)
  with l show ?thesis by blast
qed

theorem database_is_one_graph_witness:
  "\<exists>J logs rp io now fs e0 fs' e1. lifetimes tiny_bloom J demo_config logs [(time_unix 0, CreateNode demo_node, rp)]
     \<and> new_engine J io now (\<lambda>_. logs) (Some demo_config) fs = (Inr e0, fs') \<and> engine_start io e0 = (Inr (), e1)
     \<and> st_nodes (engine_store e1) [0x61] = Some (wire_node demo_node)"
proof -
  fix x
  let ?J = "one_json x" and ?l0 = "new_write_lane 0 1000 (new_wal 0 False (256 * 1024) None)"
  let ?cs = "[(io_fine, 0, time_unix 0, \<lambda>ks. ks, CreateNode demo_node)] :: call list"
  let ?tr = "[(time_unix 0, CreateNode demo_node, Done (Inr ()))]"
  obtain e0 fs e1 where e0: "new_engine ?J io_fine 0 (\<lambda>_ _. None) (Some demo_config) Map.empty = (Inr e0, fs)"
    and e1: "engine_start io_fine e0 = (Inr (), e1)" "en_running e1" "en_lanes e1 = [?l0]" and n: "en_numLanes e0 = 1" "en_numLanes e1 = 1"
    and lim: "ec_NumWriteLanes demo_config < 2 ^ 32" "ec_MemtableSize demo_config < 2 ^ 32"
    and S1: "engine_store e1 = empty_store"
    using demo_started [of x] by blast
  have idx: "lane_index e k = 0" if "en_numLanes e = 1" for e k using that by (simp add: lane_index_def)
  obtain l where l: "write_node io_fine 0 demo_node ?l0 = (Inr (), l)" and inv: "log_inv (log_of [(0, WNode demo_node)]) (l_wal l)"
    and up: "wal_healthy (l_wal l)" "\<not> l_stopped l"
    using demo_lane_logged by blast
  let ?e = "set_lane 0 l e1" and ?d = "log_bytes (log_of [(0, WNode demo_node)])"
  have serve: "serve ?cs e1 = ([Done (Inr ())], ?e)"
    using l e1 idx [OF n(2)] by (simp add: create_node_def)
  have io: "io_room io_fine = None" "io_sync_ok io_fine" by (simp_all add: io_fine_def)
  have script: "script_ok ?cs (engine_store e1)"
    using demo_node_facts io by (auto simp: S1 well_formed_def empty_store_def map_order_def succeeds_def)
  obtain r e' where stop: "engine_stop tiny_bloom ?J io_fine (\<lambda>_. 0) (\<lambda>_. []) (\<lambda>_. False) ?e = (r, e')" by force
  have "l_wal (en_lanes e' ! 0) = snd (wal_close io_fine (l_wal l))"
    using engine_stop_lanes [OF _ stop] e1(2,3) up(2) by (simp add: set_lane_def lane_stop_def)
  with wal_close_writes [OF up(1) io inv] n
  have "crash_image (l_wal (en_lanes e' ! j)) ?d" if "j < en_numLanes e0" for j
    using that unfolding crash_image_def by (intro exI [of _ "length ?d"]) simp
  from lifetimes.stopped [OF lifetimes.fresh e0 io_fine_ok(1) e1(1) script serve stop io this]
  have past: "lifetimes tiny_bloom ?J demo_config (\<lambda>j. Some ?d) ?tr" by (simp add: trace_of_def request_of_def)
  obtain e2 fs2 where e2: "new_engine ?J io_fine 0 (\<lambda>_ _. Some ?d) (Some demo_config) Map.empty = (Inr e2, fs2)"
    using demo_new_engine by blast
  have n2: "en_numLanes e2 = 1" using new_engine_Inr(2) [OF e2] by (simp add: demo_config_def)
  have room: "room_for demo_config ?tr e2"
    using demo_node_facts by (auto simp: room_for_def records_of_def updates_of_def add_update_def lane_part_def idx n2
        part_size_def write_size_def data_of_def demo_config_def)
  from database_is_one_graph [OF past lim e2 io_fine_ok(1) room] obtain e3 where
    "engine_start io_fine e2 = (Inr (), e3)" "engine_store e3 = graph_of ?tr" by blast
  moreover have "st_nodes (graph_of ?tr) [0x61] = Some (wire_node demo_node)"
    using demo_node_facts by (simp add: graph_of_def add_update_def)
  ultimately show ?thesis using past e2 by (intro exI conjI) (assumption | simp)+
qed

end
