(* ===== verification/Capacity.thy ===== *)
theory Capacity
  imports Lifetimes
begin

text \<open>
  How much an engine may accept and still be opened again.  Writing rotates the tables of a lane
  as often as needed, but recovery replays a lane's whole log into one table.
\<close>

section \<open>Starting, lane by lane\<close>

lemma recover_lanes_succeeds:
  "succeeds (fst (recover_lanes io ls)) \<longleftrightarrow> (\<forall>l\<in>set ls. succeeds (fst (lane_recover io l)))"
proof (induction ls)
  case (Cons l ls)
  obtain r l' where r: "lane_recover io l = (r, l')" by force
  obtain q ls' where q: "recover_lanes io ls = (q, ls')" by force
  from Cons r q show ?case
    by (cases r) (auto simp: succeeds_def wrapE_def split: go_error.splits)
qed (simp add: succeeds_def)

lemma engine_start_succeeds:
  assumes new: "new_engine J io now logs (Some cfg) fs = (Inr e, fs')"
  shows "succeeds (fst (engine_start io' e)) \<longleftrightarrow> (\<forall>j < en_numLanes e. succeeds (fst (lane_recover io' (en_lanes e ! j))))"
proof -
  note N = new_engine_Inr [OF new]
  obtain r ls where r: "recover_lanes io' (en_lanes e) = (r, ls)" by force
  have "succeeds (fst (engine_start io' e)) \<longleftrightarrow> succeeds r"
    using N(6-8) r by (cases r) (auto simp: engine_start_def flusher_start_def compactor_start_def succeeds_def wrapE_def
        split: go_error.splits)
  then show ?thesis
    using recover_lanes_succeeds [of io' "en_lanes e"] r N(3) by (simp add: all_set_conv_all_nth)
qed

lemma lane_recover_nodes:
  assumes nodes: "\<forall>(now, n)\<in>set ns. node_ok n \<and> serialize_node n = Inr (data_of (WNode n))"
    and dist: "distinct (map (n_ID \<circ> snd) ns)" and sz: "0 \<le> sz" and io: "io_open_ok io"
    and log: "list_all entry_ok (log_of (map (\<lambda>(now, n). (now, WNode n)) ns))"
    and d: "log_file d = log_bytes (log_of (map (\<lambda>(now, n). (now, WNode n)) ns))"
  shows "succeeds (fst (lane_recover io (new_write_lane i sz (new_wal i False bsz d))))
    \<longleftrightarrow> total_size (map (\<lambda>(now, n). (now, WNode n)) ns) \<le> sz"
proof -
  let ?l = "new_write_lane i sz (new_wal i False bsz d)" and ?es = "log_of (map (\<lambda>(now, n). (now, WNode n)) ns)"
  have "lane_recover io ?l = replay_loop recover_entry (log_bytes ?es) ?l"
    using io d by (simp add: lane_recover_def wal_replay_def new_wal_def log_file_def Let_def)
  also have "\<dots> = apply_entries recover_entry ?es ?l"
    using replay_loop_entries [OF log, where fn = recover_entry and s = ?l] by simp
  finally show ?thesis
    using recover_nodes_aux [OF nodes dist, of ?l] sz by (simp add: new_write_lane_def mt_new_def total_size_def succeeds_def)
qed

section \<open>What a run of node requests writes\<close>

definition node_request :: "request \<Rightarrow> bool" where
  "node_request rq \<longleftrightarrow> (\<forall>i ps. rq \<noteq> UpdateNode i ps) \<and> (\<forall>d. rq \<noteq> CreateEdge d)"

lemma node_run_records:
  assumes "engine_run B e0 tr e" and "engine_ok e0" and "en_running e0"
    and "\<forall>(t, rq, rp)\<in>set tr. acknowledged rp \<and> node_request rq"
  shows "\<exists>ns. updates_of (engine_store e0) (asked tr) = map WNode ns \<and> distinct (map n_ID ns)
    \<and> (\<forall>n\<in>set ns. node_ok n \<and> st_nodes (engine_store e) (n_ID n) \<noteq> None)"
  using assms
proof (induction rule: engine_run.induct)
  case (request tr e t rq ord io now rp e')
  then obtain ns where ns: "updates_of (engine_store e0) (asked tr) = map WNode ns" "distinct (map n_ID ns)"
    "\<forall>n\<in>set ns. node_ok n \<and> st_nodes (engine_store e) (n_ID n) \<noteq> None" by auto
  from engine_run_refines [OF request.hyps(1) request.prems(1,2)] have E: "engine_ok e" "en_running e"
    and sp: "spec_run (engine_store e0) tr (engine_store e)" by blast+
  have ack: "\<forall>(t, rq, rp)\<in>set tr. acknowledged rp" "acknowledged rp" "node_request rq" using request.prems(3) by auto
  obtain s1 us where f: "fold add_update (asked tr) (engine_store e0, []) = (s1, us)" by force
  have s1: "s1 = engine_store e" using spec_run_store [OF sp ack(1)] f by simp
  have us: "us = map WNode ns" using ns(1) f by (simp add: updates_of_def)
  note snoc = updates_of_snoc [OF f, of t rq, folded asked_snoc [of tr t rq rp]]
  from handle_answers [OF E request.hyps(2-5)] have "answers t rq (engine_store e) rp (engine_store e')" by blast
  note st = answers_written [OF this ack(2)]
  show ?case
  proof (cases "written t rq (engine_store e)")
    case None
    with st snoc s1 ns us show ?thesis by (intro exI [of _ ns]) (simp add: updates_of_def)
  next
    case (Some w)
    then obtain n where n: "rq = CreateNode n" "w = WNode n" using ack(3) by (cases rq) (auto simp: node_request_def)
    from request.hyps(2) n have "node_ok n" "st_nodes (engine_store e) (n_ID n) = None" by simp_all
    with st snoc s1 ns us Some n show ?thesis by (intro exI [of _ "ns @ [n]"]) (auto simp: updates_of_def)
  qed
next
  case (sync tr e j io r w)
  from engine_run_refines [OF sync.hyps(1) sync.prems(1,2)] have "engine_ok e" by blast
  from sync_frame [OF this sync.hyps(2)] sync show ?case by simp
qed (auto simp: updates_of_def)

lemma timed_nodes:
  assumes "map snd vs = map WNode ns"
  obtains xs where "vs = map (\<lambda>(now, n). (now, WNode n)) xs" "map snd xs = ns"
proof -
  from assms have len: "length vs = length ns" by (metis length_map)
  have "map (\<lambda>(now, n). (now, WNode n)) (zip (map fst vs) ns) = zip (map fst vs) (map WNode ns)"
    by (simp add: zip_map2)
  also have "\<dots> = vs" unfolding assms [symmetric] by (rule zip_map_fst_snd)
  finally show thesis using that [of "zip (map fst vs) ns"] len by simp
qed

section \<open>Restarting after a run of node requests\<close>

text \<open>
  C34: What can be opened again.  A new engine serves any run that creates and reads nodes,
  rotating its tables as they fill; every request is acknowledged and the logs are synced.  The
  next engine on the files starts exactly when each lane's records fit one table: the engine
  acknowledges and syncs more than it can open.
\<close>

theorem restart_fits_one_table:
  assumes open1: "new_engine J io1 now1 (\<lambda>_ _. None) (Some cfg) fs1 = (Inr e0, fs1')" and lanes: "ec_NumWriteLanes cfg < 2 ^ 32"
    and start1: "engine_start io2 e0 = (Inr (), e1)" "io_open_ok io2"
    and run: "engine_run B e1 tr e" "\<forall>(t, rq, rp)\<in>set tr. acknowledged rp \<and> node_request rq"
    and small: "\<forall>j < en_numLanes e0. part_size (lane_part e0 j (records_of tr)) < 2 ^ 32"
    and synced: "\<forall>j < en_numLanes e0. wal_sync (io j) (l_wal (en_lanes e ! j)) = (Inr (), w j) \<and> crash_image (w j) (d j)"
    and open2: "new_engine J io3 now3 (\<lambda>_ j. Some (d j)) (Some cfg) fs2 = (Inr e2, fs2')" "io_open_ok io4"
  shows "succeeds (fst (engine_start io4 e2)) \<longleftrightarrow>
    (\<forall>j < en_numLanes e0. part_size (lane_part e0 j (records_of tr)) \<le> ec_MemtableSize cfg)"
proof -
  have cap: "0 < ec_MemtableSize cfg" using open1 by (auto simp: new_engine_def Let_def split: if_splits)
  then have hold: "logs_hold (\<lambda>_. None) (ec_MemtableSize cfg) e0 (\<lambda>_. [])"
    by (simp add: logs_hold_def lane_log_ok_def log_of_def total_size_def)
  from engine_start_store [OF open1 lanes hold start1(2)] start1(1)
  have E1: "en_running e1" "engine_ok e1" "en_numLanes e1 = en_numLanes e0" "engine_store e1 = empty_store"
    and l1: "\<forall>j < en_numLanes e0. lane_store (en_lanes e1 ! j) = store_after [] empty_store
        \<and> l_wal (en_lanes e1 ! j) = new_wal j False (256 * 1024) None"
    by (auto simp: store_of_logs_def store_after_def empty_store_def)
  have part: "lane_part e1 = lane_part e0" using E1(3) by (simp add: lane_part_def lane_index_def fun_eq_iff)
  from node_run_records [OF run(1) E1(2,1) run(2)] obtain ns where
    ns: "records_of tr = map WNode ns" "distinct (map n_ID ns)" "\<forall>n\<in>set ns. node_ok n" by (auto simp: records_of_def E1(4))
  have ack: "\<forall>(t, rq, rp)\<in>set tr. acknowledged rp" using run(2) by blast
  have "\<forall>j < en_numLanes e1. part_size (lane_part e1 j (updates_of (engine_store e1) (asked tr))) < 2 ^ 32"
    using small by (simp add: part E1(3,4) records_of_def)
  from engine_run_lanes [OF run(1) E1(2,1) ack this]
  have R: "\<forall>j < en_numLanes e0. \<exists>vs. map snd vs = lane_part e0 j (records_of tr) \<and> lane_run (en_lanes e1 ! j) vs (en_lanes e ! j)"
    by (simp add: lane_runs_def part E1(3,4) records_of_def)
  have n2: "en_numLanes e2 = en_numLanes e0" using new_engine_Inr(2) open1 open2(1) by metis
  have "succeeds (fst (lane_recover io4 (en_lanes e2 ! j))) \<longleftrightarrow> part_size (lane_part e0 j (records_of tr)) \<le> ec_MemtableSize cfg"
    if j: "j < en_numLanes e0" for j
  proof -
    from R j obtain vs where vs: "map snd vs = lane_part e0 j (records_of tr)" "lane_run (en_lanes e1 ! j) vs (en_lanes e ! j)" by blast
    have wf: "lane_wf (en_lanes e1 ! j)" using E1(2,3) j homedD(3) [of e1 j] by (simp add: engine_ok_def)
    have saved: "log_saved (l_wal (en_lanes e ! j)) (Some (d j))" using synced j by (blast intro: synced_saved)
    from l1 j have "lane_store (en_lanes e1 ! j) = store_after [] empty_store" "l_wal (en_lanes e1 ! j) = new_wal j False (256 * 1024) None"
      by blast+
    note L = lane_run_logs [OF vs(2) wf this _ _ saved, simplified]
    have P: "lane_part e0 j (records_of tr) = map WNode (filter (\<lambda>n. lane_index e0 (n_ID n) = j) ns)"
      by (simp add: lane_part_def ns(1) filter_map comp_def)
    from vs(1) [unfolded P] obtain xs where xs: "vs = map (\<lambda>(now, n). (now, WNode n)) xs"
      "map snd xs = filter (\<lambda>n. lane_index e0 (n_ID n) = j) ns" by (rule timed_nodes)
    have log: "log_file (Some (d j)) = log_bytes (log_of vs)" "lane_log_ok vs"
      using L by (simp_all add: lane_log_ok_def log_of_def)
    have "distinct (map n_ID (map snd xs))" unfolding xs(2) using ns(2) by (simp add: List.distinct_map_filter)
    then have dist: "distinct (map (n_ID \<circ> snd) xs)" by simp
    have "set (map snd xs) \<subseteq> set ns" unfolding xs(2) by auto
    then have "\<forall>(now, n)\<in>set xs. node_ok n \<and> serialize_node n = Inr (data_of (WNode n))"
      using ns(3) log(2) by (fastforce simp: xs(1) lane_log_ok_def)
    from lane_recover_nodes [OF this dist _ open2(2) _ log(1) [unfolded xs(1)]] log(2) cap
    have "succeeds (fst (lane_recover io4 (new_write_lane j (ec_MemtableSize cfg) (new_wal j False (256 * 1024) (Some (d j))))))
      \<longleftrightarrow> total_size vs \<le> ec_MemtableSize cfg" by (simp add: xs(1) lane_log_ok_def)
    then show ?thesis using new_engine_Inr(4) [OF open2(1), of j] j vs(1) by (simp add: n2 total_size_map)
  qed
  then show ?thesis using engine_start_succeeds [OF open2(1), of io4] by (simp add: n2)
qed

definition small_config :: engine_config where
  "small_config = demo_config\<lparr>ec_MemtableSize := 50\<rparr>"

definition demo_other :: node where
  "demo_other = demo_node\<lparr>n_ID := [0x62]\<rparr>"

lemma demo_other_facts:
  "node_ok demo_other" "n_ID demo_other = [0x62]" "\<exists>bs. serialize_node demo_other = Inr bs \<and> length bs = 37"
  by (simp_all add: demo_other_def demo_node_def node_ok_def wire_props_ok_def str_ok_def props_ok_def props_of_def
      serialize_node_def)

lemma demo_two_writes:
  "\<exists>l1 l2 w. write_node io_fine 0 demo_node (new_write_lane 0 50 (new_wal 0 False (256 * 1024) None)) = (Inr (), l1)
     \<and> write_node io_fine 0 demo_other l1 = (Inr (), l2) \<and> wal_sync io_fine (l_wal l2) = (Inr (), w)
     \<and> w_durable w = length (wal_content w)"
proof -
  from demo_node_facts(3) obtain bs where bs: "serialize_node demo_node = Inr bs" "length bs = 37" by blast
  from demo_other_facts(3) obtain cs where cs: "serialize_node demo_other = Inr cs" "length cs = 37" by blast
  show ?thesis
    by (simp add: write_node_def new_write_lane_def bs cs log_write_def wal_append_def new_wal_def new_bufio_def
        Let_def bufio_write.simps length_serialize_entry or_return_def demo_node_facts demo_other_facts on_active_def
        on_error_def put_node_def mt_put_def mt_new_def slice_len_def node_key_def lit_def
        check_node_rotation_def rotate_memtable_def wal_sync_def wal_flush_def bufio_flush_def wal_fsync_def io_fine_def
        wal_room_def file_write_def wal_content_def set_content_def)
qed

theorem restart_fits_one_table_witness:
  "\<exists>J e0 fs e1 e w d e2 fs2. new_engine J io_fine 0 (\<lambda>_ _. None) (Some small_config) Map.empty = (Inr e0, fs)
     \<and> engine_start io_fine e0 = (Inr (), e1)
     \<and> engine_run tiny_bloom e1 [(time_unix 0, CreateNode demo_node, Done (Inr ())), (time_unix 0, CreateNode demo_other, Done (Inr ()))] e
     \<and> wal_sync io_fine (l_wal (en_lanes e ! 0)) = (Inr (), w) \<and> crash_image w d
     \<and> new_engine J io_fine 0 (\<lambda>_ _. Some d) (Some small_config) Map.empty = (Inr e2, fs2)
     \<and> \<not> succeeds (fst (engine_start io_fine e2))"
proof -
  fix x
  let ?J = "one_json x" and ?l0 = "new_write_lane 0 50 (new_wal 0 False (256 * 1024) None)"
  let ?tr1 = "[(time_unix 0, CreateNode demo_node, Done (Inr ()))]"
  let ?tr = "[(time_unix 0, CreateNode demo_node, Done (Inr ())), (time_unix 0, CreateNode demo_other, Done (Inr ()))]"
  have cfg: "0 < ec_NumWriteLanes small_config" "0 < ec_MemtableSize small_config" "ec_NumWriteLanes small_config < 2 ^ 32"
    by (simp_all add: small_config_def demo_config_def)
  obtain e0 fs where e0: "new_engine ?J io_fine 0 (\<lambda>_ _. None) (Some small_config) Map.empty = (Inr e0, fs)"
    using fine_new_engine [OF cfg(1,2)] by blast
  note N = new_engine_Inr [OF e0]
  have n: "en_numLanes e0 = 1" using N(2) by (simp add: small_config_def demo_config_def)
  obtain e1 where e1: "engine_start io_fine e0 = (Inr (), e1)" "en_running e1" "en_numLanes e1 = 1" "en_lanes e1 = en_lanes e0"
    using fresh_lanes [OF e0 io_fine_ok(1)] n by auto
  have lanes: "en_lanes e1 = [?l0]"
    using N(3,4) n e1(4) by (cases "en_lanes e0") (auto simp: small_config_def demo_config_def)
  have idx: "lane_index e k = 0" if "en_numLanes e = 1" for e k using that by (simp add: lane_index_def)
  obtain l1 l2 w where l1: "write_node io_fine 0 demo_node ?l0 = (Inr (), l1)" and l2: "write_node io_fine 0 demo_other l1 = (Inr (), l2)"
    and w: "wal_sync io_fine (l_wal l2) = (Inr (), w)" "w_durable w = length (wal_content w)"
    using demo_two_writes by blast
  let ?d = "wal_content w" and ?e = "set_lane 0 l1 e1" and ?e' = "set_lane 0 l2 (set_lane 0 l1 e1)"
  have crash: "crash_image w ?d" using w(2) unfolding crash_image_def by (intro exI [of _ "length ?d"]) simp
  have h1: "handle io_fine 0 (time_unix 0) (\<lambda>ks. ks) (CreateNode demo_node) e1 = (Done (Inr ()), ?e)"
    using l1 e1(2,3) lanes idx [OF e1(3)] by (simp add: create_node_def)
  have h2: "handle io_fine 0 (time_unix 0) (\<lambda>ks. ks) (CreateNode demo_other) ?e = (Done (Inr ()), ?e')"
    using l2 e1(2,3) lanes idx [of ?e] by (simp add: create_node_def set_lane_def)
  have "logs_hold (\<lambda>_. None) (ec_MemtableSize small_config) e0 (\<lambda>_. [])"
    by (simp add: logs_hold_def lane_log_ok_def log_of_def total_size_def small_config_def demo_config_def)
  from engine_start_store [OF e0 cfg(3) this io_fine_ok(1)] e1(1) have S: "engine_store e1 = empty_store" "engine_ok e1"
    by (auto simp: store_of_logs_def store_after_def empty_store_def)
  have ord: "map_order (\<lambda>ks. ks)" by (simp add: map_order_def)
  have run1: "engine_run tiny_bloom e1 ?tr1 ?e"
    using engine_run.request [OF engine_run.start _ ord h1] demo_node_facts by (simp add: S empty_store_def)
  have st: "engine_store ?e = apply_write (WNode demo_node) empty_store"
    using engine_run_refines [OF run1 S(2) e1(2)] by (simp add: S(1) succeeded_def)
  have run: "engine_run tiny_bloom e1 ?tr ?e'"
    using engine_run.request [OF run1 _ ord h2] demo_other_facts demo_node_facts by (simp add: st empty_store_def)
  obtain e2 fs2 where e2: "new_engine ?J io_fine 0 (\<lambda>_ _. Some ?d) (Some small_config) Map.empty = (Inr e2, fs2)"
    using fine_new_engine [OF cfg(1,2)] by blast
  have recs: "records_of ?tr = [WNode demo_node, WNode demo_other]" by (simp add: records_of_def updates_of_def add_update_def)
  have size: "part_size (lane_part e0 0 (records_of ?tr)) = 86"
    using demo_node_facts demo_other_facts by (auto simp: recs lane_part_def idx [OF n] part_size_def write_size_def data_of_def)
  have "succeeds (fst (engine_start io_fine e2)) \<longleftrightarrow>
      (\<forall>j < en_numLanes e0. part_size (lane_part e0 j (records_of ?tr)) \<le> ec_MemtableSize small_config)"
    by (rule restart_fits_one_table [OF e0 cfg(3) e1(1) io_fine_ok(1) run _ _ _ e2 io_fine_ok(1), where io = "\<lambda>_. io_fine" and w = "\<lambda>_. w"])
      (use w(1) crash lanes n size in \<open>simp_all add: node_request_def set_lane_def succeeded_def\<close>)
  then have "\<not> succeeds (fst (engine_start io_fine e2))"
    using size n by (simp add: small_config_def demo_config_def)
  with e0 e1(1) run w(1) crash e2 lanes show ?thesis by (intro exI conjI) (assumption | simp add: set_lane_def)+
qed

end
