(* ===== verification/Example_Simple.thy ===== *)
theory Example_Simple
  imports Lifetimes
begin

text \<open>
  \<open>cmd/example/simple/main.go\<close>: the program the repository ships as its demonstration, whole,
  from \<open>NewEngine\<close> to the deferred \<open>Stop\<close>.  Its result holds the values it prints, in the order of
  the \<open>Printf\<close> calls; their formatting is not modelled.
\<close>

section \<open>The records it creates\<close>

definition simple_alice :: "(nat \<Rightarrow> gotime) \<Rightarrow> node res" where
  "simple_alice t =
     bindE (set_property (t 1) (lit ''name'') (PString (lit ''Alice''))
              (new_node (t 0) (lit ''alice-123'') [lit ''Person''])) (\<lambda>n.
     bindE (set_property (t 2) (lit ''age'') (PInt64 30) n)
       (set_property (t 3) (lit ''city'') (PString (lit ''New York''))))"

definition simple_bob :: "(nat \<Rightarrow> gotime) \<Rightarrow> node res" where
  "simple_bob t =
     bindE (set_property (t 5) (lit ''name'') (PString (lit ''Bob''))
              (new_node (t 4) (lit ''bob-456'') [lit ''Person''])) (\<lambda>n.
     bindE (set_property (t 6) (lit ''age'') (PInt64 25) n)
       (set_property (t 7) (lit ''city'') (PString (lit ''San Francisco''))))"

definition simple_company :: "(nat \<Rightarrow> gotime) \<Rightarrow> node res" where
  "simple_company t =
     bindE (set_property (t 9) (lit ''name'') (PString (lit ''TechCorp''))
              (new_node (t 8) (lit ''company-789'') [lit ''Company''])) (\<lambda>n.
     bindE (set_property (t 10) (lit ''industry'') (PString (lit ''Technology'')) n)
       (set_property (t 11) (lit ''founded'') (PInt64 2010)))"

text \<open>The weight 0.8 is the \<open>float64\<close> with the bits \<open>0x3FE999999999999A\<close>.\<close>

definition simple_knows :: "(nat \<Rightarrow> gotime) \<Rightarrow> node \<Rightarrow> node \<Rightarrow> edge res" where
  "simple_knows t alice bob =
     bindE (edge_set_property (t 13) (lit ''since'') (PInt64 2020)
              (new_edge (t 12) (lit ''edge-1'') (n_ID alice) (n_ID bob) (lit ''KNOWS'')))
       (edge_set_property (t 14) (lit ''strength'') (PFloat64 0x3FE999999999999A))"

definition simple_alice_works :: "(nat \<Rightarrow> gotime) \<Rightarrow> node \<Rightarrow> node \<Rightarrow> edge res" where
  "simple_alice_works t alice company =
     bindE (edge_set_property (t 16) (lit ''role'') (PString (lit ''Engineer''))
              (new_edge (t 15) (lit ''edge-2'') (n_ID alice) (n_ID company) (lit ''WORKS_AT'')))
       (edge_set_property (t 17) (lit ''since'') (PInt64 2015))"

definition simple_bob_works :: "(nat \<Rightarrow> gotime) \<Rightarrow> node \<Rightarrow> node \<Rightarrow> edge res" where
  "simple_bob_works t bob company =
     bindE (edge_set_property (t 19) (lit ''role'') (PString (lit ''Designer''))
              (new_edge (t 18) (lit ''edge-3'') (n_ID bob) (n_ID company) (lit ''WORKS_AT'')))
       (edge_set_property (t 20) (lit ''since'') (PInt64 2018))"

section \<open>The program\<close>

text \<open>
  What surrounds one run of the program: the operating system and the clock of its \<open>k\<close>-th call
  of the engine, the times \<open>time.Now\<close> returns, and the orders in which maps are visited.
\<close>

record surroundings =
  su_io :: "nat \<Rightarrow> wal_io"
  su_now :: "nat \<Rightarrow> u64"
  su_time :: "nat \<Rightarrow> gotime"
  su_order :: "nat \<Rightarrow> bytes list \<Rightarrow> bytes list"
  su_visit :: "props \<Rightarrow> props"

record simple_report =
  sr_config :: "int \<times> int"
  sr_created :: "node list"
  sr_id :: bytes
  sr_name :: "pval option"
  sr_age :: "pval option"
  sr_linked :: "edge list"
  sr_outgoing :: "edge list"
  sr_neighbors :: "node list"
  sr_incoming :: "edge list"
  sr_newAge :: "pval option"
  sr_updated :: "pval option"
  sr_stats :: engine_stats
  sr_lanes :: "(nat \<times> int \<times> int \<times> nat) list"

text \<open>The last loop prints the identifier, entries, bytes and old memtables of the lanes that have entries.\<close>

definition printed_lanes :: "lane_stats list \<Rightarrow> (nat \<times> int \<times> int \<times> nat) list" where
  "printed_lanes ls =
     map (\<lambda>s. (ls_ID s, ls_ActiveCount s, ls_ActiveSize s, ls_OldMemtableCount s)) (filter (\<lambda>s. ls_ActiveCount s > 0) ls)"

text \<open>
  \<open>if err := ...; err != nil { log.Fatalf(msg, err) }\<close>; and a statement that can only panic.
\<close>

definition must :: "string \<Rightarrow> 'a res \<times> engine \<Rightarrow> ('a \<Rightarrow> engine \<Rightarrow> 'b res \<times> engine) \<Rightarrow> 'b res \<times> engine" where
  "must msg r cont =
     (case r of
        (Inr x, e) \<Rightarrow> cont x e
      | (Inl er, e) \<Rightarrow> (Inl (if is_panic er then er else Wrap msg er), e))"

definition build :: "'a res \<Rightarrow> engine \<Rightarrow> ('a \<Rightarrow> engine \<Rightarrow> 'b res \<times> engine) \<Rightarrow> 'b res \<times> engine" where
  "build r e cont = (case r of Inr x \<Rightarrow> cont x e | Inl er \<Rightarrow> (Inl er, e))"

definition simple_queries ::
  "surroundings \<Rightarrow> node \<Rightarrow> node \<Rightarrow> node list \<Rightarrow> edge list \<Rightarrow> node \<Rightarrow> engine \<Rightarrow> simple_report res \<times> engine" where
  \<comment> \<open>from \<open>Traversing graph\<close> on\<close>
  "simple_queries v alice company created linked retrieved e =
     must ''Failed to get Alice's outgoing edges'' (engine_outgoing (su_order v 9) (n_ID alice) e) (\<lambda>outgoing e.
     must ''Failed to get Alice's neighbors'' (engine_neighbors (su_order v 10) (n_ID alice) DirectionOut e) (\<lambda>neighbors e.
     must ''Failed to get company's incoming edges'' (engine_incoming (su_order v 11) (n_ID company) e) (\<lambda>incoming e.
     must ''Failed to update Alice'' (update_node (su_io v 12) (su_now v 12) (su_time v 21) (n_ID alice)
         (su_visit v [(lit ''age'', PInt64 31), (lit ''updated'', PBool True)]) e) (\<lambda>_ e.
     case engine_get_node (n_ID alice) e of
       (Inl er, e) \<Rightarrow> (Inl (Panic ''nil pointer dereference''), e)
     | (Inr updated, e) \<Rightarrow>
         (Inr \<lparr>sr_config = (ec_NumWriteLanes default_engine_config, ec_MemtableSize default_engine_config sdiv (1024 * 1024)),
               sr_created = created, sr_id = n_ID retrieved, sr_name = get_property retrieved (lit ''name''), sr_age = get_property retrieved (lit ''age''),
               sr_linked = linked, sr_outgoing = outgoing, sr_neighbors = neighbors, sr_incoming = incoming,
               sr_newAge = get_property updated (lit ''age''), sr_updated = get_property updated (lit ''updated''),
               sr_stats = stats_of_engine e, sr_lanes = printed_lanes (es_LaneStats (stats_of_engine e))\<rparr>, e)))))"

definition simple_body :: "surroundings \<Rightarrow> engine \<Rightarrow> simple_report res \<times> engine" where
  \<comment> \<open>between \<open>Start\<close> and the end\<close>
  "simple_body v e =
     build (simple_alice (su_time v)) e (\<lambda>alice e.
     must ''Failed to create Alice node'' (create_node (su_io v 2) (su_now v 2) alice e) (\<lambda>_ e.
     build (simple_bob (su_time v)) e (\<lambda>bob e.
     must ''Failed to create Bob node'' (create_node (su_io v 3) (su_now v 3) bob e) (\<lambda>_ e.
     build (simple_company (su_time v)) e (\<lambda>company e.
     must ''Failed to create Company node'' (create_node (su_io v 4) (su_now v 4) company e) (\<lambda>_ e.
     must ''Failed to get Alice'' (engine_get_node (lit ''alice-123'') e) (\<lambda>retrieved e.
     build (simple_knows (su_time v) alice bob) e (\<lambda>knows e.
     must ''Failed to create KNOWS edge'' (create_edge (su_io v 6) (su_now v 6) knows e) (\<lambda>_ e.
     build (simple_alice_works (su_time v) alice company) e (\<lambda>works e.
     must ''Failed to create WORKS_AT edge'' (create_edge (su_io v 7) (su_now v 7) works e) (\<lambda>_ e.
     build (simple_bob_works (su_time v) bob company) e (\<lambda>bobWorks e.
     must ''Failed to create Bob's WORKS_AT edge'' (create_edge (su_io v 8) (su_now v 8) bobWorks e) (\<lambda>_ e.
     simple_queries v alice company [alice, bob, company] [knows, works, bobWorks] retrieved e)))))))))))))"

text \<open>
  \<open>main\<close>.  \<open>log.Fatalf\<close> exits the process at once, so the deferred \<open>Stop\<close> runs at the end and
  after a panic only.
\<close>

definition simple_main ::
  "'b bloom \<Rightarrow> json \<Rightarrow> surroundings \<Rightarrow> (nat \<Rightarrow> u64) \<Rightarrow> (memtable \<Rightarrow> bytes list) \<Rightarrow> (nat \<Rightarrow> bool)
    \<Rightarrow> (bytes \<Rightarrow> nat \<Rightarrow> bytes option) \<Rightarrow> filesys \<Rightarrow> simple_report res \<times> engine option" where
  "simple_main B J v clock ord drained logs fs =
     (case new_engine J (su_io v 0) (su_now v 0) logs (Some default_engine_config) fs of
        (Inl er, _) \<Rightarrow> (Inl (if is_panic er then er else Wrap ''Failed to create engine'' er), None)
      | (Inr e, _) \<Rightarrow>
          (case must ''Failed to start engine'' (engine_start (su_io v 1) e) (\<lambda>u e. (Inr u, e)) of
             (Inl er, e) \<Rightarrow> (Inl er, Some e)
           | (Inr _, e) \<Rightarrow>
               (case simple_body v e of
                  (Inr rep, e) \<Rightarrow> (Inr rep, Some (snd (engine_stop B J (su_io v 14) clock ord drained e)))
                | (Inl er, e) \<Rightarrow>
                    (Inl er, Some (if is_panic er then snd (engine_stop B J (su_io v 14) clock ord drained e) else e)))))"

section \<open>Its records\<close>

abbreviation "aid \<equiv> lit ''alice-123''"
abbreviation "bid \<equiv> lit ''bob-456''"
abbreviation "cid \<equiv> lit ''company-789''"

definition al :: "(nat \<Rightarrow> gotime) \<Rightarrow> node" where
  "al t = \<lparr>n_ID = aid, n_Labels = [lit ''Person''],
     n_Properties = Some [(lit ''name'', PString (lit ''Alice'')), (lit ''age'', PInt64 30), (lit ''city'', PString (lit ''New York''))],
     n_Version = 4, n_CreatedAt = t 0, n_UpdatedAt = t 3\<rparr>"

definition bo :: "(nat \<Rightarrow> gotime) \<Rightarrow> node" where
  "bo t = \<lparr>n_ID = bid, n_Labels = [lit ''Person''],
     n_Properties = Some [(lit ''name'', PString (lit ''Bob'')), (lit ''age'', PInt64 25), (lit ''city'', PString (lit ''San Francisco''))],
     n_Version = 4, n_CreatedAt = t 4, n_UpdatedAt = t 7\<rparr>"

definition co :: "(nat \<Rightarrow> gotime) \<Rightarrow> node" where
  "co t = \<lparr>n_ID = cid, n_Labels = [lit ''Company''],
     n_Properties = Some [(lit ''name'', PString (lit ''TechCorp'')), (lit ''industry'', PString (lit ''Technology'')), (lit ''founded'', PInt64 2010)],
     n_Version = 4, n_CreatedAt = t 8, n_UpdatedAt = t 11\<rparr>"

definition kn :: "(nat \<Rightarrow> gotime) \<Rightarrow> edge" where
  "kn t = \<lparr>e_ID = lit ''edge-1'', e_FromNodeID = aid, e_ToNodeID = bid, e_Type = lit ''KNOWS'',
     e_Properties = Some [(lit ''since'', PInt64 2020), (lit ''strength'', PFloat64 0x3FE999999999999A)],
     e_Version = 3, e_CreatedAt = t 12, e_UpdatedAt = t 14\<rparr>"

definition aw :: "(nat \<Rightarrow> gotime) \<Rightarrow> edge" where
  "aw t = \<lparr>e_ID = lit ''edge-2'', e_FromNodeID = aid, e_ToNodeID = cid, e_Type = lit ''WORKS_AT'',
     e_Properties = Some [(lit ''role'', PString (lit ''Engineer'')), (lit ''since'', PInt64 2015)],
     e_Version = 3, e_CreatedAt = t 15, e_UpdatedAt = t 17\<rparr>"

definition bw :: "(nat \<Rightarrow> gotime) \<Rightarrow> edge" where
  "bw t = \<lparr>e_ID = lit ''edge-3'', e_FromNodeID = bid, e_ToNodeID = cid, e_Type = lit ''WORKS_AT'',
     e_Properties = Some [(lit ''role'', PString (lit ''Designer'')), (lit ''since'', PInt64 2018)],
     e_Version = 3, e_CreatedAt = t 18, e_UpdatedAt = t 20\<rparr>"

lemma lit_names [simp]:
  "lit ''name'' \<noteq> lit ''age''" "lit ''name'' \<noteq> lit ''city''" "lit ''age'' \<noteq> lit ''city''"
  "lit ''name'' \<noteq> lit ''industry''" "lit ''name'' \<noteq> lit ''founded''" "lit ''industry'' \<noteq> lit ''founded''"
  "lit ''since'' \<noteq> lit ''strength''" "lit ''role'' \<noteq> lit ''since''" "lit ''age'' \<noteq> lit ''updated''"
  "lit ''name'' \<noteq> lit ''updated''" "lit ''city'' \<noteq> lit ''updated''"
  "aid \<noteq> bid" "aid \<noteq> cid" "bid \<noteq> cid" "lit ''edge-1'' \<noteq> lit ''edge-2''" "lit ''edge-1'' \<noteq> lit ''edge-3''" "lit ''edge-2'' \<noteq> lit ''edge-3''"
  by (simp_all add: lit_def)

lemmas lit_names' [simp] = lit_names [symmetric]

lemma length_lit [simp]: "length (lit s) = length s"
  by (simp add: lit_def)

lemma simple_built:
  "simple_alice t = Inr (al t)" "simple_bob t = Inr (bo t)" "simple_company t = Inr (co t)"
  "simple_knows t (al t) (bo t) = Inr (kn t)" "simple_alice_works t (al t) (co t) = Inr (aw t)"
  "simple_bob_works t (bo t) (co t) = Inr (bw t)"
  by (simp_all add: simple_alice_def simple_bob_def simple_company_def simple_knows_def simple_alice_works_def
      simple_bob_works_def set_property_def edge_set_property_def map_write_def new_node_def new_edge_def bindE_def
      al_def bo_def co_def kn_def aw_def bw_def)

definition al2 :: "(nat \<Rightarrow> gotime) \<Rightarrow> node" where
  "al2 t = \<lparr>n_ID = aid, n_Labels = [lit ''Person''],
     n_Properties = Some [(lit ''name'', PString (lit ''Alice'')), (lit ''age'', PInt64 31), (lit ''city'', PString (lit ''New York'')),
       (lit ''updated'', PBool True)],
     n_Version = 6, n_CreatedAt = wire_time (t 0), n_UpdatedAt = t 21\<rparr>"

lemmas simple_defs = al_def bo_def co_def kn_def aw_def bw_def al2_def

lemma simple_sel [simp]:
  "n_ID (al t) = aid" "n_ID (bo t) = bid" "n_ID (co t) = cid" "n_ID (al2 t) = aid"
  "e_ID (kn t) = lit ''edge-1''" "e_ID (aw t) = lit ''edge-2''" "e_ID (bw t) = lit ''edge-3''"
  "e_FromNodeID (kn t) = aid" "e_FromNodeID (aw t) = aid" "e_FromNodeID (bw t) = bid"
  "e_ToNodeID (kn t) = bid" "e_ToNodeID (aw t) = cid" "e_ToNodeID (bw t) = cid"
  by (simp_all add: simple_defs)

lemma wire_sel [simp]: "n_ID (wire_node n) = n_ID n" "e_ID (wire_edge d) = e_ID d"
  "e_FromNodeID (wire_edge d) = e_FromNodeID d" "e_ToNodeID (wire_edge d) = e_ToNodeID d"
  by (simp_all add: wire_node_def wire_edge_def)

lemma simple_ok [simp]:
  "node_ok (al t)" "node_ok (bo t)" "node_ok (co t)" "node_ok (al2 t)" "edge_ok (kn t)" "edge_ok (aw t)" "edge_ok (bw t)"
  by (simp_all add: simple_defs node_ok_def edge_ok_def wire_props_ok_def props_ok_def str_ok_def)

lemma simple_edge_ids [simp]: "edge_id_ok (lit ''edge-1'')" "edge_id_ok (lit ''edge-2'')" "edge_id_ok (lit ''edge-3'')"
  by (simp_all add: edge_id_ok_def valid_ascii lit_def comma_def)

lemma simple_sizes:
  "\<exists>bs. serialize_node (al t) = Inr bs \<and> length bs = 110" "\<exists>bs. serialize_node (bo t) = Inr bs \<and> length bs = 111"
  "\<exists>bs. serialize_node (co t) = Inr bs \<and> length bs = 126" "\<exists>bs. serialize_node (al2 t) = Inr bs \<and> length bs = 123"
  "\<exists>bs. serialize_edge (kn t) = Inr bs \<and> length bs = 110" "\<exists>bs. serialize_edge (aw t) = Inr bs \<and> length bs = 117"
  "\<exists>bs. serialize_edge (bw t) = Inr bs \<and> length bs = 115"
  by (simp_all add: simple_defs serialize_node_def serialize_edge_def bindE_def)

lemma mset_two: "mset ps = {#a, b#} \<Longrightarrow> ps = [a, b] \<or> ps = [b, a]"
proof -
  assume m: "mset ps = {#a, b#}"
  then have "length ps = 2" by (metis size_mset size_add_mset size_empty numeral_2_eq_2)
  then obtain x y where "ps = [x, y]" by (auto simp: length_Suc_conv numeral_2_eq_2)
  with m show ?thesis by (auto simp: add_eq_conv_diff)
qed

lemma simple_update:
  assumes "mset ps = mset [(lit ''age'', PInt64 31), (lit ''updated'', PBool True)]"
  shows "set_properties (t 21) ps (wire_node (al t)) = Inr (al2 t)"
proof -
  from assms consider "ps = [(lit ''age'', PInt64 31), (lit ''updated'', PBool True)]"
    | "ps = [(lit ''updated'', PBool True), (lit ''age'', PInt64 31)]"
    by (auto dest: mset_two)
  then show ?thesis
    by cases (simp_all add: simple_defs wire_node_def wire_props_def set_property_def map_write_def bindE_def)
qed

section \<open>Its requests\<close>

definition healthy_surroundings :: "surroundings \<Rightarrow> bool" where
  "healthy_surroundings v \<longleftrightarrow>
     (\<forall>k. io_open_ok (su_io v k) \<and> io_room (su_io v k) = None \<and> io_sync_ok (su_io v k) \<and> map_order (su_order v k))
     \<and> (\<forall>ps. mset (su_visit v ps) = mset ps)"

definition simple_script :: "surroundings \<Rightarrow> call list" where
  "simple_script v =
     (let c = \<lambda>k t rq. (su_io v k, su_now v k, su_time v t, su_order v k, rq)
      in [c 2 0 (CreateNode (al (su_time v))), c 3 0 (CreateNode (bo (su_time v))), c 4 0 (CreateNode (co (su_time v))),
          c 5 0 (GetNode aid),
          c 6 0 (CreateEdge (kn (su_time v))), c 7 0 (CreateEdge (aw (su_time v))), c 8 0 (CreateEdge (bw (su_time v))),
          c 9 0 (Outgoing aid), c 10 0 (Neighbors aid DirectionOut), c 11 0 (Incoming cid),
          c 12 21 (UpdateNode aid (su_visit v [(lit ''age'', PInt64 31), (lit ''updated'', PBool True)])),
          c 13 0 (GetNode aid)])"

definition simple_requests :: "surroundings \<Rightarrow> (gotime \<times> request) list" where
  "simple_requests v = map request_of (simple_script v)"

definition simple_records :: "(nat \<Rightarrow> gotime) \<Rightarrow> update list" where
  "simple_records t = [WNode (al t), WNode (bo t), WNode (co t), WEdge (kn t), WEdge (aw t), WEdge (bw t), WNode (al2 t)]"

lemma add_update_simps:
  "add_update (t, CreateNode n) (s, us) = (apply_write (WNode n) s, us @ [WNode n])"
  "add_update (t, CreateEdge d) (s, us) = (apply_write (WEdge d) s, us @ [WEdge d])"
  "add_update (t, GetNode i) (s, us) = (s, us)" "add_update (t, Outgoing i) (s, us) = (s, us)"
  "add_update (t, Incoming i) (s, us) = (s, us)" "add_update (t, Neighbors i dir) (s, us) = (s, us)"
  "st_nodes s i = Some n \<Longrightarrow> set_properties t ps n = Inr n' \<Longrightarrow>
     add_update (t, UpdateNode i ps) (s, us) = (apply_write (WNode n') s, us @ [WNode n'])"
  by (simp_all add: add_update_def)

lemma well_formed_simps:
  "well_formed t (CreateNode n) s \<longleftrightarrow> node_ok n \<and> st_nodes s (n_ID n) = None \<and> succeeds (serialize_node n)"
  "well_formed t (CreateEdge d) s \<longleftrightarrow> edge_ok d \<and> edge_id_ok (e_ID d) \<and> st_edges s (e_ID d) = None
     \<and> st_nodes s (e_FromNodeID d) \<noteq> None \<and> st_nodes s (e_ToNodeID d) \<noteq> None \<and> succeeds (serialize_edge d)"
  "well_formed t (GetNode i) s" "well_formed t (Outgoing i) s" "well_formed t (Incoming i) s" "well_formed t (Neighbors i dir) s"
  "st_nodes s i = Some n \<Longrightarrow> set_properties t ps n = Inr n' \<Longrightarrow>
     well_formed t (UpdateNode i ps) s \<longleftrightarrow> node_ok n' \<and> succeeds (serialize_node n')"
  by (auto simp: well_formed_def)

lemma store_simps:
  "st_nodes (apply_write (WNode n) s) i = (if i = n_ID n then Some (wire_node n) else st_nodes s i)"
  "st_nodes (apply_write (WEdge d) s) i = st_nodes s i"
  "st_edges (apply_write (WNode n) s) i = st_edges s i"
  "st_edges (apply_write (WEdge d) s) i = (if i = e_ID d then Some (wire_edge d) else st_edges s i)"
  "st_out (apply_write (WNode n) s) i = st_out s i" "st_in (apply_write (WNode n) s) i = st_in s i"
  "st_out (apply_write (WEdge d) s) i = (if i = e_FromNodeID d then add_mset (e_ID d) (st_out s i) else st_out s i)"
  "st_in (apply_write (WEdge d) s) i = (if i = e_ToNodeID d then add_mset (e_ID d) (st_in s i) else st_in s i)"
  "st_nodes empty_store i = None" "st_edges empty_store i = None" "st_out empty_store i = {#}" "st_in empty_store i = {#}"
  by (simp_all add: empty_store_def)

lemma simple_fold:
  assumes "healthy_surroundings v"
  shows "fold add_update (map request_of (simple_script v)) (empty_store, []) =
    (fold apply_write (simple_records (su_time v)) empty_store, simple_records (su_time v))"
  using simple_update [of "su_visit v [(lit ''age'', PInt64 31), (lit ''updated'', PBool True)]" "su_time v"] assms
  by (simp add: simple_script_def request_of_def add_update_simps healthy_surroundings_def simple_records_def store_simps
      Let_def del: apply_write.simps)

lemma simple_script_ok:
  assumes "healthy_surroundings v"
  shows "script_ok (simple_script v) empty_store"
proof -
  note S = simple_sizes [of "su_time v"]
  have "succeeds (serialize_node (al (su_time v)))" "succeeds (serialize_node (bo (su_time v)))"
    "succeeds (serialize_node (co (su_time v)))" "succeeds (serialize_node (al2 (su_time v)))"
    "succeeds (serialize_edge (kn (su_time v)))" "succeeds (serialize_edge (aw (su_time v)))"
    "succeeds (serialize_edge (bw (su_time v)))"
    using S by (auto simp: succeeds_def)
  then show ?thesis
    using simple_update [of "su_visit v [(lit ''age'', PInt64 31), (lit ''updated'', PBool True)]" "su_time v"] assms
    by (simp add: simple_script_def well_formed_simps add_update_simps healthy_surroundings_def store_simps Let_def
        del: apply_write.simps)
qed

lemma simple_part_size: "part_size (lane_part e j (simple_records t)) \<le> 7 * 300"
proof -
  have one: "write_size w \<le> 300" if "w \<in> set (simple_records t)" for w
    using that simple_sizes [of t] by (auto simp: simple_records_def write_size_def data_of_def)
  have "part_size us \<le> int (length us) * 300" if "set us \<subseteq> set (simple_records t)" for us
    using that one by (induction us) (auto simp: part_size_def algebra_simps intro: add_mono)
  from this [of "lane_part e j (simple_records t)"] have "part_size (lane_part e j (simple_records t))
    \<le> int (length (lane_part e j (simple_records t))) * 300" by (auto simp: lane_part_def)
  also have "\<dots> \<le> 7 * 300"
    using length_filter_le [of "\<lambda>w. lane_index e (write_key w) = j" "simple_records t"]
    by (simp add: lane_part_def) (simp add: simple_records_def)
  finally show ?thesis .
qed

section \<open>Its lanes\<close>

text \<open>
  Alice and Bob hash to lane 10 and the company to lane 15; the node tables of the other
  fourteen lanes stay empty.
\<close>

lemma simple_lane_index:
  assumes "en_numLanes e = 16"
  shows "lane_index e aid = 10" "lane_index e bid = 10" "lane_index e cid = 15"
proof -
  have "fnv32a aid mod 16 = 10" "fnv32a bid mod 16 = 10" "fnv32a cid mod 16 = 15" by code_simp+
  then show "lane_index e aid = 10" "lane_index e bid = 10" "lane_index e cid = 15"
    by (simp_all add: lane_index_def assms)
qed

lemma node_key_inject [simp]: "node_key i = node_key j \<longleftrightarrow> i = j"
  by (simp add: node_key_def)

definition simple_table :: "(nat \<Rightarrow> gotime) \<Rightarrow> nat \<Rightarrow> (bytes \<rightharpoonup> stored)" where
  "simple_table t j =
     (if j = 10 then [node_key bid \<mapsto> SvBytes (Some (data_of (WNode (bo t)))), node_key aid \<mapsto> SvBytes (Some (data_of (WNode (al2 t))))]
      else if j = 15 then [node_key cid \<mapsto> SvBytes (Some (data_of (WNode (co t))))] else Map.empty)"

lemma simple_table_written:
  assumes n: "en_numLanes e = 16"
  shows "fold table_write (lane_part e j (simple_records t)) Map.empty = simple_table t j"
  using simple_lane_index [OF n]
  by (auto simp: lane_part_def simple_records_def simple_table_def fun_upd_twist)

lemma simple_table_facts:
  "int (card (dom (simple_table t j))) = (if j = 10 then 2 else if j = 15 then 1 else 0)"
  "data_size (simple_table t j) = (if j = 10 then 260 else if j = 15 then 142 else 0)"
proof -
  have "length (data_of (WNode (bo t))) = 111" "length (data_of (WNode (al2 t))) = 123" "length (data_of (WNode (co t))) = 126"
    using simple_sizes [of t] by (auto simp: data_of_def)
  then show "int (card (dom (simple_table t j))) = (if j = 10 then 2 else if j = 15 then 1 else 0)"
    "data_size (simple_table t j) = (if j = 10 then 260 else if j = 15 then 142 else 0)"
    by (simp_all add: simple_table_def data_size_def slice_len_def)
qed

lemma foldl_add: "foldl (\<lambda>n s. n + f s) a xs = a + sum_list (map f xs)" for f :: "'a \<Rightarrow> 'b::comm_monoid_add"
  by (induction xs arbitrary: a) (simp_all add: add.assoc)

definition simple_stats :: "engine_stats \<Rightarrow> bool" where
  "simple_stats s \<longleftrightarrow> es_NumLanes s = 16 \<and> es_TotalActiveCount s = 3 \<and> es_TotalActiveSize s = 402 \<and> es_TotalOldMemtables s = 0
     \<and> printed_lanes (es_LaneStats s) = [(10, 2, 260, 0), (15, 1, 142, 0)]"

lemma simple_stats_of:
  assumes n: "length (en_lanes e) = 16" "en_numLanes e = 16"
    and l: "\<And>j. j < 16 \<Longrightarrow> lane_holds cap (S j) j (simple_table t j) (en_lanes e ! j)"
  shows "simple_stats (stats_of_engine e)"
proof -
  let ?row = "\<lambda>s. (ls_ID s, ls_ActiveCount s, ls_ActiveSize s, ls_OldMemtableCount s)"
  let ?rows = "map (\<lambda>j. (j, if j = 10 then 2 else if j = 15 then 1 else 0, if j = 10 then 260 else if j = 15 then 142 else 0, 0)) [0..<16]"
  have rows: "map ?row (map stats_of_lane (en_lanes e)) = ?rows"
  proof (rule nth_equalityI)
    fix j assume "j < length (map ?row (map stats_of_lane (en_lanes e)))"
    then have "j < 16" by (simp add: n)
    with l [OF this] simple_table_facts [of t j] show "map ?row (map stats_of_lane (en_lanes e)) ! j = ?rows ! j"
      by (simp add: n stats_of_lane_def lane_holds_def lane_room_def has_room_def mt_inv_def)
  qed (simp add: n)
  have upt: "[0..<16] = [0, 1, 2, 3, 4, 5, 6, 7, 8, 9, 10, 11, 12, 13, 14, 15::nat]" by (simp add: upt_rec)
  let ?ls = "map stats_of_lane (en_lanes e)"
  have "map ls_ActiveCount ?ls = map (fst \<circ> snd) (map ?row ?ls)" "map ls_ActiveSize ?ls = map (fst \<circ> snd \<circ> snd) (map ?row ?ls)"
    "map ls_OldMemtableCount ?ls = map (snd \<circ> snd \<circ> snd) (map ?row ?ls)"
    "printed_lanes ?ls = filter (\<lambda>r. fst (snd r) > 0) (map ?row ?ls)"
    by (simp_all add: printed_lanes_def filter_map comp_def)
  then show ?thesis unfolding rows
    by (simp add: simple_stats_def stats_of_engine_def Let_def n foldl_add upt del: map_map)
qed

section \<open>Its run\<close>

definition report_ok :: "(nat \<Rightarrow> gotime) \<Rightarrow> simple_report \<Rightarrow> bool" where
  "report_ok t rep \<longleftrightarrow> sr_config rep = (16, 64) \<and> sr_created rep = [al t, bo t, co t] \<and> sr_linked rep = [kn t, aw t, bw t]
     \<and> sr_id rep = aid \<and> sr_name rep = Some (PString (lit ''Alice'')) \<and> sr_age rep = Some (PInt64 30)
     \<and> set (sr_outgoing rep) = {wire_edge (kn t), wire_edge (aw t)} \<and> distinct (map e_ID (sr_outgoing rep))
     \<and> set (sr_neighbors rep) = {wire_node (bo t), wire_node (co t)} \<and> distinct (map n_ID (sr_neighbors rep))
     \<and> set (sr_incoming rep) = {wire_edge (aw t), wire_edge (bw t)} \<and> distinct (map e_ID (sr_incoming rep))
     \<and> sr_newAge rep = Some (PInt64 31) \<and> sr_updated rep = Some (PBool True)"

lemma serve_Cons:
  "serve ((io, now, t, ord, rq) # cs) e = (rps, e') \<longleftrightarrow>
     (\<exists>rp rps' e1. handle io now t ord rq e = (rp, e1) \<and> serve cs e1 = (rps', e') \<and> rps = rp # rps')"
  by (auto simp: apfst_def map_prod_def split: prod.splits)

lemma simple_body_runs:
  assumes v: "healthy_surroundings v" and run: "serve (simple_script v) e = (rps, e')" and ack: "list_all acknowledged rps"
    and spec: "spec_run empty_store (trace_of (simple_script v) rps) s"
  shows "\<exists>rep. simple_body v e = (Inr rep, e') \<and> report_ok (su_time v) rep \<and> sr_stats rep = stats_of_engine e'
    \<and> sr_lanes rep = printed_lanes (es_LaneStats (sr_stats rep))"
proof -
  let ?ps = "su_visit v [(lit ''age'', PInt64 31), (lit ''updated'', PBool True)]" and ?t = "su_time v"
  from run obtain r1 e1 r2 e2 r3 e3 r4 e4 r5 e5 r6 e6 r7 e7 r8 e8 r9 e9 r10 e10 r11 e11 r12 where
    h: "create_node (su_io v 2) (su_now v 2) (al ?t) e = (r1, e1)" "create_node (su_io v 3) (su_now v 3) (bo ?t) e1 = (r2, e2)"
      "create_node (su_io v 4) (su_now v 4) (co ?t) e2 = (r3, e3)" "engine_get_node aid e3 = (r4, e4)"
      "create_edge (su_io v 6) (su_now v 6) (kn ?t) e4 = (r5, e5)" "create_edge (su_io v 7) (su_now v 7) (aw ?t) e5 = (r6, e6)"
      "create_edge (su_io v 8) (su_now v 8) (bw ?t) e6 = (r7, e7)" "engine_outgoing (su_order v 9) aid e7 = (r8, e8)"
      "engine_neighbors (su_order v 10) aid DirectionOut e8 = (r9, e9)" "engine_incoming (su_order v 11) cid e9 = (r10, e10)"
      "update_node (su_io v 12) (su_now v 12) (?t 21) aid ?ps e10 = (r11, e11)" "engine_get_node aid e11 = (r12, e')"
    and rps: "rps = [Done r1, Done r2, Done r3, ANode r4, Done r5, Done r6, Done r7, Edges r8, Nodes r9, Edges r10, Done r11, ANode r12]"
    unfolding simple_script_def Let_def by (auto simp only: serve_Cons handle_simps serve.simps(1) prod.inject)
  from ack have r: "r1 = Inr ()" "r2 = Inr ()" "r3 = Inr ()" "r5 = Inr ()" "r6 = Inr ()" "r7 = Inr ()" "r11 = Inr ()"
    by (simp_all add: rps succeeded_def)
  have upd: "set_properties (?t 21) ?ps (wire_node (al ?t)) = Inr (al2 ?t)"
    using v by (intro simple_update) (simp add: healthy_surroundings_def)
  let ?f = "fold apply_write [WNode (al ?t), WNode (bo ?t), WNode (co ?t), WEdge (kn ?t), WEdge (aw ?t), WEdge (bw ?t)] empty_store"
  obtain g where g: "g = ?f" by blast
  have S: "st_nodes g aid = Some (wire_node (al ?t))" "edges_in g (st_out g aid) = {wire_edge (kn ?t), wire_edge (aw ?t)}"
    "edges_in g (st_in g cid) = {wire_edge (aw ?t), wire_edge (bw ?t)}"
    "st_nodes g bid = Some (wire_node (bo ?t))" "st_nodes g cid = Some (wire_node (co ?t))"
    by (auto simp: g edges_in_def store_simps simp del: apply_write.simps)
  have "neighbor_set g aid DirectionOut = {bid, cid}" by (simp add: neighbor_set_def S)
  then have N: "{n. \<exists>j\<in>neighbor_set g aid DirectionOut. st_nodes g j = Some n} = {wire_node (bo ?t), wire_node (co ?t)}"
    by (auto simp: S)
  from spec have "r4 = Inr (wire_node (al ?t)) \<and> answers (?t 0) (Outgoing aid) g (Edges r8) g
    \<and> answers (?t 0) (Neighbors aid DirectionOut) g (Nodes r9) g \<and> answers (?t 0) (Incoming cid) g (Edges r10) g
    \<and> r12 = Inr (wire_node (al2 ?t))"
    unfolding simple_script_def rps trace_of_def g
    by (auto simp: request_of_def r succeeded_def store_simps upd found_def simp del: apply_write.simps)
  then obtain out ns inc where R: "r4 = Inr (wire_node (al ?t))" "r12 = Inr (wire_node (al2 ?t))"
    "r8 = Inr out" "set out = {wire_edge (kn ?t), wire_edge (aw ?t)}" "distinct (map e_ID out)"
    "r9 = Inr ns" "set ns = {wire_node (bo ?t), wire_node (co ?t)}" "distinct (map n_ID ns)"
    "r10 = Inr inc" "set inc = {wire_edge (aw ?t), wire_edge (bw ?t)}" "distinct (map e_ID inc)"
    by (auto simp only: answers.simps N S)
  have P: "get_property (wire_node (al ?t)) (lit ''name'') = Some (PString (lit ''Alice''))"
    "get_property (wire_node (al ?t)) (lit ''age'') = Some (PInt64 30)"
    "get_property (wire_node (al2 ?t)) (lit ''age'') = Some (PInt64 31)"
    "get_property (wire_node (al2 ?t)) (lit ''updated'') = Some (PBool True)"
    by (simp_all add: get_property_def map_read_def wire_node_def wire_props_def simple_defs)
  show ?thesis
    by (simp add: simple_body_def simple_queries_def build_def must_def simple_built h r R P report_ok_def default_engine_config_def)
qed

lemma simple_run_stats:
  assumes v: "healthy_surroundings v"
    and new: "new_engine J io now (\<lambda>_ _. None) (Some default_engine_config) fs = (Inr e0, fs')" and io: "io_open_ok io'"
    and start: "engine_start io' e0 = (Inr (), e1)" and E1: "en_running e1" "engine_ok e1" "engine_store e1 = empty_store"
    and run: "engine_run B e1 (trace_of (simple_script v) rps) e"
    and ack: "list_all acknowledged rps" "length rps = length (simple_script v)"
  shows "simple_stats (stats_of_engine e)"
proof -
  let ?tr = "trace_of (simple_script v) rps" and ?recs = "simple_records (su_time v)"
  note N = new_engine_Inr [OF new]
  have n0: "en_numLanes e0 = 16" using N(2) by (simp add: default_engine_config_def)
  from fresh_lanes [OF new io] start have n1: "en_numLanes e1 = 16" and lanes: "en_lanes e1 = en_lanes e0" by (auto simp: n0)
  have us: "updates_of (engine_store e1) (asked ?tr) = ?recs"
    using simple_fold [OF v] by (simp add: E1(3) updates_of_def asked_trace_of [OF ack(2)])
  have acks: "\<forall>(t, rq, rp)\<in>set ?tr. acknowledged rp"
    using ack by (auto simp: trace_of_def list_all_iff dest: set_zip_rightD split: prod.splits)
  have "part_size (lane_part e1 j ?recs) < 2 ^ 32" for j
    by (rule le_less_trans [OF simple_part_size]) simp
  with engine_run_lanes [OF run E1(2,1) acks] have n: "en_numLanes e = 16" and R: "lane_runs e1 ?recs e"
    by (simp_all add: us n1)
  have "length (en_lanes e) = 16"
    using engine_run_refines [OF run E1(2,1)] n by (simp add: engine_ok_def lanes_ok_def)
  moreover have "lane_holds (64 * 1024 * 1024) (part_size (lane_part e1 j ?recs)) j (simple_table (su_time v) j) (en_lanes e ! j)"
    if j: "j < 16" for j
  proof -
    from R j n1 obtain ws where ws: "map snd ws = lane_part e1 j ?recs" "lane_run (en_lanes e1 ! j) ws (en_lanes e ! j)"
      by (auto simp: lane_runs_def)
    have "mt_data (mt_new c) = Map.empty" for c by (simp add: mt_new_def)
    then have "lane_holds (64 * 1024 * 1024) 0 j Map.empty (en_lanes e1 ! j)"
      using N(4) [of j] j by (simp add: lanes n0 lane_holds_def lane_room_def new_write_lane_def default_engine_config_def)
    from lane_run_holds [OF ws(2) this] simple_part_size [of e1 j "su_time v"] ws(1) simple_table_written [OF n1]
    show ?thesis by (simp add: total_size_map)
  qed
  ultimately show ?thesis using n by (intro simple_stats_of)
qed

text \<open>
  What an engine leaves behind: \<open>reopens J cfg ls s\<close> says that, whatever part of the unsynced
  bytes in the logs of the lanes \<open>ls\<close> a power cut takes, the next engine on them serves \<open>s\<close>.
\<close>

definition reopens :: "json \<Rightarrow> engine_config \<Rightarrow> lane list \<Rightarrow> store \<Rightarrow> bool" where
  "reopens J cfg ls s \<longleftrightarrow> (\<forall>d io now fs e fs' io'. (\<forall>j < length ls. crash_image (l_wal (ls ! j)) (d j)) \<longrightarrow>
     new_engine J io now (\<lambda>_ j. Some (d j)) (Some cfg) fs = (Inr e, fs') \<longrightarrow> io_open_ok io' \<longrightarrow>
     (\<exists>e'. engine_start io' e = (Inr (), e') \<and> engine_store e' = s))"

text \<open>
  C7: The demonstration program.  In an empty directory, on a healthy file system, it runs to the
  end without a fatal error: it reads back the name and the age it wrote, Alice's edges are the
  two she was given and her neighbours Bob and the company, the company's incoming edges are
  the two jobs, the update shows, the statistics count sixteen lanes, three active
  entries of 402 bytes and no old memtable, two entries (260 bytes) in lane 10, one (142 bytes)
  in lane 15 and none elsewhere, and after the deferred \<open>Stop\<close> a new engine on its files serves the graph of its seven records.
\<close>

theorem simple_example_runs:
  assumes v: "healthy_surroundings v"
    and new: "new_engine J (su_io v 0) (su_now v 0) (\<lambda>_ _. None) (Some default_engine_config) fs = (Inr e0, fs')"
  shows "\<exists>rep e'. simple_main B J v clock ord drained (\<lambda>_ _. None) fs = (Inr rep, Some e') \<and> report_ok (su_time v) rep
    \<and> simple_stats (sr_stats rep) \<and> sr_lanes rep = [(10, 2, 260, 0), (15, 1, 142, 0)]
    \<and> reopens J default_engine_config (en_lanes e') (fold apply_write (simple_records (su_time v)) empty_store)"
proof -
  from v have io: "io_open_ok (su_io v k)" "io_room (su_io v k) = None" "io_sync_ok (su_io v k)" for k
    by (simp_all add: healthy_surroundings_def)
  have n: "en_numLanes e0 = 16" using new_engine_Inr(2) [OF new] by (simp add: default_engine_config_def)
  have lim: "ec_NumWriteLanes default_engine_config < 2 ^ 32" by (simp add: default_engine_config_def)
  have hold: "logs_hold (\<lambda>_. None) (ec_MemtableSize default_engine_config) e0 (\<lambda>_. [])"
    by (simp add: logs_hold_def lane_log_ok_def log_of_def total_size_def default_engine_config_def)
  have S0: "store_of_logs e0 (\<lambda>_. []) = empty_store" by (simp add: store_of_logs_def store_after_def empty_store_def)
  from engine_start_store [OF new lim hold io(1) [of 1]] obtain e1 where
    e1: "engine_start (su_io v 1) e0 = (Inr (), e1)" "engine_store e1 = empty_store" "en_running e1" "engine_ok e1"
      "en_numLanes e1 = en_numLanes e0" by (auto simp: S0)
  obtain rps e where run: "serve (simple_script v) e1 = (rps, e)" by force
  note script = simple_script_ok [OF v, folded S0]
  have room: "\<forall>j < en_numLanes e0. 2 * (total_size [] + part_size (lane_part e0 j
      (updates_of (store_of_logs e0 (\<lambda>_. [])) (map request_of (simple_script v))))) \<le> ec_MemtableSize default_engine_config"
    using simple_fold [OF v]
    by (auto simp: S0 updates_of_def total_size_def default_engine_config_def intro: order_trans [OF simple_part_size])
  from serve_from_start [where B = B, OF new lim hold e1(1) io(1) script room run] have
    ack: "list_all acknowledged rps" "length rps = length (simple_script v)"
    and spec: "spec_run empty_store (trace_of (simple_script v) rps) (engine_store e)"
    and E: "en_running e" "engine_ok e" "engine_run B e1 (trace_of (simple_script v) rps) e"
    by (auto simp: S0)
  from simple_body_runs [OF v run ack(1) spec] obtain rep where
    rep: "simple_body v e1 = (Inr rep, e)" "report_ok (su_time v) rep" "sr_stats rep = stats_of_engine e"
      "sr_lanes rep = printed_lanes (es_LaneStats (sr_stats rep))" by blast
  let ?tr = "trace_of (simple_script v) rps"
  obtain r e' where stop: "engine_stop B J (su_io v 14) clock ord drained e = (r, e')" by force
  have main: "simple_main B J v clock ord drained (\<lambda>_ _. None) fs = (Inr rep, Some e')"
    by (simp add: simple_main_def new must_def e1(1) [unfolded One_nat_def] rep stop)
  have n': "length (en_lanes e') = 16" "en_numLanes e = 16"
    using engine_stop_lanes [OF E(1) stop] E(2) engine_run_numLanes [OF E(3) e1(4,3)] by (simp_all add: engine_ok_def lanes_ok_def e1(5) n)
  have G: "graph_of ?tr = fold apply_write (simple_records (su_time v)) empty_store" "records_of ?tr = simple_records (su_time v)"
    using simple_fold [OF v] by (simp_all add: graph_of_def records_of_def updates_of_def asked_trace_of [OF ack(2)])
  have "reopens J default_engine_config (en_lanes e') (graph_of ?tr)"
    unfolding reopens_def
  proof (intro allI impI)
    fix d io2 now2 fs2 e2 fs2' and io3 :: wal_io
    assume d: "\<forall>j < length (en_lanes e'). crash_image (l_wal (en_lanes e' ! j)) (d j)"
      and new2: "new_engine J io2 now2 (\<lambda>_ j. Some (d j)) (Some default_engine_config) fs2 = (Inr e2, fs2')" and io3: "io_open_ok io3"
    have "lifetimes B J default_engine_config (\<lambda>j. Some (d j)) ([] @ ?tr)"
      by (rule lifetimes.stopped [OF lifetimes.fresh new io(1) e1(1) _ run stop io(2,3)])
        (use script d in \<open>simp_all add: n n' e1(2) S0\<close>)
    moreover have "room_for default_engine_config ?tr e2"
      by (auto simp: room_for_def G default_engine_config_def intro: order_trans [OF simple_part_size])
    ultimately show "\<exists>e3. engine_start io3 e2 = (Inr (), e3) \<and> engine_store e3 = graph_of ?tr"
      using lifetimes_start [OF _ lim _ new2 io3, of B] by (auto simp: default_engine_config_def)
  qed
  moreover have "simple_stats (sr_stats rep)"
    unfolding rep(3) by (rule simple_run_stats [OF v new io(1) e1(1,3,4,2) E(3) ack])
  moreover from this rep(4) have "sr_lanes rep = [(10, 2, 260, 0), (15, 1, 142, 0)]" by (simp add: simple_stats_def)
  ultimately show ?thesis using main rep(2) unfolding G by blast
qed

definition calm_day :: surroundings where
  "calm_day = \<lparr>su_io = (\<lambda>_. io_fine), su_now = (\<lambda>_. 0), su_time = (\<lambda>_. time_unix 0), su_order = (\<lambda>_ ks. ks),
     su_visit = (\<lambda>ps. ps)\<rparr>"

theorem simple_example_runs_witness:
  "\<exists>J rep e'. simple_main tiny_bloom J calm_day (\<lambda>_. 0) (\<lambda>_. []) (\<lambda>_. False) (\<lambda>_ _. None) Map.empty = (Inr rep, Some e')
     \<and> sr_newAge rep = Some (PInt64 31) \<and> es_TotalActiveSize (sr_stats rep) = 402"
proof -
  fix x
  obtain e0 fs where "new_engine (one_json x) io_fine 0 (\<lambda>_ _. None) (Some default_engine_config) Map.empty = (Inr e0, fs)"
    using fine_new_engine [of default_engine_config x "\<lambda>_ _. None"] by (auto simp: default_engine_config_def)
  then have new: "new_engine (one_json x) (su_io calm_day 0) (su_now calm_day 0) (\<lambda>_ _. None) (Some default_engine_config) Map.empty
    = (Inr e0, fs)" by (simp add: calm_day_def)
  have v: "healthy_surroundings calm_day"
    by (simp add: healthy_surroundings_def calm_day_def io_fine_def map_order_def)
  from simple_example_runs [OF v new, of tiny_bloom "\<lambda>_. 0" "\<lambda>_. []" "\<lambda>_. False"] show ?thesis
    by (auto simp: report_ok_def simple_stats_def)
qed

end
