(* ===== verification/Provenance.thy ===== *)
theory Provenance
  imports Engine_Restart Engine_Flush
begin

text \<open>
  Where data comes from.  With everything running at once - requests, syncs, compactions, and the
  lane flushers, whose flushes take records out of reach - the engine no longer answers as one
  graph; what is left is that it never invents anything.
\<close>

section \<open>Tables, lanes and caches that hold known records only\<close>

definition node_table_from :: "(bytes \<Rightarrow> node \<Rightarrow> bool) \<Rightarrow> memtable \<Rightarrow> bool" where
  "node_table_from P m \<longleftrightarrow> (\<forall>i n. get_node m i = Inr n \<longrightarrow> P i n)"

definition edge_table_from :: "(bytes \<Rightarrow> edge \<Rightarrow> bool) \<Rightarrow> memtable \<Rightarrow> bool" where
  "edge_table_from Q m \<longleftrightarrow> (\<forall>i d. get_edge m i = Inr d \<longrightarrow> Q i d)"

definition lane_from :: "(bytes \<Rightarrow> node \<Rightarrow> bool) \<Rightarrow> (bytes \<Rightarrow> edge \<Rightarrow> bool) \<Rightarrow> lane \<Rightarrow> bool" where
  "lane_from P Q l \<longleftrightarrow> list_all (node_table_from P) (l_active l # map snd (l_old l))
     \<and> list_all (edge_table_from Q) (l_activeEdges l # l_oldEdges l)"

definition engine_from :: "(bytes \<Rightarrow> node \<Rightarrow> bool) \<Rightarrow> (bytes \<Rightarrow> edge \<Rightarrow> bool) \<Rightarrow> engine \<Rightarrow> bool" where
  "engine_from P Q e \<longleftrightarrow> list_all (lane_from P Q) (en_lanes e) \<and> tiers_hold P Q (en_cache e)
     \<and> 0 < en_numLanes e \<and> en_numLanes e < 2 ^ 32 \<and> length (en_lanes e) = en_numLanes e"

named_theorems from_intro \<open>steps that keep a lane's records known\<close>

lemma mt_put_data:
  "mt_put k v m = (r, m') \<Longrightarrow> mt_data m' = mt_data m \<or> mt_data m' = (mt_data m)(k \<mapsto> SvBytes v)"
  by (auto simp: mt_put_def Let_def split: if_splits option.splits stored.splits)

lemma put_node_from:
  assumes "node_table_from P m" and "node_ok n" and "P (n_ID n) (wire_node n)" and "put_node n m = (r, m')"
  shows "node_table_from P m'"
proof (cases "serialize_node n")
  case (Inl e)
  with assms show ?thesis by (auto simp: put_node_def wrapE_def split: go_error.splits)
next
  case (Inr bs)
  with assms(4) have "mt_put (node_key (n_ID n)) (Some bs) m = (r, m')" by (simp add: put_node_def)
  from mt_put_data [OF this] deserialize_serialize_node [OF Inr assms(2)] assms(1,3) show ?thesis
    by (auto simp: node_table_from_def get_node_def mt_get_def node_key_def split: if_splits)
qed

lemma put_edge_from:
  assumes "edge_table_from Q m" and "edge_ok d" and "Q (e_ID d) (wire_edge d)" and "put_edge d m = (r, m')"
  shows "edge_table_from Q m'"
proof (cases "serialize_edge d")
  case (Inl e)
  with assms show ?thesis by (auto simp: put_edge_def wrapE_def split: go_error.splits)
next
  case (Inr bs)
  with assms(4) have "mt_put (edge_key (e_ID d)) (Some bs) m = (r, m')" by (simp add: put_edge_def)
  from mt_put_data [OF this] deserialize_serialize_edge [OF Inr assms(2)] assms(1,3) show ?thesis
    by (auto simp: edge_table_from_def get_edge_def mt_get_def edge_key_def split: if_splits)
qed

lemma tables_from_simps [simp]:
  "node_table_from P (mt_new sz)" "edge_table_from Q (mt_new sz)"
  "node_table_from P (mt_freeze m) = node_table_from P m" "edge_table_from Q (mt_freeze m) = edge_table_from Q m"
  by (simp_all add: node_table_from_def edge_table_from_def get_node_def get_edge_def)

lemma on_active_from [from_intro]:
  "lane_from P Q l \<Longrightarrow> node_ok n \<Longrightarrow> P (n_ID n) (wire_node n) \<Longrightarrow> lane_from P Q (snd (on_active (put_node n) l))"
  by (auto simp: lane_from_def on_active_def dest: put_node_from split: prod.splits)

lemma on_edges_from [from_intro]:
  "lane_from P Q l \<Longrightarrow> edge_ok d \<Longrightarrow> Q (e_ID d) (wire_edge d) \<Longrightarrow> lane_from P Q (snd (on_edges (put_edge d) l))"
  by (auto simp: lane_from_def on_edges_def dest: put_edge_from split: prod.splits)

lemma on_adj_from [from_intro]:
  "lane_from P Q l \<Longrightarrow> lane_from P Q (snd (add_out d l))" "lane_from P Q l \<Longrightarrow> lane_from P Q (snd (add_in d l))"
  by (auto simp: lane_from_def add_out_def add_in_def on_adj_def split: prod.splits)

lemma log_write_from [from_intro]: "lane_from P Q l \<Longrightarrow> lane_from P Q (snd (log_write io now ty k v l))"
  by (auto simp: lane_from_def log_write_def split: prod.splits)

lemma rotate_from [from_intro]: "lane_from P Q l \<Longrightarrow> lane_from P Q (rotate_memtable l)"
  by (simp add: lane_from_def rotate_memtable_def)

lemma check_rotation_from [from_intro]:
  "lane_from P Q l \<Longrightarrow> lane_from P Q (snd (check_node_rotation l))" "lane_from P Q l \<Longrightarrow> lane_from P Q (snd (check_edge_rotation l))"
  by (simp_all add: check_node_rotation_def check_edge_rotation_def rotate_from)

lemma on_error_from [from_intro]:
  "lane_from P Q (snd r) \<Longrightarrow> (\<And>l. lane_from P Q l \<Longrightarrow> lane_from P Q (snd (h l)))
    \<Longrightarrow> (\<And>l. lane_from P Q l \<Longrightarrow> lane_from P Q (snd (c l))) \<Longrightarrow> lane_from P Q (snd (on_error r h c))"
  by (auto simp: on_error_def split: prod.splits sum.splits)

lemma or_return_from [from_intro]:
  "lane_from P Q (snd r) \<Longrightarrow> (\<And>l. lane_from P Q l \<Longrightarrow> lane_from P Q (snd (c l))) \<Longrightarrow> lane_from P Q (snd (or_return msg r c))"
  by (auto simp: or_return_def split: prod.splits sum.splits)

lemma done_from [from_intro]: "lane_from P Q l \<Longrightarrow> lane_from P Q (snd (x, l))"
  by simp

lemma write_node_from:
  assumes "lane_from P Q l" and n: "node_ok n" "P (n_ID n) (wire_node n)"
  shows "lane_from P Q (snd (write_node io now n l))"
  unfolding write_node_def using assms
  by (auto split: sum.splits intro!: from_intro)

lemma update_adjacency_from [from_intro]:
  assumes "lane_from P Q l" and "edge_ok d" "Q (e_ID d) (wire_edge d)"
  shows "lane_from P Q (snd (update_adjacency d l))"
  unfolding update_adjacency_def using assms by (auto intro!: from_intro)

lemma write_edge_from:
  assumes "lane_from P Q l" and "edge_ok d" "Q (e_ID d) (wire_edge d)"
  shows "lane_from P Q (snd (write_edge io now d l))"
  unfolding write_edge_def using assms by (auto split: sum.splits intro!: from_intro)

lemma lane_shrunk_from:
  assumes "lane_shrunk l l'" and "lane_from P Q l"
  shows "lane_from P Q l'"
proof -
  from assms(1) obtain b ts where l': "l' = l\<lparr>l_flushCh := b, l_old := ts\<rparr>" "subseq ts (l_old l)"
    by (auto simp: lane_shrunk_def)
  then have "set ts \<subseteq> set (l_old l)" by (auto elim: list_emb_set)
  with assms(2) show ?thesis by (auto simp: l'(1) lane_from_def list_all_iff)
qed

section \<open>Reads\<close>

text \<open>The records the caches can hold under their identifiers.\<close>

definition own_ids :: "(bytes \<Rightarrow> node \<Rightarrow> bool) \<Rightarrow> (bytes \<Rightarrow> edge \<Rightarrow> bool) \<Rightarrow> bool" where
  "own_ids P Q \<longleftrightarrow> (\<forall>i n. P i n \<longrightarrow> n_ID n = i \<and> node_ok n \<and> n_Properties n \<noteq> None) \<and> (\<forall>i d. Q i d \<longrightarrow> e_ID d = i \<and> edge_ok d)"

lemma own_idsD:
  assumes "own_ids P Q"
  shows "P i n \<Longrightarrow> n_ID n = i" "P i n \<Longrightarrow> clone_node n = n" "Q i d \<Longrightarrow> e_ID d = i" "Q i d \<Longrightarrow> clone_edge d = d"
    "P i n \<Longrightarrow> node_ok n" "P i n \<Longrightarrow> n_Properties n \<noteq> None"
  using assms by (auto simp: own_ids_def node_ok_def edge_ok_def wire_props_ok_def intro!: clone_node_id clone_edge_id)

lemma first_found_Some: "first_found f ts = Some x \<Longrightarrow> \<exists>t\<in>set ts. f t = Inr x"
  by (induction ts) (auto split: sum.splits)

lemma read_node_from: "lane_from P Q l \<Longrightarrow> read_node l i = Inr n \<Longrightarrow> P i n"
  by (auto simp: read_node_def lane_from_def list_all_iff node_table_from_def split: sum.splits option.splits
      dest!: first_found_Some)

lemma read_edge_from: "lane_from P Q l \<Longrightarrow> read_edge l i = Inr d \<Longrightarrow> Q i d"
  by (auto simp: read_edge_def lane_from_def list_all_iff edge_table_from_def split: sum.splits option.splits
      dest!: first_found_Some)

lemma probed_lane:
  assumes "engine_from P Q e" and "l \<in> set (probe_order e i)"
  shows "lane_from P Q l"
proof -
  from assms(1) have "lane_index e i < length (en_lanes e)" by (simp add: engine_from_def lane_index_less)
  with assms show ?thesis by (auto simp: engine_from_def probe_order_def Let_def list_all_length)
qed

lemma cached_from: "engine_from P Q e \<Longrightarrow> tiers_hold P Q c \<Longrightarrow> engine_from P Q (e\<lparr>en_cache := c\<rparr>)"
  by (simp add: engine_from_def)

definition looks :: "(bytes \<Rightarrow> node \<Rightarrow> bool) \<Rightarrow> (bytes \<Rightarrow> edge \<Rightarrow> bool) \<Rightarrow> engine \<Rightarrow> engine \<Rightarrow> bool" where
  "looks P Q e e' \<longleftrightarrow> (\<exists>c. e' = e\<lparr>en_cache := c\<rparr>) \<and> engine_from P Q e'"

lemma looks_refl: "engine_from P Q e \<Longrightarrow> looks P Q e e"
  unfolding looks_def by (intro conjI exI [of _ "en_cache e"]) simp_all

lemma looks_trans: "looks P Q e e1 \<Longrightarrow> looks P Q e1 e2 \<Longrightarrow> looks P Q e e2"
  by (auto simp: looks_def)

lemma get_node_from:
  assumes F: "engine_from P Q e" and own: "own_ids P Q" and run: "engine_get_node i e = (r, e')"
  shows "looks P Q e e' \<and> (\<forall>n. r = Inr n \<longrightarrow> P i n)"
proof (cases "en_running e")
  case False
  with run F looks_refl [OF F] show ?thesis by (auto simp: engine_get_node_def)
next
  case True
  obtain q c where g: "mlc_get_node i (en_cache e) = (q, c)" by force
  from F have "tiers_hold P Q (en_cache e)" by (simp add: engine_from_def)
  note C = mlc_get_node_ok [OF this g]
  from C cached_from [OF F] have look: "looks P Q e (e\<lparr>en_cache := c\<rparr>)" by (auto simp: looks_def)
  show ?thesis
  proof (cases "q = Inr None")
    case False
    with C obtain n where "q = Inr (Some n)" "P i n" by blast
    with run True g look own_idsD [OF own] show ?thesis by (auto simp: engine_get_node_def)
  next
    case miss: True
    show ?thesis
    proof (cases "first_found (\<lambda>l. read_node l i) (probe_order e i)")
      case None
      with run True g miss look show ?thesis by (auto simp: engine_get_node_def)
    next
      case (Some n)
      from first_found_Some [OF Some] probed_lane [OF F] read_node_from have n: "P i n" by blast
      obtain r1 c1 where p: "mlc_put_node (n_ID n) n c = (r1, c1)" by force
      from C have "tiers_hold P Q c" by blast
      from mlc_put_node_ok [OF this _ p] n own_idsD(1) [OF own n] have "tiers_hold P Q c1" by simp
      from cached_from [OF F this] have "looks P Q e (e\<lparr>en_cache := c1\<rparr>)" by (auto simp: looks_def)
      with run True g miss Some n p own_idsD(2) [OF own n] show ?thesis
        by (auto simp: engine_get_node_def mlc_put_node_by_id_eq)
    qed
  qed
qed

lemma get_edge_from:
  assumes F: "engine_from P Q e" and own: "own_ids P Q" and run: "engine_get_edge i e = (r, e')"
  shows "looks P Q e e' \<and> (\<forall>n. r = Inr n \<longrightarrow> Q i n)"
proof (cases "en_running e")
  case False
  with run F looks_refl [OF F] show ?thesis by (auto simp: engine_get_edge_def)
next
  case True
  obtain q c where g: "mlc_get_edge i (en_cache e) = (q, c)" by force
  from F have "tiers_hold P Q (en_cache e)" by (simp add: engine_from_def)
  note C = mlc_get_edge_ok [OF this g]
  from C cached_from [OF F] have look: "looks P Q e (e\<lparr>en_cache := c\<rparr>)" by (auto simp: looks_def)
  show ?thesis
  proof (cases "q = Inr None")
    case False
    with C obtain n where "q = Inr (Some n)" "Q i n" by blast
    with run True g look own_idsD [OF own] show ?thesis by (auto simp: engine_get_edge_def)
  next
    case miss: True
    show ?thesis
    proof (cases "first_found (\<lambda>l. read_edge l i) (probe_order e i)")
      case None
      with run True g miss look show ?thesis by (auto simp: engine_get_edge_def)
    next
      case (Some n)
      from first_found_Some [OF Some] probed_lane [OF F] read_edge_from have n: "Q i n" by blast
      obtain r1 c1 where p: "mlc_put_edge (e_ID n) n c = (r1, c1)" by force
      from C have "tiers_hold P Q c" by blast
      from mlc_put_edge_ok [OF this _ p] n own_idsD(3) [OF own n] have "tiers_hold P Q c1" by simp
      from cached_from [OF F this] have "looks P Q e (e\<lparr>en_cache := c1\<rparr>)" by (auto simp: looks_def)
      with run True g miss Some n p own_idsD(4) [OF own n] show ?thesis
        by (auto simp: engine_get_edge_def mlc_put_edge_by_id_eq)
    qed
  qed
qed

lemma fetch_all_from:
  assumes get: "\<And>e i r e'. engine_from P Q e \<Longrightarrow> get i e = (r, e') \<Longrightarrow> looks P Q e e' \<and> (\<forall>x. r = Inr x \<longrightarrow> R x)"
    and "engine_from P Q e" and "fetch_all get ids acc e = (r, e')" and "list_all R acc"
  shows "looks P Q e e' \<and> (\<forall>xs. r = Inr xs \<longrightarrow> list_all R xs)"
  using assms(2-)
proof (induction ids arbitrary: acc e)
  case Nil
  then show ?case by (auto intro: looks_refl)
next
  case (Cons i ids)
  obtain q e1 where g: "get i e = (q, e1)" by force
  note G = get [OF Cons.prems(1) g]
  then have F1: "engine_from P Q e1" by (simp add: looks_def)
  show ?case
  proof (cases q)
    case (Inl er)
    with Cons.prems(2) g G Cons.IH [OF F1 _ Cons.prems(3)] show ?thesis by (auto intro: looks_trans split: if_splits)
  next
    case (Inr x)
    with Cons.prems g G Cons.IH [OF F1, of "acc @ [x]"] show ?thesis by (auto intro: looks_trans)
  qed
qed

lemma edges_from:
  assumes F: "engine_from P Q e" and own: "own_ids P Q" and run: "fetch_all engine_get_edge ids [] e = (r, e')"
  shows "looks P Q e e' \<and> (\<forall>ds. r = Inr ds \<longrightarrow> list_all (\<lambda>d. Q (e_ID d) d) ds)"
  by (rule fetch_all_from [OF _ F run]) (use get_edge_from [OF _ own] own_idsD(3) [OF own] in \<open>fastforce+\<close>)

lemma nodes_from:
  assumes F: "engine_from P Q e" and own: "own_ids P Q" and run: "fetch_all engine_get_node ids [] e = (r, e')"
  shows "looks P Q e e' \<and> (\<forall>ns. r = Inr ns \<longrightarrow> list_all (\<lambda>n. P (n_ID n) n) ns)"
  by (rule fetch_all_from [OF _ F run]) (use get_node_from [OF _ own] own_idsD(1) [OF own] in \<open>fastforce+\<close>)

lemma adjacent_from:
  assumes F: "engine_from P Q e" and own: "own_ids P Q"
  shows "engine_outgoing ord i e = (r, e') \<Longrightarrow> looks P Q e e' \<and> (\<forall>ds. r = Inr ds \<longrightarrow> list_all (\<lambda>d. Q (e_ID d) d) ds)"
    "engine_incoming ord i e = (r, e') \<Longrightarrow> looks P Q e e' \<and> (\<forall>ds. r = Inr ds \<longrightarrow> list_all (\<lambda>d. Q (e_ID d) d) ds)"
  using edges_from [OF F own] looks_refl [OF F]
  by (auto simp: engine_outgoing_def engine_incoming_def Let_def split: if_splits)

lemma neighbor_ids_from:
  assumes F: "engine_from P Q e" and own: "own_ids P Q" and run: "neighbor_ids ord i d e = (r, e')"
  shows "looks P Q e e'"
proof -
  obtain ro e1 where o: "engine_outgoing ord i e = (ro, e1)" by force
  obtain ri e2 where i: "engine_incoming ord i e = (ri, e2)" by force
  obtain rb e3 where b: "engine_incoming ord i e1 = (rb, e3)" by force
  from adjacent_from [OF F own] o i have L: "looks P Q e e1" "looks P Q e e2" by blast+
  then have "engine_from P Q e1" by (simp add: looks_def)
  from adjacent_from(2) [OF this own b] L have "looks P Q e e3" by (blast intro: looks_trans)
  with L run o i b looks_refl [OF F] show ?thesis
    by (auto simp: neighbor_ids_def split: direction.splits sum.splits)
qed

lemma neighbors_from:
  assumes F: "engine_from P Q e" and own: "own_ids P Q" and run: "engine_neighbors ord i d e = (r, e')"
  shows "looks P Q e e' \<and> (\<forall>ns. r = Inr ns \<longrightarrow> list_all (\<lambda>n. P (n_ID n) n) ns)"
proof -
  obtain q e1 where q: "neighbor_ids ord i d e = (q, e1)" by force
  note L = neighbor_ids_from [OF F own q]
  then have "engine_from P Q e1" by (simp add: looks_def)
  from nodes_from [OF this own] L q run looks_refl [OF F] show ?thesis
    by (auto simp: engine_neighbors_def split: if_splits sum.splits intro: looks_trans)
qed

section \<open>Requests\<close>

text \<open>What a request may add, and what its reply may contain.\<close>

fun admits :: "(bytes \<Rightarrow> node \<Rightarrow> bool) \<Rightarrow> (bytes \<Rightarrow> edge \<Rightarrow> bool) \<Rightarrow> gotime \<Rightarrow> request \<Rightarrow> bool" where
  "admits P Q t (CreateNode n) \<longleftrightarrow> node_ok n \<and> P (n_ID n) (wire_node n)"
| "admits P Q t (UpdateNode i ps) \<longleftrightarrow> (\<forall>n n'. P i n \<longrightarrow> set_properties t ps n = Inr n' \<longrightarrow> node_ok n' \<and> P i (wire_node n'))"
| "admits P Q t (CreateEdge d) \<longleftrightarrow> edge_ok d \<and> Q (e_ID d) (wire_edge d)"
| "admits P Q t _ \<longleftrightarrow> True"

fun known_reply :: "(bytes \<Rightarrow> node \<Rightarrow> bool) \<Rightarrow> (bytes \<Rightarrow> edge \<Rightarrow> bool) \<Rightarrow> request \<Rightarrow> reply \<Rightarrow> bool" where
  "known_reply P Q (GetNode i) (ANode (Inr n)) \<longleftrightarrow> P i n"
| "known_reply P Q (GetEdge i) (AnEdge (Inr d)) \<longleftrightarrow> Q i d"
| "known_reply P Q rq (Edges (Inr ds)) \<longleftrightarrow> list_all (\<lambda>d. Q (e_ID d) d) ds"
| "known_reply P Q rq (Nodes (Inr ns)) \<longleftrightarrow> list_all (\<lambda>n. P (n_ID n) n) ns"
| "known_reply P Q rq rp \<longleftrightarrow> True"

lemma known_reply_iff [simp]:
  "known_reply P Q (GetNode i) (ANode r) \<longleftrightarrow> (\<forall>n. r = Inr n \<longrightarrow> P i n)"
  "known_reply P Q rq (Done u)"
  by (cases r; simp) (cases rq; simp)

lemma known_edge_iff [simp]: "known_reply P Q (GetEdge i) (AnEdge r) \<longleftrightarrow> (\<forall>d. r = Inr d \<longrightarrow> Q i d)"
  by (cases r) simp_all

lemma known_edges_iff [simp]:
  "known_reply P Q rq (Edges r) \<longleftrightarrow> (\<forall>xs. r = Inr xs \<longrightarrow> list_all (\<lambda>d. Q (e_ID d) d) xs)"
  by (cases r; cases rq; simp)

lemma known_nodes_iff [simp]:
  "known_reply P Q rq (Nodes r) \<longleftrightarrow> (\<forall>xs. r = Inr xs \<longrightarrow> list_all (\<lambda>n. P (n_ID n) n) xs)"
  by (cases r; cases rq; simp)

lemma engine_from_set_lane:
  "engine_from P Q e \<Longrightarrow> lane_from P Q l \<Longrightarrow> engine_from P Q (set_lane j l e)"
  by (auto simp: engine_from_def set_lane_def list_all_iff dest!: set_update_subset_insert [THEN subsetD])

lemma engine_from_nth: "engine_from P Q e \<Longrightarrow> lane_from P Q (en_lanes e ! lane_index e k)"
  by (simp add: engine_from_def list_all_length lane_index_less)

lemma create_node_from:
  assumes F: "engine_from P Q e" and ad: "admits P Q t (CreateNode n)" and run: "create_node io now n e = (r, e')"
  shows "engine_from P Q e'"
proof -
  have "lane_from P Q (snd (write_node io now n (en_lanes e ! lane_index e (n_ID n))))"
    by (rule write_node_from [OF engine_from_nth [OF F]]) (use ad in simp_all)
  with F run show ?thesis
    by (auto simp: create_node_def Let_def intro: engine_from_set_lane split: if_splits prod.splits)
qed

lemma update_node_from:
  assumes F: "engine_from P Q e" and own: "own_ids P Q" and ad: "admits P Q t (UpdateNode i ps)"
    and run: "update_node io now t i ps e = (r, e')"
  shows "engine_from P Q e'"
proof (cases "en_running e")
  case False
  with run F show ?thesis by (auto simp: update_node_def)
next
  case True
  obtain q e1 where g: "engine_get_node i e = (q, e1)" by force
  note G = get_node_from [OF F own g]
  then have F1: "engine_from P Q e1" by (simp add: looks_def)
  show ?thesis
  proof (cases q)
    case (Inl er)
    with run True g F1 show ?thesis by (auto simp: update_node_def)
  next
    case (Inr n)
    with G have n: "P i n" by blast
    from set_properties_ok [OF own_idsD(6) [OF own n], of t ps] obtain n' where n': "set_properties t ps n = Inr n'" "n_ID n' = n_ID n"
      by blast
    with ad n own_idsD(1) [OF own n] have ok: "node_ok n'" "P (n_ID n') (wire_node n')" by auto
    let ?e = "e1\<lparr>en_cache := invalidate_node i (en_cache e1)\<rparr>"
    have "tiers_hold P Q (invalidate_node i (en_cache e1))"
      by (rule invalidate_node_ok) (use F1 in \<open>simp_all add: engine_from_def\<close>)
    from cached_from [OF F1 this] have F2: "engine_from P Q ?e" .
    obtain l where l: "write_node io now n' (en_lanes ?e ! lane_index ?e i) = (r, l)" "e' = set_lane (lane_index ?e i) l ?e"
      using run True g Inr n' own_idsD(2) [OF own n] by (auto simp: update_node_def Let_def split: prod.splits)
    with write_node_from [OF engine_from_nth [OF F2, of i] ok, of io now] have "lane_from P Q l" by simp
    from engine_from_set_lane [OF F2 this] l(2) show ?thesis by simp
  qed
qed

lemma create_edge_from:
  assumes F: "engine_from P Q e" and own: "own_ids P Q" and ad: "admits P Q t (CreateEdge d)"
    and run: "create_edge io now d e = (r, e')"
  shows "engine_from P Q e'"
proof (cases "en_running e")
  case False
  with run F show ?thesis by (auto simp: create_edge_def)
next
  case True
  obtain q e1 where g: "engine_get_node (e_FromNodeID d) e = (q, e1)" by force
  obtain q2 e2 where g2: "engine_get_node (e_ToNodeID d) e1 = (q2, e2)" by force
  from get_node_from [OF F own g] have F1: "engine_from P Q e1" by (simp add: looks_def)
  from get_node_from [OF F1 own g2] have F2: "engine_from P Q e2" by (simp add: looks_def)
  have "lane_from P Q (snd (write_edge io now d (en_lanes e2 ! lane_index e2 (e_ID d))))"
    by (rule write_edge_from [OF engine_from_nth [OF F2]]) (use ad in simp_all)
  with run True g g2 F1 F2 show ?thesis
    by (auto simp: create_edge_def Let_def intro: engine_from_set_lane split: sum.splits prod.splits)
qed

lemma handle_from:
  assumes F: "engine_from P Q e" and own: "own_ids P Q" and ad: "admits P Q t rq" and run: "handle io now t ord rq e = (rp, e')"
  shows "engine_from P Q e' \<and> known_reply P Q rq rp"
proof (cases rq)
  case (CreateNode n)
  with run ad create_node_from [OF F, of t n io now] show ?thesis by (auto simp: handle_simps simp del: handle.simps)
next
  case (UpdateNode i ps)
  with run ad update_node_from [OF F own, of t i ps io now] show ?thesis by (auto simp: handle_simps simp del: handle.simps)
next
  case (GetNode i)
  with run get_node_from [OF F own, of i] show ?thesis by (auto simp: handle_simps looks_def simp del: handle.simps)
next
  case (CreateEdge d)
  with run ad create_edge_from [OF F own, of t d io now] show ?thesis by (auto simp: handle_simps simp del: handle.simps)
next
  case (GetEdge i)
  with run get_edge_from [OF F own, of i] show ?thesis by (auto simp: handle_simps looks_def simp del: handle.simps)
next
  case (Outgoing i)
  with run adjacent_from(1) [OF F own, of ord i] show ?thesis by (auto simp: handle_simps looks_def simp del: handle.simps)
next
  case (Incoming i)
  with run adjacent_from(2) [OF F own, of ord i] show ?thesis by (auto simp: handle_simps looks_def simp del: handle.simps)
next
  case (Neighbors i d)
  with run neighbors_from [OF F own, of ord i d] show ?thesis by (auto simp: handle_simps looks_def simp del: handle.simps)
qed

section \<open>Runs with everything in them\<close>

text \<open>
  The versions of a node: one that was there at the start, one that a request created, or a
  version with the properties of some update request set.  An edge has no other versions than
  those created.  In a run of the whole system any request may come, with any reply, and
  between the requests the logs are synced, the compactor runs and the lane flushers handle
  their events, with any fault anywhere.
\<close>

inductive node_version :: "store \<Rightarrow> (gotime \<times> request) list \<Rightarrow> bytes \<Rightarrow> node \<Rightarrow> bool" for s0 rqs where
  initial: "st_nodes s0 i = Some n \<Longrightarrow> node_version s0 rqs i n"
| created: "(t, CreateNode n) \<in> set rqs \<Longrightarrow> node_ok n \<Longrightarrow> node_version s0 rqs (n_ID n) (wire_node n)"
| updated: "node_version s0 rqs i n \<Longrightarrow> (t, UpdateNode i ps) \<in> set rqs \<Longrightarrow> set_properties t ps n = Inr n' \<Longrightarrow> node_ok n' \<Longrightarrow>
     node_version s0 rqs i (wire_node n')"

definition edge_version :: "store \<Rightarrow> (gotime \<times> request) list \<Rightarrow> bytes \<Rightarrow> edge \<Rightarrow> bool" where
  "edge_version s0 rqs i d \<longleftrightarrow> st_edges s0 i = Some d
     \<or> (\<exists>t d0. (t, CreateEdge d0) \<in> set rqs \<and> edge_ok d0 \<and> i = e_ID d0 \<and> d = wire_edge d0)"

fun encodable :: "store \<Rightarrow> (gotime \<times> request) list \<Rightarrow> gotime \<Rightarrow> request \<Rightarrow> bool" where
  "encodable s0 rqs t (CreateNode n) \<longleftrightarrow> node_ok n"
| "encodable s0 rqs t (UpdateNode i ps) \<longleftrightarrow>
     (\<forall>n n'. node_version s0 (rqs @ [(t, UpdateNode i ps)]) i n \<longrightarrow> set_properties t ps n = Inr n' \<longrightarrow> node_ok n')"
| "encodable s0 rqs t (CreateEdge d) \<longleftrightarrow> edge_ok d"
| "encodable s0 rqs t _ \<longleftrightarrow> True"

inductive system_run :: "'b bloom \<Rightarrow> engine \<Rightarrow> (gotime \<times> request \<times> reply) list \<Rightarrow> engine \<Rightarrow> bool" for B e0 where
  start: "system_run B e0 [] e0"
| request: "system_run B e0 tr e \<Longrightarrow> encodable (engine_store e0) (asked tr) t rq \<Longrightarrow>
     handle io now t ord rq e = (rp, e') \<Longrightarrow> system_run B e0 (tr @ [(t, rq, rp)]) e'"
| sync: "system_run B e0 tr e \<Longrightarrow> j < en_numLanes e \<Longrightarrow> wal_sync io (l_wal (en_lanes e ! j)) = (r, w) \<Longrightarrow>
     system_run B e0 tr (set_lane j ((en_lanes e ! j)\<lparr>l_wal := w\<rparr>) e)"
| compact: "system_run B e0 tr e \<Longrightarrow> run_compaction B io srt now (en_compactor e) (en_fs e) = (r, c, fs) \<Longrightarrow>
     system_run B e0 tr (e\<lparr>en_compactor := c, en_fs := fs\<rparr>)"
| flush: "system_run B e0 tr e \<Longrightarrow> run_lane_flusher B evs j e = (r, e') \<Longrightarrow> system_run B e0 tr e'"

lemma node_version_mono: "node_version s0 rqs i n \<Longrightarrow> set rqs \<subseteq> set rqs' \<Longrightarrow> node_version s0 rqs' i n"
  by (induction rule: node_version.induct) (auto intro: node_version.intros)

lemma versions_own:
  assumes "lanes_ok e0"
  shows "own_ids (node_version (engine_store e0) rqs) (edge_version (engine_store e0) rqs)"
proof -
  have W: "node_ok n \<Longrightarrow> node_ok (wire_node n) \<and> n_ID (wire_node n) = n_ID n \<and> n_Properties (wire_node n) \<noteq> None" for n
    using wire_node_ok [of n] by (simp add: wire_node_def wire_props_def)
  have "n_ID n = i \<and> node_ok n \<and> n_Properties n \<noteq> None" if "node_version (engine_store e0) rqs i n" for i n
    using that
  proof induction
    case (initial i n)
    with stored_node [OF assms] show ?case by blast
  next
    case (created t n)
    with W show ?case by blast
  next
    case (updated i n t ps n')
    then have "n_ID n' = i" using set_properties_ok [of n t ps] by auto
    with W [OF updated.hyps(4)] show ?case by simp
  qed
  moreover have "e_ID d = i \<and> edge_ok d" if "edge_version (engine_store e0) rqs i d" for i d
    using that stored_edge [OF assms] wire_edge_ok by (auto simp: edge_version_def wire_edge_def)
  ultimately show ?thesis by (simp add: own_ids_def)
qed

lemma engine_from_mono:
  assumes "engine_from P Q e" and "\<And>i n. P i n \<Longrightarrow> P' i n" and "\<And>i d. Q i d \<Longrightarrow> Q' i d"
  shows "engine_from P' Q' e"
  using assms tiers_hold_mono [of P Q "en_cache e" P' Q']
  by (auto simp: engine_from_def lane_from_def node_table_from_def edge_table_from_def list_all_iff)

lemma encodable_admits:
  "encodable s0 rqs t rq \<Longrightarrow> admits (node_version s0 (rqs @ [(t, rq)])) (edge_version s0 (rqs @ [(t, rq)])) t rq"
  by (cases rq) (auto simp: edge_version_def intro: node_version.intros)

lemma flush_frame_from:
  assumes "flush_frame j e e'" and F: "engine_from P Q e"
  shows "engine_from P Q e'"
proof -
  from assms(1) obtain l f fs where e': "e' = e\<lparr>en_lanes := (en_lanes e)[j := l], en_flusher := f, en_fs := fs\<rparr>"
    and l: "lane_shrunk (en_lanes e ! j) l" by (auto simp: flush_frame_def)
  have "engine_from P Q (set_lane j l e)"
  proof (cases "j < length (en_lanes e)")
    case True
    with F have "lane_from P Q (en_lanes e ! j)" by (simp add: engine_from_def list_all_length)
    from engine_from_set_lane [OF F lane_shrunk_from [OF l this]] show ?thesis .
  next
    case False
    with F show ?thesis by (simp add: engine_from_def set_lane_def list_update_beyond)
  qed
  then show ?thesis by (simp add: e' engine_from_def set_lane_def)
qed

lemma system_run_from:
  assumes "system_run B e0 tr e" and "lanes_ok e0" and "engine_from (node_version (engine_store e0) []) (edge_version (engine_store e0) []) e0"
  shows "engine_from (node_version (engine_store e0) (asked tr)) (edge_version (engine_store e0) (asked tr)) e"
  using assms
proof (induction rule: system_run.induct)
  case (request tr e t rq io now ord rp e')
  let ?P = "node_version (engine_store e0) (asked tr @ [(t, rq)])" and ?Q = "edge_version (engine_store e0) (asked tr @ [(t, rq)])"
  have "engine_from ?P ?Q e"
    by (rule engine_from_mono [OF request.IH [OF request.prems]]) (auto intro: node_version_mono simp: edge_version_def)
  from handle_from [OF this versions_own [OF request.prems(1)] encodable_admits [OF request.hyps(2)] request.hyps(3)] show ?case
    by (simp add: asked_snoc)
next
  case (sync tr e j io r w)
  then have F: "engine_from (node_version (engine_store e0) (asked tr)) (edge_version (engine_store e0) (asked tr)) e" by blast
  with sync.hyps(2) have "lane_from (node_version (engine_store e0) (asked tr)) (edge_version (engine_store e0) (asked tr)) (en_lanes e ! j)"
    by (simp add: engine_from_def list_all_length)
  with engine_from_set_lane [OF F] show ?case by (simp add: lane_from_def)
next
  case (flush tr e evs j r e')
  then have "engine_from (node_version (engine_store e0) (asked tr)) (edge_version (engine_store e0) (asked tr)) e" by blast
  with run_lane_flusher_frame [OF flush.hyps(2)] show ?case by (rule flush_frame_from)
qed (simp_all add: engine_from_def)

text \<open>A freshly started engine holds the records of its store and no others.\<close>

lemma recover_entry_old: "recover_entry en l = (r, l') \<Longrightarrow> l_old l' = l_old l \<and> l_oldEdges l' = l_oldEdges l"
  by (auto simp: recover_entry_def ignore_error_def on_error_def add_out_def add_in_def on_active_def on_edges_def on_adj_def
      split: if_splits sum.splits prod.splits)

lemma lane_recover_old:
  "lane_recover io l = (r, l') \<Longrightarrow> l_old l = [] \<and> l_oldEdges l = [] \<Longrightarrow> l_old l' = [] \<and> l_oldEdges l' = []"
  by (erule lane_recover_keeps) (auto dest: recover_entry_old)

lemma recover_lanes_each:
  "recover_lanes io ls = (Inr (), ls') \<Longrightarrow> list_all2 (\<lambda>l l'. lane_recover io l = (Inr (), l')) ls ls'"
  by (induction ls arbitrary: ls') (auto simp: wrapE_Inr_iff split: prod.splits sum.splits)

lemma engine_start_from:
  assumes new: "new_engine J io now logs (Some cfg) fs = (Inr e0, fs')" and start: "engine_start io' e0 = (Inr (), e1)" and ok: "engine_ok e1"
  shows "engine_from (node_version (engine_store e1) []) (edge_version (engine_store e1) []) e1"
proof -
  note N = new_engine_Inr [OF new]
  from ok have L: "lanes_ok e1" and C: "cache_ok e1" by (simp_all add: engine_ok_def)
  from L have len: "length (en_lanes e1) = en_numLanes e1" by (simp add: lanes_ok_def)
  obtain r ls where r: "recover_lanes io' (en_lanes e0) = (r, ls)" by force
  with start N(6-8) have rec: "r = Inr ()" "en_lanes e1 = ls"
    by (auto simp: engine_start_def flusher_start_def compactor_start_def wrapE_Inr_iff split: sum.splits)
  have R: "lane_recover io' (en_lanes e0 ! j) = (Inr (), en_lanes e1 ! j)" and len0: "length (en_lanes e1) = length (en_lanes e0)"
    if "j < length (en_lanes e1)" for j
    using recover_lanes_each [of io' "en_lanes e0" ls] r rec that by (auto simp: list_all2_conv_all_nth)
  have "lane_from (\<lambda>i n. st_nodes (engine_store e1) i = Some n) (\<lambda>i d. st_edges (engine_store e1) i = Some d) (en_lanes e1 ! j)"
    if j: "j < length (en_lanes e1)" for j
  proof -
    let ?l = "en_lanes e1 ! j"
    from j len0 [OF j] N(3,4) have "l_old (en_lanes e0 ! j) = [] \<and> l_oldEdges (en_lanes e0 ! j) = []" by (simp add: new_write_lane_def)
    from lane_recover_old [OF R [OF j] this] have old: "l_old ?l = []" "l_oldEdges ?l = []" by simp_all
    have "st_nodes (engine_store e1) i = Some n" if "get_node (l_active ?l) i = Inr n" for i n
    proof -
      from that old have "node_view ?l i = Some n" by (simp add: node_view_def)
      with homedD(1) [OF L, of j i n] j len show ?thesis by (auto simp: engine_store_sel home_def)
    qed
    moreover have "st_edges (engine_store e1) i = Some d" if "get_edge (l_activeEdges ?l) i = Inr d" for i d
    proof -
      from that old have "edge_view ?l i = Some d" by (simp add: edge_view_def)
      with homedD(2) [OF L, of j i d] j len show ?thesis by (auto simp: engine_store_sel home_def)
    qed
    ultimately show ?thesis by (simp add: lane_from_def old node_table_from_def edge_table_from_def)
  qed
  then have "engine_from (\<lambda>i n. st_nodes (engine_store e1) i = Some n) (\<lambda>i d. st_edges (engine_store e1) i = Some d) e1"
    using L C by (simp add: engine_from_def list_all_length lanes_ok_def cache_ok_def)
  then show ?thesis by (rule engine_from_mono) (auto simp: edge_version_def intro: node_version.initial)
qed

section \<open>Nothing is invented\<close>

text \<open>
  C5: Reads never invent.  An engine is started on intact logs, and the whole system runs:
  requests, syncs, compactions and flushes in any order, with any fault, and records that are
  created again or whose home a flush emptied.  Whatever a request is answered then, every node
  in the reply is a version of the node of that identifier - created by a request or found in
  the logs, with the properties of update requests set - and every edge one that was created
  under its identifier or found in the logs.
\<close>

theorem reads_never_invent:
  assumes new: "new_engine J io1 now1 logs (Some cfg) fs = (Inr e0, fs')" and lanes: "ec_NumWriteLanes cfg < 2 ^ 32"
    and logs: "logs_hold (logs (wal_dir cfg)) (ec_MemtableSize cfg) e0 ws"
    and start: "engine_start io2 e0 = (Inr (), e1)" "io_open_ok io2"
    and run: "system_run B e1 tr e" and fits: "encodable (engine_store e1) (asked tr) t rq"
    and req: "handle io now t ord rq e = (rp, e')"
  shows "known_reply (node_version (store_of_logs e0 ws) (asked tr @ [(t, rq)]))
    (edge_version (store_of_logs e0 ws) (asked tr @ [(t, rq)])) rq rp"
proof -
  from engine_start_store [OF new lanes logs start(2)] start(1) have E: "engine_ok e1" "engine_store e1 = store_of_logs e0 ws" by auto
  from E(1) have L: "lanes_ok e1" by (simp add: engine_ok_def)
  let ?P = "node_version (engine_store e1) (asked tr @ [(t, rq)])" and ?Q = "edge_version (engine_store e1) (asked tr @ [(t, rq)])"
  have "engine_from ?P ?Q e"
    by (rule engine_from_mono [OF system_run_from [OF run L engine_start_from [OF new start(1) E(1)]]])
      (auto intro: node_version_mono simp: edge_version_def)
  from handle_from [OF this versions_own [OF L] encodable_admits [OF fits] req] show ?thesis by (simp add: E(2))
qed

theorem reads_never_invent_witness:
  "\<exists>J e0 fs e1 e rp e'. new_engine J io_fine 0 (\<lambda>_ _. None) (Some demo_config) Map.empty = (Inr e0, fs)
     \<and> engine_start io_fine e0 = (Inr (), e1)
     \<and> system_run tiny_bloom e1 [(time_unix 0, CreateNode demo_node, Done (Inr ()))] e
     \<and> handle io_fine 0 (time_unix 0) (\<lambda>ks. ks) (GetNode [0x61]) e = (rp, e')
     \<and> known_reply (node_version empty_store [(time_unix 0, CreateNode demo_node), (time_unix 0, GetNode [0x61])])
         (edge_version empty_store [(time_unix 0, CreateNode demo_node), (time_unix 0, GetNode [0x61])]) (GetNode [0x61]) rp"
proof -
  fix x
  obtain e0 fs e1 where e0: "new_engine (one_json x) io_fine 0 (\<lambda>_ _. None) (Some demo_config) Map.empty = (Inr e0, fs)"
    and e1: "engine_start io_fine e0 = (Inr (), e1)" "en_running e1" "en_numLanes e1 = 1"
      "en_lanes e1 = [new_write_lane 0 1000 (new_wal 0 False (256 * 1024) None)]"
    and lim: "ec_NumWriteLanes demo_config < 2 ^ 32"
    and log0: "logs_hold (\<lambda>_. None) (ec_MemtableSize demo_config) e0 (\<lambda>_. [])" and S1: "engine_store e1 = empty_store"
    using demo_started [of x] by blast
  have S0: "store_of_logs e0 (\<lambda>_. []) = empty_store" by (simp add: store_of_logs_def store_after_def empty_store_def)
  have idx: "lane_index e1 k = 0" for k using e1(3) by (simp add: lane_index_def)
  obtain l where l: "write_node io_fine 0 demo_node (new_write_lane 0 1000 (new_wal 0 False (256 * 1024) None)) = (Inr (), l)"
    using demo_write_large by blast
  let ?e = "set_lane 0 l e1" and ?tr = "[(time_unix 0, CreateNode demo_node, Done (Inr ()))]"
  have h: "handle io_fine 0 (time_unix 0) (\<lambda>ks. ks) (CreateNode demo_node) e1 = (Done (Inr ()), ?e)"
    using l e1(2-4) idx by (simp add: create_node_def)
  have "system_run tiny_bloom e1 ?tr ?e"
    using system_run.request [OF system_run.start _ h] demo_node_facts by simp
  moreover have "run_lane_flusher tiny_bloom [ContextDone] 0 ?e = (Inr (), ?e)" by simp
  ultimately have run: "system_run tiny_bloom e1 ?tr ?e" by (rule system_run.flush)
  obtain rp e' where req: "handle io_fine 0 (time_unix 0) (\<lambda>ks. ks) (GetNode [0x61]) ?e = (rp, e')" by force
  from reads_never_invent [OF e0 lim log0 e1(1) io_fine_ok(1) run _ req]
  have "known_reply (node_version empty_store (asked ?tr @ [(time_unix 0, GetNode [0x61])]))
      (edge_version empty_store (asked ?tr @ [(time_unix 0, GetNode [0x61])])) (GetNode [0x61]) rp"
    by (simp add: S0)
  with e0 e1(1) run req show ?thesis by (intro exI conjI) (assumption | simp)+
qed

end
