(* ===== verification/Engine_Calm.thy ===== *)
theory Engine_Calm
  imports Engine_Progress Provenance
begin

text \<open>
  No request panics, whatever was asked before: identifiers created again,
  records of any size, flushes between the requests, any fault.
\<close>

section \<open>The invariant\<close>

text \<open>
  Three panics lie in wait for a request: the type assertion of \<open>Put\<close> on a tombstone, the one of
  the typed cache lookups, and the nil map of a node without properties in \<open>SetProperty\<close>.  An
  engine never deletes, a decoded node has a map, and each tier holds values of one type.
\<close>

definition real_node :: "bytes \<Rightarrow> node \<Rightarrow> bool" where
  "real_node i n \<longleftrightarrow> n_Properties n \<noteq> None"

definition engine_calm :: "engine \<Rightarrow> bool" where
  "engine_calm e \<longleftrightarrow> engine_tidy e \<and> tiers_hold real_node (\<lambda>_ _. True) (en_cache e)
     \<and> 0 < en_numLanes e \<and> en_numLanes e < 2 ^ 32 \<and> length (en_lanes e) = en_numLanes e"

definition quiet :: "'a res \<Rightarrow> bool" where
  "quiet r \<longleftrightarrow> (\<forall>er. r = Inl er \<longrightarrow> \<not> is_panic er)"

fun panics :: "reply \<Rightarrow> bool" where
  "panics (Done r) \<longleftrightarrow> \<not> quiet r"
| "panics (ANode r) \<longleftrightarrow> \<not> quiet r"
| "panics (AnEdge r) \<longleftrightarrow> \<not> quiet r"
| "panics (Edges r) \<longleftrightarrow> \<not> quiet r"
| "panics (Nodes r) \<longleftrightarrow> \<not> quiet r"

lemma quiet_simps [simp]: "quiet (Inr x)" "quiet (Inl er) = (\<not> is_panic er)"
  by (simp_all add: quiet_def)

lemma quiet_wrapE [simp]: "quiet (wrapE msg r) = quiet r"
  by (cases r) (auto simp: wrapE_def quiet_def split: go_error.splits)

lemma calm_result_quiet: "calm_result r = quiet r"
  by (cases r) (simp_all add: quiet_def)

lemma deserialized_real: "deserialize_node bs = Inr n \<Longrightarrow> n_Properties n \<noteq> None"
  by (auto simp: deserialize_node_def bindE_iff split: prod.splits)

lemma read_node_real: "read_node l i = Inr n \<Longrightarrow> real_node j n"
  by (auto simp: read_node_def get_node_def real_node_def split: sum.splits option.splits prod.splits bool.splits
      dest!: first_found_Some deserialized_real)

lemma clone_real [simp]: "real_node j (clone_node n) = real_node j n"
  by (auto simp: real_node_def clone_node_def clone_properties_def split: option.splits)

lemma engine_calm_cache: "engine_calm e \<Longrightarrow> tiers_hold real_node (\<lambda>_ _. True) c \<Longrightarrow> engine_calm (e\<lparr>en_cache := c\<rparr>)"
  by (simp add: engine_calm_def engine_tidy_def)

lemma engine_calm_set_lane: "engine_calm e \<Longrightarrow> lane_tidy l \<Longrightarrow> engine_calm (set_lane j l e)"
  using engine_tidy_set_lane [of e l j] by (simp add: engine_calm_def set_lane_def)

lemma engine_calm_nth: "engine_calm e \<Longrightarrow> lane_tidy (en_lanes e ! lane_index e k)"
  by (simp add: engine_calm_def engine_tidy_def list_all_length lane_index_less)

section \<open>Requests\<close>

lemma get_node_calm:
  assumes C: "engine_calm e" and run: "engine_get_node i e = (r, e')"
  shows "engine_calm e' \<and> quiet r \<and> (\<forall>n. r = Inr n \<longrightarrow> real_node i n)"
proof (cases "en_running e")
  case False
  with run C show ?thesis by (auto simp: engine_get_node_def)
next
  case True
  obtain q c where g: "mlc_get_node i (en_cache e) = (q, c)" by force
  from C have "tiers_hold real_node (\<lambda>_ _. True) (en_cache e)" by (simp add: engine_calm_def)
  note T = mlc_get_node_ok [OF this g]
  then have c: "tiers_hold real_node (\<lambda>_ _. True) c" by blast
  show ?thesis
  proof (cases "q = Inr None")
    case False
    with T obtain n where "q = Inr (Some n)" "real_node i n" by blast
    with run True g engine_calm_cache [OF C c] show ?thesis by (auto simp: engine_get_node_def)
  next
    case miss: True
    show ?thesis
    proof (cases "first_found (\<lambda>l. read_node l i) (probe_order e i)")
      case None
      with run True g miss engine_calm_cache [OF C c] show ?thesis by (auto simp: engine_get_node_def)
    next
      case (Some n)
      from first_found_Some [OF Some] read_node_real have n: "real_node i n" by blast
      obtain r1 c1 where p: "mlc_put_node (n_ID (clone_node n)) (clone_node n) c = (r1, c1)" by force
      from n have "real_node (n_ID (clone_node n)) (clone_node n)" unfolding clone_real by (simp add: real_node_def)
      from engine_calm_cache [OF C mlc_put_node_ok [OF c this p]] run True g miss Some p n show ?thesis
        by (auto simp: engine_get_node_def mlc_put_node_by_id_eq)
    qed
  qed
qed

lemma get_edge_calm:
  assumes C: "engine_calm e" and run: "engine_get_edge i e = (r, e')"
  shows "engine_calm e' \<and> quiet r"
proof (cases "en_running e")
  case False
  with run C show ?thesis by (auto simp: engine_get_edge_def)
next
  case True
  obtain q c where g: "mlc_get_edge i (en_cache e) = (q, c)" by force
  from C have "tiers_hold real_node (\<lambda>_ _. True) (en_cache e)" by (simp add: engine_calm_def)
  note T = mlc_get_edge_ok [OF this g]
  then have c: "tiers_hold real_node (\<lambda>_ _. True) c" by blast
  have "engine_calm (e\<lparr>en_cache := snd (mlc_put_edge k d c)\<rparr>)" for k d
    using engine_calm_cache [OF C mlc_put_edge_ok [OF c, of k d]] by (metis prod.collapse)
  with run True g T engine_calm_cache [OF C c] show ?thesis
    by (auto simp: engine_get_edge_def Let_def mlc_put_edge_by_id_eq split: option.splits)
qed

lemma fetch_all_calm:
  assumes get: "\<And>e i r e'. engine_calm e \<Longrightarrow> get i e = (r, e') \<Longrightarrow> engine_calm e' \<and> quiet r"
    and "engine_calm e" and "fetch_all get ids acc e = (r, e')"
  shows "engine_calm e' \<and> quiet r"
  using assms(2-)
proof (induction ids arbitrary: acc e)
  case (Cons i ids)
  obtain q e1 where g: "get i e = (q, e1)" by force
  from get [OF Cons.prems(1) g] Cons.IH [of e1] Cons.prems(2) g show ?case
    by (cases q) (auto simp: quiet_def split: if_splits)
qed auto

lemma adjacent_calm:
  assumes "engine_calm e"
  shows "engine_outgoing ord i e = (r, e') \<Longrightarrow> engine_calm e' \<and> quiet r"
    "engine_incoming ord i e = (r, e') \<Longrightarrow> engine_calm e' \<and> quiet r"
proof -
  have fetch: "fetch_all engine_get_edge ids [] e = (r, e') \<Longrightarrow> engine_calm e' \<and> quiet r" for ids
    by (rule fetch_all_calm [OF get_edge_calm assms])
  show "engine_outgoing ord i e = (r, e') \<Longrightarrow> engine_calm e' \<and> quiet r"
    "engine_incoming ord i e = (r, e') \<Longrightarrow> engine_calm e' \<and> quiet r"
    using assms by (auto simp: engine_outgoing_def engine_incoming_def Let_def split: if_splits dest: fetch)
qed

lemma neighbor_ids_calm:
  assumes C: "engine_calm e" and run: "neighbor_ids ord i d e = (r, e')"
  shows "engine_calm e' \<and> quiet r"
proof -
  obtain ro eo where o: "engine_outgoing ord i e = (ro, eo)" by force
  obtain ri ei where i: "engine_incoming ord i e = (ri, ei)" by force
  obtain rb eb where b: "engine_incoming ord i eo = (rb, eb)" by force
  from adjacent_calm(1) [OF C o] have O: "engine_calm eo" "quiet ro" by blast+
  from adjacent_calm(2) [OF C i] have I: "engine_calm ei" "quiet ri" by blast+
  from adjacent_calm(2) [OF O(1) b] have B: "engine_calm eb" "quiet rb" by blast+
  from run show ?thesis
    using O I B C by (cases d; cases ro; cases ri; cases rb) (auto simp: neighbor_ids_def o i b)
qed

lemma neighbors_calm:
  assumes C: "engine_calm e" and run: "engine_neighbors ord i d e = (r, e')"
  shows "engine_calm e' \<and> quiet r"
proof -
  obtain q e1 where q: "neighbor_ids ord i d e = (q, e1)" by force
  note ids = neighbor_ids_calm [OF C q]
  note fetch = fetch_all_calm [of engine_get_node e1, OF _ ids [THEN conjunct1]]
  show ?thesis
  proof (cases q)
    case (Inl er)
    with run q ids C show ?thesis by (auto simp: engine_neighbors_def split: if_splits)
  next
    case (Inr ks)
    with run q C fetch [of "ord (remdups ks)" "[]" r e'] get_node_calm show ?thesis
      by (fastforce simp: engine_neighbors_def split: if_splits)
  qed
qed

lemma write_lane_calm:
  assumes C: "engine_calm e"
  shows "write_node io now n (en_lanes e ! lane_index e k) = (r, l) \<Longrightarrow> quiet r \<and> engine_calm (set_lane (lane_index e k) l e)"
    "write_edge io now d (en_lanes e ! lane_index e k) = (r, l) \<Longrightarrow> quiet r \<and> engine_calm (set_lane (lane_index e k) l e)"
  using write_node_calm [OF engine_calm_nth [OF C], of io now n k] write_edge_calm [OF engine_calm_nth [OF C], of io now d k]
    engine_calm_set_lane [OF C]
  by (simp_all add: calm_def calm_result_quiet)

lemma create_node_calm:
  "engine_calm e \<Longrightarrow> create_node io now n e = (r, e') \<Longrightarrow> engine_calm e' \<and> quiet r"
  using write_lane_calm(1) by (auto simp: create_node_def Let_def split: if_splits prod.splits)

lemma create_edge_calm:
  assumes C: "engine_calm e" and run: "create_edge io now d e = (r, e')"
  shows "engine_calm e' \<and> quiet r"
proof -
  obtain q e1 where g: "engine_get_node (e_FromNodeID d) e = (q, e1)" by force
  obtain q2 e2 where g2: "engine_get_node (e_ToNodeID d) e1 = (q2, e2)" by force
  from get_node_calm [OF C g] have G: "engine_calm e1" "quiet q" by blast+
  from get_node_calm [OF G(1) g2] have G2: "engine_calm e2" "quiet q2" by blast+
  from run g g2 G G2 C write_lane_calm(2) [OF G2(1)] show ?thesis
    by (auto simp: create_edge_def Let_def split: if_splits sum.splits prod.splits)
qed

lemma update_node_calm:
  assumes C: "engine_calm e" and run: "update_node io now t i ps e = (r, e')"
  shows "engine_calm e' \<and> quiet r"
proof -
  obtain q e1 where g: "engine_get_node i e = (q, e1)" by force
  from get_node_calm [OF C g] have G: "engine_calm e1" "quiet q" "\<And>n. q = Inr n \<Longrightarrow> real_node i n" by blast+
  let ?e = "e1\<lparr>en_cache := invalidate_node i (en_cache e1)\<rparr>"
  from G(1) have "tiers_hold real_node (\<lambda>_ _. True) (en_cache e1)" by (simp add: engine_calm_def)
  from engine_calm_cache [OF G(1) invalidate_node_ok [OF this]] have E: "engine_calm ?e" by simp
  have "succeeds (set_properties t ps (clone_node n))" if "q = Inr n" for n
    using set_properties_ok [of "clone_node n" t ps] clone_real [of i n] G(3) [OF that] by (auto simp: real_node_def succeeds_def)
  with run g G C write_lane_calm(1) [OF E, of io now _ i] show ?thesis
    by (auto simp: update_node_def Let_def succeeds_def split: if_splits sum.splits prod.splits)
qed

lemma handle_is_calm:
  assumes C: "engine_calm e" and run: "handle io now t ord rq e = (rp, e')"
  shows "engine_calm e' \<and> \<not> panics rp"
proof (cases rq)
  case (CreateNode n)
  with run create_node_calm [OF C] show ?thesis by (fastforce simp: handle_simps simp del: handle.simps)
next
  case (UpdateNode i ps)
  with run update_node_calm [OF C] show ?thesis by (fastforce simp: handle_simps simp del: handle.simps)
next
  case (GetNode i)
  with run get_node_calm [OF C] show ?thesis by (fastforce simp: handle_simps simp del: handle.simps)
next
  case (CreateEdge d)
  with run create_edge_calm [OF C] show ?thesis by (fastforce simp: handle_simps simp del: handle.simps)
next
  case (GetEdge i)
  with run get_edge_calm [OF C] show ?thesis by (fastforce simp: handle_simps simp del: handle.simps)
next
  case (Outgoing i)
  with run adjacent_calm(1) [OF C] show ?thesis by (fastforce simp: handle_simps simp del: handle.simps)
next
  case (Incoming i)
  with run adjacent_calm(2) [OF C] show ?thesis by (fastforce simp: handle_simps simp del: handle.simps)
next
  case (Neighbors i d)
  with run neighbors_calm [OF C] show ?thesis by (fastforce simp: handle_simps simp del: handle.simps)
qed

section \<open>Recovery\<close>

text \<open>
  What a log of the engine can hold, be it after a crash: entries of nodes and of edges, and then
  at most a part of one.  (An entry of the delete type, which no engine writes, would put a
  tombstone into the table.)
\<close>

definition engine_log :: "bytes \<Rightarrow> bool" where
  "engine_log d \<longleftrightarrow> (\<exists>es en k. list_all (\<lambda>en. entry_ok en \<and> en_Type en \<in> {EntryTypeNode, EntryTypeEdge}) es
     \<and> entry_ok en \<and> k < length (serialize_entry en) \<and> d = log_bytes es @ take k (serialize_entry en))"

lemma engine_log_Nil [simp]: "engine_log []"
proof -
  let ?en = "\<lparr>en_Type = 0, en_Key = [], en_Value = [], en_Checksum = 0, en_Timestamp = 0\<rparr>"
  have "entry_ok ?en" "0 < length (serialize_entry ?en)" by (simp_all add: entry_ok_def str_ok_def length_serialize_entry)
  then show ?thesis unfolding engine_log_def by (intro exI [of _ "[]"] exI [of _ ?en] exI [of _ 0]) simp
qed

lemma recover_entry_calm:
  assumes "lane_tidy l" and "en_Type en \<in> {EntryTypeNode, EntryTypeEdge}" and "recover_entry en l = (r, l')"
  shows "lane_tidy l'"
proof -
  have ig: "calm (ignore_error r c)" if "calm r" "\<And>l. lane_tidy l \<Longrightarrow> calm (c l)" for r c
    using that by (auto simp: ignore_error_def intro: calm_intro)
  have "calm (ignore_error (add_out d l) (\<lambda>l. ignore_error (add_in d l) (\<lambda>l. (Inr (), l))))" if "lane_tidy l" for d l
    by (intro ig calm_intro that)
  then have adj: "lane_tidy (snd (ignore_error (add_out d l) (\<lambda>l. ignore_error (add_in d l) (\<lambda>l. (Inr (), l)))))" if "lane_tidy l" for d l
    using that by (simp add: calm_def)
  show ?thesis
    using assms on_active_calm [OF assms(1)] on_edges_calm [OF assms(1)] adj
    by (auto simp: recover_entry_def calm_def split: sum.splits prod.splits) (metis snd_conv)+
qed

lemma apply_entries_tidy:
  "list_all (\<lambda>en. entry_ok en \<and> en_Type en \<in> {EntryTypeNode, EntryTypeEdge}) es \<Longrightarrow> lane_tidy l \<Longrightarrow>
     apply_entries recover_entry es l = (r, l') \<Longrightarrow> lane_tidy l'"
proof (induction es arbitrary: l)
  case (Cons en es)
  obtain q l1 where s: "recover_entry (sealed en) l = (q, l1)" by force
  from Cons.prems(1) have "en_Type (sealed en) \<in> {EntryTypeNode, EntryTypeEdge}" by (simp add: sealed_def)
  from recover_entry_calm [OF Cons.prems(2) this s] Cons show ?case by (auto simp: s split: sum.splits)
qed simp

lemma lane_recover_tidy:
  assumes run: "lane_recover io l = (Inr (), l')" and l: "lane_tidy l" and log: "\<And>d. w_file (l_wal l) = Some d \<Longrightarrow> engine_log d"
  shows "lane_tidy l'"
proof (cases "w_file (l_wal l)")
  case None
  with run l show ?thesis by (simp add: lane_recover_def wal_replay_def)
next
  case (Some d)
  from log [OF Some] obtain es en k where es: "list_all (\<lambda>en. entry_ok en \<and> en_Type en \<in> {EntryTypeNode, EntryTypeEdge}) es"
    and en: "entry_ok en" "k < length (serialize_entry en)" and d: "d = log_bytes es @ take k (serialize_entry en)"
    unfolding engine_log_def by blast
  from run Some have run': "replay_loop recover_entry d l = (Inr (), l')"
    by (simp add: lane_recover_def wal_replay_def split: if_splits)
  obtain r l1 where a: "apply_entries recover_entry es l = (r, l1)" by force
  have "list_all entry_ok es" using es by (simp add: list_all_iff)
  from replay_loop_log [OF this, of recover_entry "take k (serialize_entry en)" l] run' have "l' = l1"
    by (auto simp: d a replay_loop_torn [OF en] split: sum.splits)
  with apply_entries_tidy [OF es l a] show ?thesis by simp
qed

lemma engine_start_calm:
  assumes new: "new_engine J io now logs (Some cfg) fs = (Inr e0, fs')" and lanes: "ec_NumWriteLanes cfg < 2 ^ 32"
    and logs: "\<forall>j < en_numLanes e0. engine_log (log_file (logs (wal_dir cfg) j))"
    and start: "engine_start io' e0 = (Inr (), e1)"
  shows "engine_calm e1"
proof -
  note N = new_engine_Inr [OF new]
  obtain r ls where r: "recover_lanes io' (en_lanes e0) = (r, ls)" by force
  with start N(6-8) have rec: "r = Inr ()" "en_lanes e1 = ls" "en_cache e1 = en_cache e0" "en_numLanes e1 = en_numLanes e0"
    by (auto simp: engine_start_def flusher_start_def compactor_start_def wrapE_Inr_iff split: sum.splits)
  from recover_lanes_each [of io' "en_lanes e0" ls] r rec(1) have R: "list_all2 (\<lambda>l l'. lane_recover io' l = (Inr (), l')) (en_lanes e0) ls" by simp
  have "lane_tidy (ls ! j)" if j: "j < length ls" for j
  proof -
    from j R N(3) have j0: "j < en_numLanes e0" by (simp add: list_all2_lengthD [symmetric])
    let ?l = "en_lanes e0 ! j"
    from N(4) [OF j0] have l: "?l = new_write_lane j (ec_MemtableSize cfg) (new_wal j False (256 * 1024) (logs (wal_dir cfg) j))" .
    have "lane_recover io' ?l = (Inr (), ls ! j)" using R j0 N(3) by (simp add: list_all2_conv_all_nth)
    moreover have "lane_tidy ?l" by (simp add: l lane_tidy_def new_write_lane_def new_wal_def Let_def)
    moreover have "w_file (l_wal ?l) = Some d \<Longrightarrow> engine_log d" for d
      using logs j0 by (auto simp: l new_write_lane_def new_wal_def Let_def log_file_def)
    ultimately show ?thesis by (rule lane_recover_tidy)
  qed
  then have "engine_tidy e1" by (simp add: engine_tidy_def rec list_all_length)
  moreover have "0 < en_numLanes e0" "en_numLanes e0 < 2 ^ 32" using N(1,2) lanes by (simp_all add: nat_less_iff)
  moreover have "length ls = en_numLanes e0" using list_all2_lengthD [OF R] N(3) by simp
  ultimately show ?thesis by (simp add: engine_calm_def rec N(5) tiers_hold_new)
qed

section \<open>Runs\<close>

text \<open>
  A run of the whole system with no condition on anything: any request with any reply, and in
  between syncs, compactions and the events of the lane flushers.
\<close>

inductive free_run :: "'b bloom \<Rightarrow> engine \<Rightarrow> (gotime \<times> request \<times> reply) list \<Rightarrow> engine \<Rightarrow> bool" for B e0 where
  start: "free_run B e0 [] e0"
| request: "free_run B e0 tr e \<Longrightarrow> handle io now t ord rq e = (rp, e') \<Longrightarrow> free_run B e0 (tr @ [(t, rq, rp)]) e'"
| sync: "free_run B e0 tr e \<Longrightarrow> j < en_numLanes e \<Longrightarrow> wal_sync io (l_wal (en_lanes e ! j)) = (r, w) \<Longrightarrow>
     free_run B e0 tr (set_lane j ((en_lanes e ! j)\<lparr>l_wal := w\<rparr>) e)"
| compact: "free_run B e0 tr e \<Longrightarrow> run_compaction B io srt now (en_compactor e) (en_fs e) = (r, c, fs) \<Longrightarrow>
     free_run B e0 tr (e\<lparr>en_compactor := c, en_fs := fs\<rparr>)"
| flush: "free_run B e0 tr e \<Longrightarrow> run_lane_flusher B evs j e = (r, e') \<Longrightarrow> free_run B e0 tr e'"

lemma flush_frame_calm:
  assumes "flush_frame j e e'" and C: "engine_calm e"
  shows "engine_calm e'"
proof -
  from assms(1) obtain l f fs where e': "e' = e\<lparr>en_lanes := (en_lanes e)[j := l], en_flusher := f, en_fs := fs\<rparr>"
    and l: "lane_shrunk (en_lanes e ! j) l" by (auto simp: flush_frame_def)
  have "engine_calm (set_lane j l e)"
  proof (cases "j < length (en_lanes e)")
    case True
    with C have "lane_tidy (en_lanes e ! j)" by (simp add: engine_calm_def engine_tidy_def list_all_length)
    with l have "lane_tidy l" by (auto simp: lane_shrunk_def lane_tidy_def)
    with C show ?thesis by (rule engine_calm_set_lane)
  next
    case False
    with C show ?thesis by (simp add: set_lane_def list_update_beyond)
  qed
  then show ?thesis by (simp add: e' engine_calm_def engine_tidy_def set_lane_def)
qed

lemma free_run_calm:
  "free_run B e0 tr e \<Longrightarrow> engine_calm e0 \<Longrightarrow> engine_calm e \<and> (\<forall>(t, rq, rp)\<in>set tr. \<not> panics rp)"
proof (induction rule: free_run.induct)
  case (request tr e io now t ord rq rp e')
  with handle_is_calm [OF _ request.hyps(2)] show ?case by auto
next
  case (sync tr e j io r w)
  then have C: "engine_calm e" by blast
  with sync.hyps(2) have "lane_tidy (en_lanes e ! j)" by (simp add: engine_calm_def engine_tidy_def list_all_length)
  then have "lane_tidy ((en_lanes e ! j)\<lparr>l_wal := w\<rparr>)" using wal_sync_frame [OF sync.hyps(3)] by (simp add: lane_tidy_def same_handle_def)
  with C engine_calm_set_lane sync.IH [OF sync.prems] show ?case by blast
next
  case (flush tr e evs j r e')
  with flush_frame_calm [OF run_lane_flusher_frame [OF flush.hyps(2)]] show ?case by blast
qed (simp_all add: engine_calm_def engine_tidy_def)

text \<open>
  C4: No request panics.  An engine is opened on logs of whole entries of nodes and edges, with
  perhaps a part of one more at the end (what an engine writes, torn by a crash or not), or on
  none, and its start succeeded.  Then the whole system runs (\<open>free_run\<close>) with no condition on
  anything: any requests, with records of any size, under identifiers created before, with any
  characters; syncs, compactions and flushes in between; any fault.  The reply to every request
  of the run and to the next one is a result or an ordinary error, never a panic.  (A request
  carries a record or an identifier here, not a nil pointer.)
\<close>

theorem requests_never_panic:
  assumes new: "new_engine J io1 now1 logs (Some cfg) fs = (Inr e0, fs')" and lanes: "ec_NumWriteLanes cfg < 2 ^ 32"
    and logs: "\<forall>j < en_numLanes e0. engine_log (log_file (logs (wal_dir cfg) j))"
    and start: "engine_start io2 e0 = (Inr (), e1)" and run: "free_run B e1 tr e"
  shows "(\<forall>(t, rq, rp)\<in>set tr. \<not> panics rp) \<and> \<not> panics (fst (handle io now t ord rq e))"
proof -
  from free_run_calm [OF run engine_start_calm [OF new lanes logs start]] have
    "engine_calm e" "\<forall>(t, rq, rp)\<in>set tr. \<not> panics rp" by blast+
  with handle_is_calm [of e] show ?thesis by (metis prod.collapse)
qed

theorem requests_never_panic_witness:
  "\<exists>J e0 fs e1 e. new_engine J io_fine 0 (\<lambda>_ _. None) (Some demo_config) Map.empty = (Inr e0, fs)
     \<and> engine_start io_fine e0 = (Inr (), e1)
     \<and> free_run tiny_bloom e1 [(time_unix 0, CreateNode demo_node, Done (Inr ()))] e
     \<and> \<not> panics (fst (handle io_fine 0 (time_unix 0) (\<lambda>ks. ks) (CreateNode demo_node) e))"
proof -
  fix x
  obtain e0 fs e1 where e0: "new_engine (one_json x) io_fine 0 (\<lambda>_ _. None) (Some demo_config) Map.empty = (Inr e0, fs)"
    and e1: "engine_start io_fine e0 = (Inr (), e1)" "en_running e1" "en_numLanes e1 = 1"
      "en_lanes e1 = [new_write_lane 0 1000 (new_wal 0 False (256 * 1024) None)]"
    and lim: "ec_NumWriteLanes demo_config < 2 ^ 32"
    using demo_started [of x] by blast
  have idx: "lane_index e1 k = 0" for k using e1(3) by (simp add: lane_index_def)
  obtain l where l: "write_node io_fine 0 demo_node (new_write_lane 0 1000 (new_wal 0 False (256 * 1024) None)) = (Inr (), l)"
    using demo_write_large by blast
  have h: "handle io_fine 0 (time_unix 0) (\<lambda>ks. ks) (CreateNode demo_node) e1 = (Done (Inr ()), set_lane 0 l e1)"
    using l e1(2-4) idx by (simp add: create_node_def)
  have run: "free_run tiny_bloom e1 [(time_unix 0, CreateNode demo_node, Done (Inr ()))] (set_lane 0 l e1)"
    using free_run.request [OF free_run.start h] by simp
  have logs: "\<forall>j < en_numLanes e0. engine_log (log_file ((\<lambda>_ _. None) (wal_dir demo_config) j))" by (simp add: log_file_def)
  from requests_never_panic [OF e0 lim logs e1(1) run] e0 e1(1) run show ?thesis by blast
qed

end
