(* ===== verification/Spec2Isabelle.thy ===== *)
theory Spec2Isabelle
  imports Serialization Engine_Flush Workers Capacity Example_Simple Provenance Engine_Calm
begin

text \<open>
  A verification development of crazygraphstore, an LSM-style graph store in Go.

  The program.  An engine (\<open>pkg/storage/engine.go\<close>) hashes the identifier of every record to
  one of its write lanes (\<open>pkg/storage/write_lane.go\<close>).  A lane appends the encoded record
  (\<open>pkg/graph/serialization.go\<close>) to its write-ahead log (\<open>pkg/wal/wal.go\<close>) and puts it into
  its in-memory tables (\<open>pkg/memtable/memtable.go\<close>: nodes, edges, adjacency lists as
  comma-separated text).  Full tables are frozen and replaced; the flusher
  (\<open>pkg/persistence/flusher.go\<close>) writes frozen node tables out as sorted table files
  (\<open>pkg/sstable\<close>), the compactor (\<open>pkg/compaction\<close>) merges such files, the manifest
  (\<open>pkg/manifest/manifest.go\<close>) lists them.  Reads go through a cache of three LRU tiers
  (\<open>pkg/cache\<close>) and then the lanes.  At start-up the logs are replayed.

  The theories, in the order they build on each other.

    Prelude: bytes, slices and Go errors as values (a returned error, a wrapped one, a panic),
    the integer encodings of \<open>encoding/binary\<close>.  Codec: the interfaces \<open>stream_codec\<close> (an
    encoding that tells where it ends) and \<open>record_codec\<close> (an encoding of whole values), with
    what their readers do proved once.  Crc32: the checksum, and that one changed byte changes
    it.  Bufio: files, the buffered writer, and what the operating system may do.  Go_Heap:
    \<open>container/heap\<close>.  Files: the file system as a map, and path cleaning.

    Graph_Types (\<open>pkg/graph/types.go\<close>) and Serialization (\<open>pkg/graph/serialization.go\<close>): nodes,
    edges, paths, and their encoding; which values encode, that what is encoded reads back, in
    whatever order the property map is visited, that no proper prefix of an encoding decodes.

    Memtable (\<open>pkg/memtable/memtable.go\<close>): the table and its three forms.  The size accounting
    is an invariant of the reachable tables; \<open>kv_store\<close> is the contract of put and get, on
    which \<open>record_table\<close> builds the node and the edge table.

    Wal (\<open>pkg/wal/wal.go\<close>): entries, buffered and direct-I/O appends, sync, close, truncate,
    replay.  What a crash leaves of a log (\<open>crash_image\<close>) is any part of the file that keeps
    what was synced; \<open>log_inv\<close> says what a log holds, and replay is characterised on whole,
    torn, damaged and padded logs.

    Write_Lane and Recovery (\<open>pkg/storage/write_lane.go\<close>): writes with their rotations and
    retries, reads through the layers of tables (\<open>layered_table\<close>), and recovery.  A lane refines
    a store of nodes, edges and two multisets of edge identifiers per node (\<open>lane_store\<close>).

    Sstable_Format, Sstable_Writer, Sstable_Reader (\<open>pkg/sstable\<close>): the format byte for byte,
    the writer with its block boundaries, the reader with its binary search.  A table is a
    sorted list of entries: it reads back entry by entry and in a scan.

    Lru_Cache and Multilevel_Cache (\<open>pkg/cache\<close>): \<open>cache_laws\<close> is the contract between them.

    Merger, Compaction (\<open>pkg/compaction\<close>): the k-way merge, the two selection strategies, a
    cycle with its file operations and errors.  Manifest (\<open>pkg/manifest/manifest.go\<close>): the save
    through a rename.  Flusher (\<open>pkg/persistence/flusher.go\<close>).

    Engine (\<open>pkg/storage/engine.go\<close>): construction, start, stop, the bodies of the background
    workers, every operation.  Engine_Store: the whole engine against one graph
    (\<open>engine_store\<close>): the relation \<open>answers\<close> says what each request must reply and do, and a
    run of requests, syncs and compactions satisfies it.  Engine_Life: start-up, stop, the
    background flush.  Engine_Restart: what a run leaves in the logs, and the next start on it.
    Engine_Progress: on a healthy file system a script of well-formed requests (\<open>serve\<close>,
    \<open>script_ok\<close>) is acknowledged to the end.  Lifetimes: processes one after the other on the
    same files (\<open>lifetimes\<close>), each opened on what the last one left, ended by \<open>Stop\<close> or a crash.
    Capacity: how many nodes may be accepted so that the next start succeeds, exactly.
    Example_Simple (\<open>cmd/example/simple/main.go\<close>): the shipped demonstration as one program, and
    what it prints and leaves behind.

    The background workers are loops around a \<open>select\<close>: functions of the list of events it
    delivers.  Workers: the log's sync worker (\<open>background_sync\<close>, with the appends of other
    goroutines between its events) and the compaction worker (\<open>background_compaction\<close>).
    Engine_Flush: the lane flusher (\<open>run_lane_flusher\<close>), what it can reach and what one signal
    does to the lane and its readers.  Provenance: the whole system with everything running at
    once, flushes included (\<open>system_run\<close>), and that it never invents a record.  Engine_Calm: the whole
    system under any requests whatever (\<open>free_run\<close>), and that none panics; the invariant is that
    no table holds a tombstone and every tier of the cache values of its own kind.

  How the code is read.  A struct is a record, a word is a word of its width, a method is a
  function from the state to a result and the state; an error return is \<open>Inl\<close>, and a panic is an
  error value no caller wraps or catches.  A lock that an operation holds makes it a state
  transformer; goroutines are the steps of runs, in any order, at the granularity of whole
  operations.  Sizes that are sums of lengths of data in memory are integers; counters,
  versions and everything that is encoded are words.  A Go map is a function, or a list with
  distinct keys in the order the run at hand visits it, so what holds of every list holds of
  every order.  Go draws a new order for every \<open>range\<close> statement; a property map here keeps the
  order of its list, so the two encodings \<open>WriteNode\<close> makes of a record (for the log and for the
  table) are the same bytes in the model, while in Go they may list the properties in different
  orders.  Encodings that differ in that way have the same length and decode to the same record
  (\<open>serialize_node_perm\<close>, \<open>decodes_same_node\<close>, and the like for edges).  All loops are total functions here: the recursion is on the data, or on a
  measure with its termination proof (the rest of the input, the window of the binary search,
  the entries left in the scanners and the heap), so there is no fuel.

  What is a parameter.  The Bloom filter is third-party code: \<open>bloom_ok\<close> asks that it has no
  false negatives and reads back what it wrote, and a concrete filter satisfies it.  The JSON of
  the manifest: \<open>reads_back\<close>.  The result of \<open>sort.Slice\<close>: \<open>size_order\<close>.  The orders in which
  maps are visited: \<open>map_order\<close>.  The clock, and for every operation the faults of the operating
  system (\<open>wal_io\<close>: where a write runs out of room, which calls fail), chosen anew for each.

  Durability starts from the files as a process finds them: what a log holds when it is opened
  counts as synced (\<open>new_wal\<close>).  So it is after \<open>Stop\<close>, which syncs, and after a power cut, which
  leaves what is on the disk; a process that is killed without either and whose last writes the
  operating system still holds is not covered.  A log's configuration is the one
  the engine gives it; a sync interval that is not positive panics (\<open>open_wal\<close>).

  Bounds.  Lengths are encoded in 32 bits, so records are asked to be smaller than that
  (\<open>node_ok\<close>, \<open>edge_ok\<close>, \<open>kv_ok\<close>), and the number of lanes too, since the hash is taken modulo
  it as a 32-bit number.  Edge identifiers are asked to be non-empty, valid UTF-8 and without a
  comma (\<open>edge_id_ok\<close>) where the adjacency lists must be exact; a theorem shows what a comma
  does.  Recovery is asked to have room for its records twice over in one table: once because
  it never rotates, twice because a replaced value still counts while it is replaced.  The
  theorems on the engine as one graph are for clients that create each identifier once
  (\<open>admissible\<close>) and for runs without a flush; those on restarts are for runs whose records,
  old and new and twice over, fit one table of every lane, so that no table rotates.  Outside
  these bounds the code does lose or refuse data, and there are theorems that say so.

  What the theorems show, by the claim numbers of the theories.  The engine as a whole, within
  these bounds: it answers as one graph (Engine_Store), it recovers its logs and survives
  restarts (Engine_Life, Engine_Restart), so that the database is one graph over the lifetimes
  of all its processes (Lifetimes), as long as it has room: what a run of node requests leaves
  can be opened again exactly when each lane's records fit one table (Capacity); and a lane
  whose records fit one table loses nothing that was synced (Recovery).  The files: what is written reads back, merges and
  compactions of readable tables without common keys keep the entries, compactions come to rest, the manifest survives its faults, damage is
  detected.  The workers: a tick makes the log durable, a signal flushes exactly the tables
  visited in order, only finitely many ticks compact.  Even with flushes running, no reply
  contains anything that was not written (Provenance), and no request panics, whatever it is
  (Engine_Calm).  Progress: a healthy engine acknowledges what fits, and the demonstration program prints what it should.  The
  components: invariants, round trips, exact conditions for success, exact effects of failure.
  And where the code does not do what it means to, that: a flush succeeds only when the table
  happened to be visited in order, a flushed node is no longer readable, or is readable in an
  old version only, one write error silences a log for good, padding breaks the replay of
  direct-I/O logs, a table that does not open is deleted by compaction, an engine cannot be
  restarted within a process.

  Not modelled.  The other example (\<open>cmd/example/persistence\<close>) and the benchmarks
  (\<open>benchmarks\<close>) measure the engine: their results are elapsed times.  Nil pointers for
  the records a caller passes (\<open>CreateNode\<close> and \<open>CreateEdge\<close> would panic on one: a node or an
  edge is a value here), data races within an operation, the text of formatted errors beyond its fixed part, printing, and timing (a tick is
  an event that may come at any moment) are left out.
\<close>

end
